(* ===== verification/Http_Prelude.thy ===== *)
theory Http_Prelude
  imports Main "HOL-Library.Word"
begin

text \<open>
  Shared vocabulary of the development: machine integers, the error codes and
  failures of the library, a bind for computations that can fail, and the
  generic facts on them that the component theories use.

  \<^item> \<open>size_t\<close> is \<open>std::size_t\<close> of a 64 bit target; \<open>+\<close> wraps as in the code.
  \<^item> \<open>error_code\<close> is \<open>boost::system::error_code\<close> as far as the sources look
    at it: success, the codes they compare with by name, and every other code.
    \<open>Need_more_input\<close> stands for the codes that compare equal to the error
    condition \<open>http_proto::condition::need_more_input\<close>.
  \<^item> \<open>failure\<close> collects the ways control leaves a function other than by
    returning: the exceptions thrown, a \<open>BOOST_ASSERT\<close> that does not hold, and
    the dereference of the null pointer that \<open>system::result::operator->\<close>
    gives when there is no value (undefined behaviour).
\<close>

section \<open>Machine integers, error codes, failures\<close>

type_synonym size_t = "64 word"
type_synonym byte = "8 word"

datatype error_code =
    Success
  | Eof                   \<comment> \<open>\<open>asio::error::eof\<close>\<close>
  | Operation_aborted     \<comment> \<open>\<open>asio::error::operation_aborted\<close>\<close>
  | Need_more_input       \<comment> \<open>\<open>http_proto::condition::need_more_input\<close>\<close>
  | Stream_truncated      \<comment> \<open>\<open>ssl::error::stream_truncated\<close>\<close>
  | Other_error nat

definition failed :: "error_code \<Rightarrow> bool" where
  "failed ec \<longleftrightarrow> ec \<noteq> Success"

datatype failure =
    Logic_error string
  | Runtime_error string
  | System_error error_code
  | Other_exception nat
  | Assertion_failed
  | Null_dereference

text \<open>The collections of the development: inversion of one handler call, and
  the facts that compute with failing computations.\<close>

named_theorems call_defs \<open>definitions of the handlers and of the steps they take\<close>
named_theorems fail_simps \<open>evaluation and inversion of computations that can fail\<close>

lemma failed_simps [simp]:
  "\<not> failed Success" "failed Eof" "failed Operation_aborted"
  "failed Need_more_input" "failed Stream_truncated" "failed (Other_error k)"
  by (simp_all add: failed_def)

lemma not_failed_iff [simp]: "\<not> failed ec \<longleftrightarrow> ec = Success"
  by (simp add: failed_def)

section \<open>Computations that can fail\<close>

fun sbind :: "failure + 'a \<Rightarrow> ('a \<Rightarrow> failure + 'b) \<Rightarrow> failure + 'b" where
  "sbind (Inl f) k = Inl f"
| "sbind (Inr x) k = k x"

lemma sbind_Inr_iff [fail_simps]:
  "sbind m k = Inr y \<longleftrightarrow> (\<exists>x. m = Inr x \<and> k x = Inr y)"
  by (cases m) auto

lemma sbind_Inl_iff [fail_simps]:
  "sbind m k = Inl f \<longleftrightarrow> m = Inl f \<or> (\<exists>x. m = Inr x \<and> k x = Inl f)"
  by (cases m) auto

lemma case_sum_eq_iff [fail_simps]:
  "(case m of Inl a \<Rightarrow> f a | Inr b \<Rightarrow> g b) = y \<longleftrightarrow>
   (\<exists>a. m = Inl a \<and> f a = y) \<or> (\<exists>b. m = Inr b \<and> g b = y)"
  by (cases m) auto

lemma sbind_cong [fundef_cong]:
  "m = m' \<Longrightarrow> (\<And>x. m' = Inr x \<Longrightarrow> k x = k' x) \<Longrightarrow> sbind m k = sbind m' k'"
  by (cases m') auto

text \<open>\<open>BOOST_ASSERT(b)\<close> followed by the computation \<open>m\<close>.\<close>

definition boost_assert :: "bool \<Rightarrow> failure + 'a \<Rightarrow> failure + 'a" where
  "boost_assert b m = (if b then m else Inl Assertion_failed)"

lemma boost_assert_True [simp]: "boost_assert True m = m"
  by (simp add: boost_assert_def)

lemma boost_assert_Inr_iff [fail_simps]:
  "boost_assert b m = Inr y \<longleftrightarrow> b \<and> m = Inr y"
  by (simp add: boost_assert_def)

section \<open>Lists and words\<close>

definition bytes_size :: "'a list \<Rightarrow> size_t" where
  "bytes_size bs = of_nat (length bs)"

lemma bytes_size_Nil [simp]: "bytes_size [] = 0"
  by (simp add: bytes_size_def)

lemma bytes_size_append [simp]: "bytes_size (xs @ ys) = bytes_size xs + bytes_size ys"
  by (simp add: bytes_size_def)

lemma bytes_size_concat: "bytes_size (concat bss) = sum_list (map bytes_size bss)"
  by (induction bss) simp_all

lemma unat_bytes_size: "length bs < 2 ^ 64 \<Longrightarrow> unat (bytes_size bs) = length bs"
  by (simp add: bytes_size_def unat_of_nat take_bit_nat_eq_self)

end
