(* ===== verification/Fixed_Array.thy ===== *)
theory Fixed_Array
  imports Http_Prelude
begin

text \<open>
  \<open>example/server/fixed_array.hpp\<close>: an array whose elements are constructed in place,
  all from the same arguments. The model keeps the elements and the actions on memory
  (allocation, construction and destruction by index, deallocation) in the order the
  code performs them. Constructing an element may have effects on a state \<open>'s\<close> that
  the arguments refer to, and may throw.
\<close>

section \<open>The class\<close>

datatype memory_action =
    Allocate nat
  | Construct nat
  | Destroy nat
  | Deallocate nat

text \<open>\<open>t_\<close> is the address of the storage (whether it is null is all that matters) and
  \<open>n_\<close> the number of elements constructed so far, the length of \<open>fa_elems\<close>.\<close>

record 'a fixed_array =
  fa_t :: bool
  fa_elems :: "'a list"

definition fixed_array_default :: "'a fixed_array" where
  "fixed_array_default = \<lparr>fa_t = False, fa_elems = []\<rparr>"

definition fa_size :: "'a fixed_array \<Rightarrow> nat" where
  "fa_size a = length (fa_elems a)"

text \<open>The constructor's loop \<open>while(n_ < N) { new(&t_[n_]) T(args...); ++n_; }\<close>.\<close>

function fixed_array_fill ::
  "('s \<Rightarrow> failure + ('a \<times> 's)) \<Rightarrow> nat \<Rightarrow> 'a fixed_array \<Rightarrow> 's \<Rightarrow>
   memory_action list \<times> 'a fixed_array \<times> (failure + 's)" where
  "fixed_array_fill mk N a s =
     (if fa_size a < N then
        (case mk s of
           Inl f \<Rightarrow> ([], a, Inl f)
         | Inr (x, s1) \<Rightarrow>
             (case fixed_array_fill mk N (a\<lparr>fa_elems := fa_elems a @ [x]\<rparr>) s1 of
                (log, a', r) \<Rightarrow> (Construct (fa_size a) # log, a', r)))
      else ([], a, Inr s))"
  by pat_completeness auto
termination
  by (relation "measure (\<lambda>(mk, N, a, s). N - fa_size a)") (auto simp: fa_size_def)

declare fixed_array_fill.simps [simp del]

text \<open>The destructor's loop \<open>for(auto n = n_; n--;) t_[n].~T();\<close>.\<close>

fun destroy_loop :: "nat \<Rightarrow> memory_action list" where
  "destroy_loop 0 = []"
| "destroy_loop (Suc n) = Destroy n # destroy_loop n"

definition fixed_array_destroy :: "'a fixed_array \<Rightarrow> memory_action list" where
  "fixed_array_destroy a =
     (if \<not> fa_t a then [] else destroy_loop (fa_size a) @ [Deallocate (fa_size a)])"

text \<open>
  The constructor: it delegates to the default constructor, so when an element's
  constructor throws, the destructor runs before the exception leaves. An allocation
  that throws leaves \<open>t_\<close> null.
\<close>

definition fixed_array_new ::
  "(nat \<Rightarrow> bool) \<Rightarrow> ('s \<Rightarrow> failure + ('a \<times> 's)) \<Rightarrow> nat \<Rightarrow> 's \<Rightarrow>
   memory_action list \<times> (failure + ('a fixed_array \<times> 's))" where
  "fixed_array_new can_allocate mk N s =
     (if \<not> can_allocate N
      then (fixed_array_destroy (fixed_array_default :: 'a fixed_array), Inl (Other_exception 0))
      else
        (case fixed_array_fill mk N (fixed_array_default\<lparr>fa_t := True\<rparr>) s of
           (log, a, Inr s') \<Rightarrow> (Allocate N # log, Inr (a, s'))
         | (log, a, Inl f) \<Rightarrow> (Allocate N # log @ fixed_array_destroy a, Inl f)))"

text \<open>Iterators are pointers into the storage; the model has their offsets from \<open>t_\<close>. A loop
  \<open>for(auto& w : a)\<close> visits \<open>begin()\<close> to \<open>end()\<close>, and \<open>f\<close> is what its body does to the
  element.\<close>

definition fa_begin :: "'a fixed_array \<Rightarrow> nat" where
  "fa_begin a = 0"

definition fa_end :: "'a fixed_array \<Rightarrow> nat" where
  "fa_end a = fa_begin a + fa_size a"

definition fa_for_each :: "('a \<Rightarrow> 'a) \<Rightarrow> 'a fixed_array \<Rightarrow> 'a fixed_array" where
  "fa_for_each f a =
     fold (\<lambda>i b. b\<lparr>fa_elems := (fa_elems b)[i := f (fa_elems b ! i)]\<rparr>) [fa_begin a..<fa_end a] a"

lemma fold_each:
  "n \<le> length (fa_elems a) \<Longrightarrow>
   fold (\<lambda>i b. b\<lparr>fa_elems := (fa_elems b)[i := f (fa_elems b ! i)]\<rparr>) [0..<n] a =
   a\<lparr>fa_elems := map f (take n (fa_elems a)) @ drop n (fa_elems a)\<rparr>"
proof (induction n)
  case (Suc n)
  then have "drop n (fa_elems a) = fa_elems a ! n # drop (Suc n) (fa_elems a)"
    by (simp add: Cons_nth_drop_Suc)
  with Suc show ?case
    by (simp add: list_update_append nth_append take_Suc_conv_app_nth min_def)
qed simp

lemma fa_for_each_map: "fa_for_each f a = a\<lparr>fa_elems := map f (fa_elems a)\<rparr>"
  by (simp add: fa_for_each_def fa_begin_def fa_end_def fa_size_def fold_each)

section \<open>Construction and destruction\<close>

lemma fresh_array [simp]:
  "fa_size (fixed_array_default\<lparr>fa_t := True\<rparr>) = 0"
  "fa_elems (fixed_array_default\<lparr>fa_t := True\<rparr>) = []"
  "fa_t (fixed_array_default\<lparr>fa_t := True\<rparr>)"
  by (simp_all add: fixed_array_default_def fa_size_def)

text \<open>The elements \<open>k\<close> calls of the constructor give, one after the other.\<close>

fun make_all :: "('s \<Rightarrow> failure + ('a \<times> 's)) \<Rightarrow> nat \<Rightarrow> 's \<Rightarrow> failure + ('a list \<times> 's)" where
  "make_all mk 0 s = Inr ([], s)"
| "make_all mk (Suc k) s =
     sbind (mk s) (\<lambda>(x, s1). sbind (make_all mk k s1) (\<lambda>(xs, s2). Inr (x # xs, s2)))"

lemma destroy_loop_rev: "destroy_loop n = map Destroy (rev [0..<n])"
  by (induction n) simp_all

lemma fill_success:
  "fixed_array_fill mk N a s = (log, a', Inr s') \<Longrightarrow> fa_size a \<le> N \<Longrightarrow>
   \<exists>xs. make_all mk (N - fa_size a) s = Inr (xs, s') \<and> fa_elems a' = fa_elems a @ xs \<and>
     fa_t a' = fa_t a \<and> fa_size a' = N \<and> log = map Construct [fa_size a..<N]"
proof (induction mk N a s arbitrary: log a' rule: fixed_array_fill.induct)
  case (1 mk N a s)
  show ?case
  proof (cases "fa_size a < N")
    case True
    with "1.prems" obtain x s1 where m: "mk s = Inr (x, s1)"
      by (subst (asm) fixed_array_fill.simps) (auto split: sum.splits)
    let ?a = "a\<lparr>fa_elems := fa_elems a @ [x]\<rparr>"
    obtain log1 a1 r1 where f: "fixed_array_fill mk N ?a s1 = (log1, a1, r1)"
      by (rule prod_cases3)
    with "1.prems" True m have *: "log = Construct (fa_size a) # log1" "a1 = a'" "r1 = Inr s'"
      by (subst (asm) (1) fixed_array_fill.simps; simp)+
    have sz: "fa_size ?a = Suc (fa_size a)" by (simp add: fa_size_def)
    from "1.IH" [OF True m refl f [unfolded *]] True sz obtain xs where
      "make_all mk (N - Suc (fa_size a)) s1 = Inr (xs, s')" "fa_elems a' = fa_elems ?a @ xs"
      "fa_t a' = fa_t a" "fa_size a' = N" "log1 = map Construct [Suc (fa_size a)..<N]"
      by auto
    with m * True show ?thesis
      by (simp add: Suc_diff_Suc [symmetric] upt_conv_Cons)
  next
    case False
    with "1.prems" show ?thesis
      by (subst (asm) fixed_array_fill.simps) simp
  qed
qed

lemma fill_throw:
  "fixed_array_fill mk N a s = (log, a', Inl f) \<Longrightarrow>
   fa_t a' = fa_t a \<and> fa_size a \<le> fa_size a' \<and> fa_size a' < N \<and>
   log = map Construct [fa_size a..<fa_size a']"
proof (induction mk N a s arbitrary: log a' rule: fixed_array_fill.induct)
  case (1 mk N a s)
  from "1.prems" have lt: "fa_size a < N"
    by (subst (asm) fixed_array_fill.simps) (auto split: if_splits)
  show ?case
  proof (cases "mk s")
    case (Inl g)
    with "1.prems" lt show ?thesis
      by (subst (asm) fixed_array_fill.simps) simp
  next
    case (Inr r)
    obtain x s1 where r: "r = (x, s1)" by (cases r)
    let ?a = "a\<lparr>fa_elems := fa_elems a @ [x]\<rparr>"
    obtain log1 a1 r1 where f: "fixed_array_fill mk N ?a s1 = (log1, a1, r1)"
      by (rule prod_cases3)
    with "1.prems" lt Inr r have *: "log = Construct (fa_size a) # log1" "a1 = a'" "r1 = Inl f"
      by (subst (asm) (1) fixed_array_fill.simps; simp)+
    have sz: "fa_size ?a = Suc (fa_size a)" by (simp add: fa_size_def)
    from "1.IH" [OF lt Inr r [symmetric] f [unfolded *]] sz have "fa_t a' = fa_t a"
      "Suc (fa_size a) \<le> fa_size a'" "fa_size a' < N"
      "log1 = map Construct [Suc (fa_size a)..<fa_size a']" by auto
    with * show ?thesis by (simp add: upt_conv_Cons)
  qed
qed

text \<open>When there is memory and no element throws, an array is made.\<close>

lemma fill_total:
  assumes "\<And>s. \<exists>x s1. mk s = Inr (x, s1)"
  shows "\<exists>log a' s'. fixed_array_fill mk N a s = (log, a', Inr s')"
  using assms
proof (induction mk N a s rule: fixed_array_fill.induct)
  case (1 mk N a s)
  obtain x s1 where x: "mk s = Inr (x, s1)" using "1.prems" by blast
  show ?case
    using "1.IH" [OF _ x refl "1.prems"] x by (subst fixed_array_fill.simps) (auto split: prod.split)
qed

lemma fixed_array_new_total:
  assumes "\<And>s. \<exists>x s1. mk s = Inr (x, s1)" "can_allocate N"
  shows "\<exists>log a s'. fixed_array_new can_allocate mk N s = (log, Inr (a, s'))"
  using fill_total [of mk N "fixed_array_default\<lparr>fa_t := True\<rparr>" s, OF assms(1)] assms(2)
  by (auto simp: fixed_array_new_def)

text \<open>What a constructor that returns has done.\<close>

lemma fixed_array_new_Inr:
  assumes "fixed_array_new can_allocate mk N s = (log, Inr (a, s'))"
  shows "make_all mk N s = Inr (fa_elems a, s')" "fa_t a" "fa_size a = N"
    "log = Allocate N # map Construct [0..<N]"
proof -
  obtain log1 a1 r1 where f: "fixed_array_fill mk N (fixed_array_default\<lparr>fa_t := True\<rparr>) s =
      (log1, a1, r1)" by (rule prod_cases3)
  with assms have r: "r1 = Inr s'" "a1 = a" "log = Allocate N # log1"
    by (auto simp: fixed_array_new_def split: if_splits sum.splits)
  from fill_success [OF f [unfolded r(1,2)]] have
    "make_all mk N s = Inr (fa_elems a, s')" "fa_t a" "fa_size a = N" "log1 = map Construct [0..<N]"
    by auto
  with r(3) show "make_all mk N s = Inr (fa_elems a, s')" "fa_t a" "fa_size a = N"
    "log = Allocate N # map Construct [0..<N]" by simp_all
qed

text \<open>The same for a constructor that throws.\<close>

lemma fixed_array_new_Inl:
  assumes "fixed_array_new can_allocate mk N s = (log, Inl f)" and "can_allocate N"
  shows "\<exists>k < N. log =
    Allocate N # map Construct [0..<k] @ map Destroy (rev [0..<k]) @ [Deallocate k]"
proof -
  obtain log1 a1 r1 where f: "fixed_array_fill mk N (fixed_array_default\<lparr>fa_t := True\<rparr>) s =
      (log1, a1, r1)" by (rule prod_cases3)
  with assms have r: "r1 = Inl f" "log = Allocate N # log1 @ fixed_array_destroy a1"
    by (auto simp: fixed_array_new_def split: sum.splits)
  from fill_throw [OF f [unfolded r(1)]] r(2) show ?thesis
    by (intro exI [of _ "fa_size a1"]) (simp add: fixed_array_destroy_def destroy_loop_rev)
qed

text \<open>C37: The memory of a fixed array, from its constructor to the end of its life. When the
  constructor returns, the array holds the \<open>N\<close> elements in the order of their construction,
  and over its life every element is constructed once, destroyed once in the reverse
  order, and the storage is given back with the size it was allocated with. When the
  constructor of an element throws, the elements constructed before it are destroyed once
  each in reverse order, but the storage of \<open>N\<close> elements is given back with the number
  \<open>k < N\<close> of those elements, a size it was not allocated with. When the allocation throws,
  nothing is touched.\<close>

theorem fixed_array_memory:
  assumes "fixed_array_new can_allocate mk N s = (log, r)"
  shows "case r of
      Inr (a, s') \<Rightarrow> make_all mk N s = Inr (fa_elems a, s') \<and> fa_size a = N \<and>
        log @ fixed_array_destroy a =
          Allocate N # map Construct [0..<N] @ map Destroy (rev [0..<N]) @ [Deallocate N]
    | Inl f \<Rightarrow>
        if can_allocate N
        then \<exists>k < N. log = Allocate N # map Construct [0..<k] @ map Destroy (rev [0..<k]) @
          [Deallocate k]
        else log = []"
proof (cases r)
  case (Inr x)
  obtain a s' where x: "x = (a, s')" by (cases x)
  with fixed_array_new_Inr [OF assms [unfolded Inr x]] Inr show ?thesis
    by (simp add: fixed_array_destroy_def destroy_loop_rev)
next
  case (Inl f)
  note fixed_array_new_Inl [OF assms [unfolded Inl]]
  moreover from assms have "\<not> can_allocate N \<Longrightarrow> log = []"
    by (auto simp: fixed_array_new_def fixed_array_destroy_def fixed_array_default_def)
  ultimately show ?thesis unfolding Inl sum.case by (metis (full_types))
qed

theorem fixed_array_memory_witness:
  "(\<exists>k < 3. [Allocate 3, Construct 0, Destroy 0, Deallocate 1] =
    Allocate 3 # map Construct [0..<k] @ map Destroy (rev [0..<k]) @ [Deallocate k]) \<and>
   fa_size \<lparr>fa_t = True, fa_elems = [5, 6 :: nat]\<rparr> = 2"
proof
  have "fixed_array_new (\<lambda>_. True)
      (\<lambda>s. if s < 1 then Inr (s, Suc s) else Inl (Other_exception 1)) 3 (0 :: nat) =
      ([Allocate 3, Construct 0, Destroy 0, Deallocate 1], Inl (Other_exception 1))"
    by code_simp
  from fixed_array_memory [OF this] show "\<exists>k < 3. [Allocate 3, Construct 0, Destroy 0, Deallocate 1] =
    Allocate 3 # map Construct [0..<k] @ map Destroy (rev [0..<k]) @ [Deallocate k]" by simp
  have "fixed_array_new (\<lambda>_. True) (\<lambda>s. Inr (s, Suc s)) 2 (5 :: nat) =
      ([Allocate 2, Construct 0, Construct 1], Inr (\<lparr>fa_t = True, fa_elems = [5, 6]\<rparr>, 7))"
    by code_simp
  from fixed_array_memory [OF this] show "fa_size \<lparr>fa_t = True, fa_elems = [5, 6 :: nat]\<rparr> = 2"
    by simp
qed

end
