(* ===== verification/Composed_Op.thy ===== *)
theory Composed_Op
  imports Http_Prelude
begin

text \<open>
  The machinery that the four composed asynchronous operations of the library
  share. Each is a stackless \<open>asio::coroutine\<close> whose call operator runs from one
  suspension point to the next: it initiates one asynchronous operation and
  returns, or it calls \<open>self.complete\<close>. \<open>effect\<close> says which, \<open>drive\<close> is the
  executor that keeps calling the operator with the completions of what it
  initiated, and the locales state the contract that \<open>asio::async_compose\<close>
  relies on and the byte accounting all counting operations promise.
\<close>

section \<open>Coroutines and the executor\<close>

text \<open>
  The suspension points a \<open>BOOST_ASIO_CORO_REENTER\<close> block can resume at. Every
  operation of the library has at most one \<open>asio::post\<close> and one I/O initiation.
  \<open>Terminated\<close> is the coroutine that has run past the end of its block;
  re-entering it does nothing.
\<close>

datatype point = Entry | After_post | After_io | Terminated

datatype 'io effect =
    Posts error_code size_t
  | Starts 'io
  | Completes error_code size_t
  | Ends

type_synonym ('o, 's, 'io) resume =
  "'o \<Rightarrow> 's \<Rightarrow> error_code \<Rightarrow> size_t \<Rightarrow> failure + ('io effect \<times> 'o \<times> 's)"

text \<open>
  What the executor reports: a posted handler is run, or the initiated I/O has
  completed with \<open>c\<close>. The function \<open>recv\<close> gives the handler arguments of that
  completion and what the I/O did to memory meanwhile.
\<close>

datatype 'c event = Ready | Done 'c

datatype ('io, 'o, 's, 'c) outcome =
    Finished error_code size_t 's "'c event list"
  | Waiting "'io effect" 'o 's "'c event list"
  | Threw failure

fun drive ::
  "('o, 's, 'io) resume \<Rightarrow> ('io \<Rightarrow> 'c \<Rightarrow> 's \<Rightarrow> error_code \<times> size_t \<times> 's) \<Rightarrow>
   'c event list \<Rightarrow> 'io effect \<Rightarrow> 'o \<Rightarrow> 's \<Rightarrow> ('io, 'o, 's, 'c) outcome" where
  "drive R recv ev (Completes ec n) q s = Finished ec n s ev"
| "drive R recv (Ready # ev) (Posts ec n) q s =
     (case R q s ec n of
        Inl f \<Rightarrow> Threw f
      | Inr (eff', q', s') \<Rightarrow> drive R recv ev eff' q' s')"
| "drive R recv (Done c # ev) (Starts io) q s =
     (case recv io c s of (ec, n, s1) \<Rightarrow>
      (case R q s1 ec n of
         Inl f \<Rightarrow> Threw f
       | Inr (eff', q', s') \<Rightarrow> drive R recv ev eff' q' s'))"
| "drive R recv ev eff q s = Waiting eff q s ev"

text \<open>An operation is initiated by calling the fresh coroutine with the default
  arguments \<open>ec = {}\<close> and \<open>bytes_transferred = 0\<close>.\<close>

definition launch ::
  "('o, 's, 'io) resume \<Rightarrow> ('io \<Rightarrow> 'c \<Rightarrow> 's \<Rightarrow> error_code \<times> size_t \<times> 's) \<Rightarrow>
   'o \<Rightarrow> 's \<Rightarrow> 'c event list \<Rightarrow> ('io, 'o, 's, 'c) outcome" where
  "launch R recv q s ev =
     (case R q s Success 0 of
        Inl f \<Rightarrow> Threw f
      | Inr (eff, q', s') \<Rightarrow> drive R recv ev eff q' s')"

lemma drive_Nil [simp]:
  "drive R recv [] (Posts ec n) q s = Waiting (Posts ec n) q s []"
  "drive R recv [] (Starts io) q s = Waiting (Starts io) q s []"
  by simp_all

lemma drive_not_finished:
  "drive R recv ev Ends q s \<noteq> Finished ec n s' rest"
  "drive R recv [] (Posts e m) q s \<noteq> Finished ec n s' rest"
  "drive R recv [] (Starts io) q s \<noteq> Finished ec n s' rest"
  by (cases ev; simp)+

lemma drive_Posts_Finished:
  assumes "drive R recv ev (Posts e m) q s = Finished ec n s' rest"
  obtains ev1 eff q1 s1 where "ev = Ready # ev1" "R q s e m = Inr (eff, q1, s1)"
    "drive R recv ev1 eff q1 s1 = Finished ec n s' rest"
proof -
  from assms obtain ev1 where ev: "ev = Ready # ev1"
    by (cases ev; cases "hd ev"; simp)
  with assms that show ?thesis
    by (cases "R q s e m") auto
qed

lemma drive_Starts_Finished:
  assumes "drive R recv ev (Starts io) q s = Finished ec n s' rest"
  obtains c ev1 ec1 n1 s1 eff q2 s2 where "ev = Done c # ev1"
    "recv io c s = (ec1, n1, s1)" "R q s1 ec1 n1 = Inr (eff, q2, s2)"
    "drive R recv ev1 eff q2 s2 = Finished ec n s' rest"
proof -
  from assms obtain c ev1 where ev: "ev = Done c # ev1"
    by (cases ev; cases "hd ev"; simp)
  obtain ec1 n1 s1 where r: "recv io c s = (ec1, n1, s1)" by (rule prod_cases3)
  from assms ev r that show ?thesis
    by (cases "R q s1 ec1 n1") auto
qed

text \<open>A run stops with events left only when the next one is not for it.\<close>

lemma drive_stuck:
  "drive R recv ev eff q s = Waiting eff' q' s' (e # rest) \<Longrightarrow>
   (case eff' of Starts io \<Rightarrow> e = Ready | Posts ec n \<Rightarrow> e \<noteq> Ready
    | Completes ec n \<Rightarrow> False | Ends \<Rightarrow> True)"
  by (induction R recv ev eff q s rule: drive.induct)
    (auto split: sum.splits prod.splits)

lemma drive_Waiting_effect:
  "drive R recv ev eff q s = Waiting eff' q' s' rest \<Longrightarrow> eff' \<noteq> Completes ec n"
  by (induction R recv ev eff q s rule: drive.induct)
    (auto split: sum.splits prod.splits)

lemma launch_Waiting:
  assumes "launch R recv q s ev = Waiting eff' q' s' rest"
  shows "eff' \<noteq> Completes ec n"
    and "rest = e # es \<Longrightarrow> (case eff' of Starts io \<Rightarrow> e = Ready | Posts ec n \<Rightarrow> e \<noteq> Ready
      | Completes ec n \<Rightarrow> False | Ends \<Rightarrow> True)"
  using assms
  by (auto simp: launch_def split: sum.splits dest: drive_Waiting_effect drive_stuck)

lemma drive_Finished_suffix:
  "drive R recv ev eff q s = Finished ec n s' rest \<Longrightarrow> \<exists>used. ev = used @ rest"
proof (induction R recv ev eff q s rule: drive.induct)
  case (2 R recv ev ec n q s)
  then show ?case by (fastforce split: sum.splits)
next
  case (3 R recv c ev io q s)
  then show ?case by (fastforce split: sum.splits prod.splits)
qed auto

lemma drive_Finished_shorter:
  assumes d: "drive R recv ev eff q s = Finished ec n s' rest"
    and "\<And>e m. eff \<noteq> Completes e m"
  shows "length rest < length ev"
proof (cases eff)
  case (Posts e m)
  from d [unfolded Posts] show ?thesis
    by (elim drive_Posts_Finished) (auto dest!: drive_Finished_suffix)
next
  case (Starts io)
  from d [unfolded Starts] show ?thesis
    by (elim drive_Starts_Finished) (auto dest!: drive_Finished_suffix)
qed (use assms drive_not_finished in auto)

lemma launch_uses_all:
  assumes "launch R recv q s (map Done cs) = Waiting (Starts io) q' s' rest"
    and "map Done cs = used @ rest"
  shows "rest = [] \<and> length used = length cs"
proof (cases rest)
  case Nil
  with assms(2) show ?thesis by (auto dest: arg_cong [where f = length])
next
  case (Cons e es)
  with launch_Waiting(2) [OF assms(1)] have "Ready \<in> set (map Done cs)"
    unfolding assms(2) by simp
  then show ?thesis by auto
qed

section \<open>Scripts the stream can produce, and a rule for \<open>drive\<close>\<close>

text \<open>
  \<open>complies\<close> follows the run of \<open>drive\<close> and asks of every I/O completion what the
  stream promises about it: \<open>ok io c\<close> for the completion \<open>c\<close> of the request \<open>io\<close>.
\<close>

fun complies ::
  "('o, 's, 'io) resume \<Rightarrow> ('io \<Rightarrow> 'c \<Rightarrow> 's \<Rightarrow> error_code \<times> size_t \<times> 's) \<Rightarrow>
   ('io \<Rightarrow> 'c \<Rightarrow> bool) \<Rightarrow> 'c event list \<Rightarrow> 'io effect \<Rightarrow> 'o \<Rightarrow> 's \<Rightarrow> bool" where
  "complies R recv ok (Ready # ev) (Posts ec n) q s =
     (case R q s ec n of
        Inl f \<Rightarrow> True
      | Inr (eff', q', s') \<Rightarrow> complies R recv ok ev eff' q' s')"
| "complies R recv ok (Done c # ev) (Starts io) q s =
     (ok io c \<and>
      (case recv io c s of (ec, n, s1) \<Rightarrow>
       (case R q s1 ec n of
          Inl f \<Rightarrow> True
        | Inr (eff', q', s') \<Rightarrow> complies R recv ok ev eff' q' s')))"
| "complies R recv ok ev eff q s = True"

definition launch_complies ::
  "('o, 's, 'io) resume \<Rightarrow> ('io \<Rightarrow> 'c \<Rightarrow> 's \<Rightarrow> error_code \<times> size_t \<times> 's) \<Rightarrow>
   ('io \<Rightarrow> 'c \<Rightarrow> bool) \<Rightarrow> 'o \<Rightarrow> 's \<Rightarrow> 'c event list \<Rightarrow> bool" where
  "launch_complies R recv ok q s ev =
     (case R q s Success 0 of
        Inl f \<Rightarrow> True
      | Inr (eff, q', s') \<Rightarrow> complies R recv ok ev eff q' s')"

lemma complies_triv:
  assumes "\<And>io c. Done c \<in> set ev \<Longrightarrow> ok io c"
  shows "complies R recv ok ev eff q s"
  using assms
  by (induction R recv ok ev eff q s rule: complies.induct)
    (auto split: sum.splits prod.splits)

lemma launch_complies_triv:
  "(\<And>io c. Done c \<in> set ev \<Longrightarrow> ok io c) \<Longrightarrow> launch_complies R recv ok q s ev"
  by (auto simp: launch_complies_def complies_triv split: sum.splits)

lemma launch_complies_one:
  assumes "\<And>io q' s'. R q s Success 0 = Inr (Starts io, q', s') \<Longrightarrow> ok io c"
  shows "launch_complies R recv ok q s [Done c]"
proof -
  have "complies R recv ok [Done c] eff q' s'" if "R q s Success 0 = Inr (eff, q', s')" for eff q' s'
    using assms that complies_triv [where ev = "[]"]
    by (cases eff) (auto split: sum.split)
  then show ?thesis by (auto simp: launch_complies_def split: sum.split)
qed

lemma launch_complies_Nil [simp]: "launch_complies R recv ok q s []"
  by (rule launch_complies_triv) simp

text \<open>
  The rule for runs. \<open>I\<close> relates the events consumed so far, the effect the
  operation waits for, the operation and the state; when every call of the operator
  keeps it, it holds when the operation completes and whenever it waits. \<open>T\<close>
  holds of every failure thrown.
\<close>

fun outcome_sat ::
  "('c event list \<Rightarrow> 'io effect \<Rightarrow> 'o \<Rightarrow> 's \<Rightarrow> bool) \<Rightarrow> (failure \<Rightarrow> bool) \<Rightarrow>
   'c event list \<Rightarrow> ('io, 'o, 's, 'c) outcome \<Rightarrow> bool" where
  "outcome_sat I T ev (Finished ec n s rest) \<longleftrightarrow>
     (\<exists>used q. ev = used @ rest \<and> I used (Completes ec n) q s)"
| "outcome_sat I T ev (Waiting eff q s rest) \<longleftrightarrow> (\<exists>used. ev = used @ rest \<and> I used eff q s)"
| "outcome_sat I T ev (Threw f) \<longleftrightarrow> T f"

definition result_sat ::
  "('io effect \<Rightarrow> 'o \<Rightarrow> 's \<Rightarrow> bool) \<Rightarrow> (failure \<Rightarrow> bool) \<Rightarrow>
   failure + ('io effect \<times> 'o \<times> 's) \<Rightarrow> bool" where
  "result_sat I T r = (case r of Inl f \<Rightarrow> T f | Inr (eff, q, s) \<Rightarrow> I eff q s)"

lemma result_sat_simps [simp]:
  "result_sat I T (Inl f) = T f"
  "result_sat I T (Inr (eff, q, s)) = I eff q s"
  by (simp_all add: result_sat_def)

lemma result_satD: "result_sat I T (Inr (eff, q, s)) \<Longrightarrow> I eff q s"
  by simp

lemma drive_rule:
  assumes posts: "\<And>h e m q s. I h (Posts e m) q s \<Longrightarrow>
      result_sat (I (h @ [Ready])) T (R q s e m)"
    and starts: "\<And>h io c q s ec n s1. I h (Starts io) q s \<Longrightarrow> ok io c \<Longrightarrow>
      recv io c s = (ec, n, s1) \<Longrightarrow> result_sat (I (h @ [Done c])) T (R q s1 ec n)"
  shows "I h eff q s \<Longrightarrow> complies R recv ok ev eff q s \<Longrightarrow>
    outcome_sat I T (h @ ev) (drive R recv ev eff q s)"
proof (induction R\<equiv>R recv\<equiv>recv ev eff q s arbitrary: h rule: drive.induct)
  case (2 ev ec n q s)
  show ?case
  proof (cases "R q s ec n")
    case (Inr r)
    moreover obtain eff' q' s' where "r = (eff', q', s')" by (rule prod_cases3)
    ultimately show ?thesis
      using posts [OF 2(2)] 2(1) [OF Inr] 2(3) by fastforce
  qed (use posts [OF 2(2)] in auto)
next
  case (3 c ev io q s)
  obtain ec n s1 where r: "recv io c s = (ec, n, s1)" by (rule prod_cases3)
  from 3(3) have "ok io c" by simp
  note st = starts [OF 3(2) this r]
  show ?case
  proof (cases "R q s1 ec n")
    case (Inr x)
    moreover obtain eff' q' s' where "x = (eff', q', s')" by (rule prod_cases3)
    ultimately show ?thesis
      using st 3(1) [OF r [symmetric]] 3(3) r by fastforce
  qed (use st r in auto)
qed auto

lemma launch_rule:
  assumes init: "result_sat (I []) T (R q s Success 0)"
    and posts: "\<And>h e m q s. I h (Posts e m) q s \<Longrightarrow>
      result_sat (I (h @ [Ready])) T (R q s e m)"
    and starts: "\<And>h io c q s ec n s1. I h (Starts io) q s \<Longrightarrow> ok io c \<Longrightarrow>
      recv io c s = (ec, n, s1) \<Longrightarrow> result_sat (I (h @ [Done c])) T (R q s1 ec n)"
    and ok: "launch_complies R recv ok q s ev"
  shows "outcome_sat I T ev (launch R recv q s ev)"
proof (cases "R q s Success 0")
  case (Inr r)
  moreover obtain eff q' s' where "r = (eff, q', s')" by (rule prod_cases3)
  ultimately show ?thesis
    using init ok drive_rule [where h = "[]" and ok = ok, OF posts starts]
    by (auto simp: launch_def launch_complies_def)
qed (use init in \<open>auto simp: launch_def\<close>)

text \<open>What every call of the operator and every completion keeps of the state holds when
  the operation completes.\<close>

lemma launch_keeps:
  assumes call: "\<And>q s e m. K s \<Longrightarrow> result_sat (\<lambda>_ _. K) (\<lambda>_. True) (R q s e m)"
    and recv: "\<And>io c s e m s1. K s \<Longrightarrow> recv io c s = (e, m, s1) \<Longrightarrow> K s1"
    and "K s" and fin: "launch R recv q s ev = Finished ec n s' rest"
  shows "K s'"
proof -
  have "outcome_sat (\<lambda>_ _ _. K) (\<lambda>_. True) ev (launch R recv q s ev)"
    by (rule launch_rule [where ok = "\<lambda>_ _. True"])
      (auto intro: call recv \<open>K s\<close> launch_complies_triv)
  with fin show ?thesis by simp
qed

section \<open>The contract of a composed operation\<close>

text \<open>
  \<open>fresh\<close> is the freshly constructed operation and \<open>closed\<close> the one that has
  called \<open>self.complete\<close>. The laws: the initiating call does not complete
  inline, completing closes the coroutine, and a closed coroutine does nothing.
\<close>

locale composed_op =
  fixes R :: "('o, 's, 'io) resume"
    and fresh :: 'o
    and closed :: "'o \<Rightarrow> bool"
  assumes not_inline: "R fresh s Success 0 \<noteq> Inr (Completes ec n, q, s')"
    and completes_closed: "R q s ec n = Inr (Completes ec' m, q', s') \<Longrightarrow> closed q'"
    and closed_silent: "closed q \<Longrightarrow> R q s ec n = Inr (Ends, q, s)"
begin

lemma launch_consumes:
  "launch R recv fresh s ev = Finished ec n s' rest \<Longrightarrow> length rest < length ev"
  by (auto simp: launch_def split: sum.splits dest!: drive_Finished_shorter
      intro: not_inline [THEN notE])

lemma launch_Nil: "launch R recv fresh s [] \<noteq> Finished ec n s' rest"
  using launch_consumes [of recv s "[]"] by auto

lemma completes_once:
  "R q s ec n = Inr (Completes ec' m, q', s') \<Longrightarrow>
   R q' s2 ec2 n2 = Inr (Ends, q', s2)"
  by (blast dest: completes_closed closed_silent)

end

definition moved_by :: "('c \<Rightarrow> size_t) \<Rightarrow> 'c event list \<Rightarrow> size_t" where
  "moved_by moved ev =
     sum_list (map (\<lambda>e. case e of Ready \<Rightarrow> 0 | Done c \<Rightarrow> moved c) ev)"

lemma moved_by_simps [simp]:
  "moved_by moved [] = 0"
  "moved_by moved (ev @ ev') = moved_by moved ev + moved_by moved ev'"
  "moved_by moved (Ready # ev) = moved_by moved ev"
  "moved_by moved (Done c # ev) = moved c + moved_by moved ev"
  by (simp_all add: moved_by_def)

text \<open>
  A counting operation reports, with its completion, the bytes of all the I/O
  it has awaited: \<open>count\<close> is the member that accumulates them and \<open>waiting\<close>
  holds at the suspension point of the I/O. \<open>moved c\<close> is the number of bytes
  that a completion reports.
\<close>

locale counting_op = composed_op R fresh closed
  for R :: "('o, 's, 'io) resume" and fresh :: 'o and closed :: "'o \<Rightarrow> bool" +
  fixes count :: "'o \<Rightarrow> size_t"
    and waiting :: "'o \<Rightarrow> bool"
    and recv :: "'io \<Rightarrow> 'c \<Rightarrow> 's \<Rightarrow> error_code \<times> size_t \<times> 's"
    and moved :: "'c \<Rightarrow> size_t"
  assumes fresh_counts: "\<not> waiting fresh" "count fresh = 0"
    and recv_moved: "recv io c s = (ec, n, s') \<Longrightarrow> n = moved c"
    and starts_counts: "R q s ec n = Inr (Starts io, q', s') \<Longrightarrow>
      waiting q' \<and> count q' = (if waiting q then count q + n else count q)"
    and completes_counts: "R q s ec n = Inr (Completes ec' m, q', s') \<Longrightarrow>
      waiting q \<Longrightarrow> m = count q + n"
    and completes_unread: "R q s ec n = Inr (Completes ec' m, q', s') \<Longrightarrow>
      \<not> waiting q \<Longrightarrow> count q = 0 \<Longrightarrow> n = 0 \<Longrightarrow> m = 0"
    and posts_counts: "R q s ec n = Inr (Posts ec' m, q', s') \<Longrightarrow>
      \<not> waiting q \<and> \<not> waiting q' \<and> count q' = count q \<and> (n = 0 \<longrightarrow> m = 0)"
begin

definition accounted :: "'c event list \<Rightarrow> 'io effect \<Rightarrow> 'o \<Rightarrow> 's \<Rightarrow> bool" where
  "accounted h eff q s =
     (case eff of
        Starts io \<Rightarrow> waiting q \<and> count q = moved_by moved h
      | Posts e m \<Rightarrow> \<not> waiting q \<and> count q = 0 \<and> m = 0 \<and> moved_by moved h = 0
      | Completes e m \<Rightarrow> m = moved_by moved h
      | Ends \<Rightarrow> True)"

lemma result_accounted:
  assumes "waiting q \<Longrightarrow> count q + n = moved_by moved h"
    and "\<not> waiting q \<Longrightarrow> count q = 0 \<and> n = 0 \<and> moved_by moved h = 0"
  shows "result_sat (accounted h) (\<lambda>_. True) (R q s ec n)"
proof (cases "R q s ec n")
  case (Inr r)
  obtain eff q' s' where r: "r = (eff, q', s')" by (rule prod_cases3)
  note R = Inr [unfolded r]
  show ?thesis
  proof (cases eff)
    case (Posts e m)
    with R assms(2) posts_counts [of q s ec n e m q' s'] show ?thesis
      by (simp add: accounted_def)
  next
    case (Starts io)
    with R assms starts_counts [of q s ec n io q' s'] show ?thesis
      by (simp add: accounted_def split: if_splits)
  next
    case (Completes e m)
    with R assms completes_counts [of q s ec n e m q' s']
      completes_unread [of q s ec n e m q' s'] show ?thesis
      by (cases "waiting q") (simp_all add: accounted_def)
  qed (simp add: R accounted_def)
qed simp

theorem launch_counts:
  assumes "launch R recv fresh s ev = Finished ec m s' rest"
  shows "\<exists>used. ev = used @ rest \<and> m = moved_by moved used"
proof -
  have "outcome_sat accounted (\<lambda>_. True) ev (launch R recv fresh s ev)"
  proof (rule launch_rule [where ok = "\<lambda>_ _. True"])
    show "result_sat (accounted []) (\<lambda>_. True) (R fresh s Success 0)"
      by (rule result_accounted) (simp_all add: fresh_counts)
  next
    fix h e m q s
    assume "accounted h (Posts e m) q s"
    then show "result_sat (accounted (h @ [Ready])) (\<lambda>_. True) (R q s e m)"
      by (intro result_accounted) (auto simp: accounted_def)
  next
    fix h io c q s ec n s1
    assume "accounted h (Starts io) q s" "recv io c s = (ec, n, s1)"
    then show "result_sat (accounted (h @ [Done c])) (\<lambda>_. True) (R q s1 ec n)"
      by (intro result_accounted) (auto simp: accounted_def dest: recv_moved)
  qed (simp add: launch_complies_triv)
  with assms show ?thesis by (auto simp: accounted_def)
qed

end

end
