(* ===== verification/Read_Ops.thy ===== *)
theory Read_Ops
  imports Composed_Op
begin

text \<open>
  \<open>include/boost/http_io/impl/read.hpp\<close>: the coroutines \<open>read_header_op\<close> and
  \<open>read_body_op\<close> and the initiating functions \<open>async_read_header\<close>,
  \<open>async_read_some\<close> and \<open>async_read\<close>. The parser (\<open>http_proto::parser\<close>, not
  part of the repository) is the parameter \<open>P\<close>; the stream appears through the
  completions of its \<open>async_read_some\<close>.
\<close>

section \<open>The parser and the stream\<close>

text \<open>
  The operations of \<open>http_proto::parser\<close> that the read operations call. \<open>prepare\<close>
  gives the size of the buffers it hands out; \<open>fill\<close> is not a function of the
  library but the effect of the stream's writing into those buffers.
\<close>

record 'p parser_ops =
  got_header :: "'p \<Rightarrow> bool"
  is_complete :: "'p \<Rightarrow> bool"
  pr_prepare :: "'p \<Rightarrow> failure + (size_t \<times> 'p)"
  pr_fill :: "byte list \<Rightarrow> 'p \<Rightarrow> 'p"
  pr_commit :: "size_t \<Rightarrow> 'p \<Rightarrow> failure + 'p"
  pr_commit_eof :: "'p \<Rightarrow> failure + 'p"
  pr_parse :: "'p \<Rightarrow> failure + (error_code \<times> 'p)"

text \<open>A completion of the stream's \<open>async_read_some\<close>: its error code and the bytes
  it has put into the buffers. The handler gets the code and their number.\<close>

type_synonym read_done = "error_code \<times> byte list"

definition read_recv ::
  "'p parser_ops \<Rightarrow> size_t \<Rightarrow> read_done \<Rightarrow> 'p \<Rightarrow> error_code \<times> size_t \<times> 'p" where
  "read_recv P cap c p = (fst c, bytes_size (snd c), pr_fill P (snd c) p)"

abbreviation read_moved :: "read_done \<Rightarrow> size_t" where
  "read_moved c \<equiv> bytes_size (snd c)"

text \<open>
  The statements both operations run when the stream's read has completed:
  \<open>commit\<close>, and at end of file the assertion, \<open>commit_eof\<close> and \<open>ec = {}\<close>. The code
  left over is the one that \<open>ec.failed()\<close> is asked of.
\<close>

definition read_commit ::
  "'p parser_ops \<Rightarrow> 'p \<Rightarrow> error_code \<Rightarrow> size_t \<Rightarrow> failure + (error_code \<times> 'p)" where
  "read_commit P p ec n =
     sbind (pr_commit P n p) (\<lambda>p1.
       if ec = Eof
       then boost_assert (n = 0)
              (sbind (pr_commit_eof P p1) (\<lambda>p2. Inr (Success, p2)))
       else Inr (ec, p1))"

section \<open>\<open>read_header_op\<close>\<close>

record read_header_op =
  rh_at :: point
  rh_total_bytes :: size_t

definition read_header_op_new :: read_header_op where
  "read_header_op_new = \<lparr>rh_at = Entry, rh_total_bytes = 0\<rparr>"

text \<open>The yield that initiates \<open>stream_.async_read_some(pr_.prepare(), self)\<close>.\<close>

definition read_header_read ::
  "'p parser_ops \<Rightarrow> read_header_op \<Rightarrow> 'p \<Rightarrow>
   failure + (size_t effect \<times> read_header_op \<times> 'p)" where
  "read_header_read P op p =
     sbind (pr_prepare P p) (\<lambda>(cap, p1).
       Inr (Starts cap, op\<lparr>rh_at := After_io\<rparr>, p1))"

definition read_header_upcall ::
  "read_header_op \<Rightarrow> 'p \<Rightarrow> error_code \<Rightarrow>
   failure + (size_t effect \<times> read_header_op \<times> 'p)" where
  "read_header_upcall op p ec =
     Inr (Completes ec (rh_total_bytes op), op\<lparr>rh_at := Terminated\<rparr>, p)"

definition read_header_call ::
  "'p parser_ops \<Rightarrow> (read_header_op, 'p, size_t) resume" where
  "read_header_call P op p ec n =
     (case rh_at op of
        Entry \<Rightarrow>
          if got_header P p
          then Inr (Posts ec 0, op\<lparr>rh_at := After_post\<rparr>, p)
          else read_header_read P op p
      | After_post \<Rightarrow> read_header_upcall op p ec
      | After_io \<Rightarrow>
          sbind (read_commit P p ec n) (\<lambda>(ec1, p1).
            let op1 = op\<lparr>rh_total_bytes := rh_total_bytes op + n\<rparr> in
            if failed ec1 then read_header_upcall op1 p1 ec1
            else sbind (pr_parse P p1) (\<lambda>(ec2, p2).
              if ec2 \<noteq> Need_more_input then read_header_upcall op1 p2 ec2
              else if got_header P p2 then read_header_upcall op1 p2 Success
              else read_header_read P op1 p2))
      | Terminated \<Rightarrow> Inr (Ends, op, p))"

definition async_read_header ::
  "'p parser_ops \<Rightarrow> 'p \<Rightarrow> read_done event list \<Rightarrow>
   (size_t, read_header_op, 'p, read_done) outcome" where
  "async_read_header P p ev =
     launch (read_header_call P) (read_recv P) read_header_op_new p ev"

section \<open>\<open>read_body_op\<close>\<close>

record read_body_op =
  rb_at :: point
  rb_total_bytes :: size_t
  rb_some :: bool

definition read_body_op_new :: "bool \<Rightarrow> read_body_op" where
  "read_body_op_new some = \<lparr>rb_at = Entry, rb_total_bytes = 0, rb_some = some\<rparr>"

definition read_body_read ::
  "'p parser_ops \<Rightarrow> read_body_op \<Rightarrow> 'p \<Rightarrow>
   failure + (size_t effect \<times> read_body_op \<times> 'p)" where
  "read_body_read P op p =
     sbind (pr_prepare P p) (\<lambda>(cap, p1).
       Inr (Starts cap, op\<lparr>rb_at := After_io\<rparr>, p1))"

definition read_body_upcall ::
  "read_body_op \<Rightarrow> 'p \<Rightarrow> error_code \<Rightarrow>
   failure + (size_t effect \<times> read_body_op \<times> 'p)" where
  "read_body_upcall op p ec =
     Inr (Completes ec (rb_total_bytes op), op\<lparr>rb_at := Terminated\<rparr>, p)"

definition read_body_call ::
  "'p parser_ops \<Rightarrow> (read_body_op, 'p, size_t) resume" where
  "read_body_call P op p ec n =
     (case rb_at op of
        Entry \<Rightarrow>
          if is_complete P p
          then Inr (Posts ec 0, op\<lparr>rb_at := After_post\<rparr>, p)
          else read_body_read P op p
      | After_post \<Rightarrow>
          sbind (pr_parse P p) (\<lambda>(ec1, p1). read_body_upcall op p1 ec1)
      | After_io \<Rightarrow>
          sbind (read_commit P p ec n) (\<lambda>(ec1, p1).
            let op1 = op\<lparr>rb_total_bytes := rb_total_bytes op + n\<rparr> in
            if failed ec1 then read_body_upcall op1 p1 ec1
            else sbind (pr_parse P p1) (\<lambda>(ec2, p2).
              if \<not> failed ec2
              then boost_assert (is_complete P p2) (read_body_upcall op1 p2 ec2)
              else if ec2 \<noteq> Need_more_input then read_body_upcall op1 p2 ec2
              else if rb_some op then read_body_upcall op1 p2 Success
              else read_body_read P op1 p2))
      | Terminated \<Rightarrow> Inr (Ends, op, p))"

definition read_body ::
  "'p parser_ops \<Rightarrow> bool \<Rightarrow> 'p \<Rightarrow> read_done event list \<Rightarrow>
   (size_t, read_body_op, 'p, read_done) outcome" where
  "read_body P some p ev =
     launch (read_body_call P) (read_recv P) (read_body_op_new some) p ev"

text \<open>\<open>detail::throw_logic_error\<close>.\<close>

definition throw_logic_error :: "failure + 'a" where
  "throw_logic_error = Inl (Logic_error ''logic error'')"

definition async_read_some ::
  "'p parser_ops \<Rightarrow> 'p \<Rightarrow> read_done event list \<Rightarrow>
   failure + (size_t, read_body_op, 'p, read_done) outcome" where
  "async_read_some P p ev =
     (if \<not> got_header P p then throw_logic_error else Inr (read_body P True p ev))"

definition async_read ::
  "'p parser_ops \<Rightarrow> 'p \<Rightarrow> read_done event list \<Rightarrow>
   failure + (size_t, read_body_op, 'p, read_done) outcome" where
  "async_read P p ev =
     (if \<not> got_header P p then throw_logic_error else Inr (read_body P False p ev))"

section \<open>Both are counting operations\<close>

lemmas read_header_defs [call_defs] =
  read_header_call_def read_header_read_def read_header_upcall_def

lemmas read_body_defs [call_defs] =
  read_body_call_def read_body_read_def read_body_upcall_def

interpretation rh: counting_op "read_header_call P" read_header_op_new
  "\<lambda>op. rh_at op = Terminated" rh_total_bytes "\<lambda>op. rh_at op = After_io"
  "read_recv P" read_moved for P :: "'p parser_ops"
  by unfold_locales
    (auto simp: read_header_defs read_header_op_new_def read_recv_def fail_simps Let_def
      split: point.splits if_splits prod.splits)

interpretation rb: counting_op "read_body_call P" "read_body_op_new some"
  "\<lambda>op. rb_at op = Terminated" rb_total_bytes "\<lambda>op. rb_at op = After_io"
  "read_recv P" read_moved for P :: "'p parser_ops" and some :: bool
  by unfold_locales
    (auto simp: read_body_defs read_body_op_new_def read_recv_def fail_simps Let_def
      split: point.splits if_splits prod.splits)

end
