(* ===== verification/Read_Laws.thy ===== *)
theory Read_Laws
  imports Read_Ops
begin

text \<open>
  What the read operations promise. The first section states, as predicates over
  the parameters, what the code relies on: the documented behaviour of the parser
  (\<open>parser_contract\<close>) and of a stream's \<open>async_read_some\<close> (\<open>read_stream_ok\<close>), with
  a small concrete parser that satisfies the contract. The other sections are the
  lemmas and properties of \<open>async_read_header\<close>, \<open>async_read_some\<close> and
  \<open>async_read\<close> for every script of events the stream can produce.
\<close>

section \<open>What the code relies on\<close>

text \<open>
  A view of the parser: when it can hand out buffers (\<open>idle\<close>), when it has handed
  out a buffer of a given size (\<open>armed\<close>), when \<open>parse\<close> may be called (\<open>loaded\<close>),
  whether \<open>commit_eof\<close> has been called (\<open>eof_seen\<close>), the bytes committed to it
  since it was started (\<open>input\<close>), and the number of bytes at which it stops asking
  for more, the configured header and body limits (\<open>limit\<close>).
\<close>

record 'p parser_view =
  idle :: "'p \<Rightarrow> bool"
  armed :: "'p \<Rightarrow> size_t \<Rightarrow> bool"
  loaded :: "'p \<Rightarrow> bool"
  eof_seen :: "'p \<Rightarrow> bool"
  input :: "'p \<Rightarrow> byte list"
  limit :: nat

definition prepare_contract :: "'p parser_ops \<Rightarrow> 'p parser_view \<Rightarrow> bool" where
  "prepare_contract P V \<longleftrightarrow>
     (\<forall>p. idle V p \<longrightarrow> (\<exists>cap p1. pr_prepare P p = Inr (cap, p1) \<and>
        cap \<noteq> 0 \<and> armed V p1 cap \<and> input V p1 = input V p))"

definition commit_contract :: "'p parser_ops \<Rightarrow> 'p parser_view \<Rightarrow> bool" where
  "commit_contract P V \<longleftrightarrow>
     (\<forall>p cap bs. armed V p cap \<longrightarrow> length bs \<le> unat cap \<longrightarrow>
        (\<exists>p1. pr_commit P (bytes_size bs) (pr_fill P bs p) = Inr p1 \<and>
          loaded V p1 \<and> input V p1 = input V p @ bs)) \<and>
     (\<forall>p. loaded V p \<longrightarrow>
        (\<exists>p1. pr_commit_eof P p = Inr p1 \<and>
          loaded V p1 \<and> eof_seen V p1 \<and> input V p1 = input V p))"

text \<open>
  \<open>parse\<close> reports success only when the message is complete, never reports the
  stream's own \<open>asio::error::eof\<close>, and asks for more input only while the message
  is incomplete, the end of the stream has not been reported to it and the limits
  allow more.
\<close>

definition parse_contract :: "'p parser_ops \<Rightarrow> 'p parser_view \<Rightarrow> bool" where
  "parse_contract P V \<longleftrightarrow>
     (\<forall>p. loaded V p \<longrightarrow> (\<exists>ec p1. pr_parse P p = Inr (ec, p1) \<and>
        input V p1 = input V p \<and> ec \<noteq> Eof \<and>
        (ec = Success \<longrightarrow> is_complete P p1) \<and>
        (ec = Need_more_input \<longrightarrow> idle V p1 \<and> \<not> is_complete P p1 \<and>
           \<not> eof_seen V p \<and> \<not> is_complete P p \<and> length (input V p) < limit V))) \<and>
     (\<forall>p. is_complete P p \<longrightarrow> got_header P p \<and> loaded V p)"

definition parser_contract :: "'p parser_ops \<Rightarrow> 'p parser_view \<Rightarrow> bool" where
  "parser_contract P V \<longleftrightarrow>
     prepare_contract P V \<and> commit_contract P V \<and> parse_contract P V"

lemma prepareE:
  assumes "parser_contract P V" "idle V p"
  obtains cap p1 where "pr_prepare P p = Inr (cap, p1)" "cap \<noteq> 0" "armed V p1 cap"
    "input V p1 = input V p"
  using assms unfolding parser_contract_def prepare_contract_def by blast

lemma commitE:
  assumes "parser_contract P V" "armed V p cap" "length bs \<le> unat cap"
  obtains p1 where "pr_commit P (bytes_size bs) (pr_fill P bs p) = Inr p1"
    "loaded V p1" "input V p1 = input V p @ bs"
  using assms unfolding parser_contract_def commit_contract_def by blast

lemma commit_eofE:
  assumes "parser_contract P V" "loaded V p"
  obtains p1 where "pr_commit_eof P p = Inr p1" "loaded V p1" "eof_seen V p1"
    "input V p1 = input V p"
  using assms unfolding parser_contract_def commit_contract_def by blast

lemma parseE:
  assumes "parser_contract P V" "loaded V p"
  obtains ec p1 where "pr_parse P p = Inr (ec, p1)" "input V p1 = input V p" "ec \<noteq> Eof"
    "ec = Success \<Longrightarrow> is_complete P p1"
    "ec = Need_more_input \<Longrightarrow> idle V p1 \<and> \<not> is_complete P p1 \<and> \<not> eof_seen V p \<and>
       \<not> is_complete P p \<and> length (input V p) < limit V"
  using assms unfolding parser_contract_def parse_contract_def by blast

lemma completeD:
  "parser_contract P V \<Longrightarrow> is_complete P p \<Longrightarrow> got_header P p \<and> loaded V p"
  unfolding parser_contract_def parse_contract_def by blast

text \<open>
  A stream's \<open>async_read_some\<close> puts at most as many bytes as the buffers hold,
  reports success only with at least one byte (for a buffer that is not empty),
  end of file only with none, and the parser's \<open>need_more_input\<close> never.
\<close>

definition read_stream_ok :: "size_t \<Rightarrow> read_done \<Rightarrow> bool" where
  "read_stream_ok cap c \<longleftrightarrow>
     length (snd c) \<le> unat cap \<and>
     (fst c = Success \<and> cap \<noteq> 0 \<longrightarrow> snd c \<noteq> []) \<and>
     (fst c = Eof \<longrightarrow> snd c = []) \<and> fst c \<noteq> Need_more_input"

text \<open>The bytes a script delivers.\<close>

fun delivered :: "read_done event list \<Rightarrow> byte list" where
  "delivered [] = []"
| "delivered (Ready # ev) = delivered ev"
| "delivered (Done c # ev) = snd c @ delivered ev"

lemma delivered_append [simp]: "delivered (ev @ ev') = delivered ev @ delivered ev'"
  by (induction ev rule: delivered.induct) simp_all

lemma moved_by_delivered: "moved_by read_moved ev = bytes_size (delivered ev)"
  by (induction ev rule: delivered.induct) simp_all

subsection \<open>A parser that satisfies the contract\<close>

text \<open>
  For the witnesses: messages whose header ends at the first byte 10 and whose body
  ends at the first byte 0 after it, of at most 8 bytes.
\<close>

record small_parser =
  sp_input :: "byte list"
  sp_buffer :: "byte list"
  sp_eof :: bool

definition small_complete :: "byte list \<Rightarrow> bool" where
  "small_complete bs = (0 \<in> set (dropWhile (\<lambda>b. b \<noteq> 10) bs))"

definition small_parse :: "small_parser \<Rightarrow> error_code" where
  "small_parse p =
     (if small_complete (sp_input p) then Success
      else if sp_eof p then Other_error 1
      else if 8 \<le> length (sp_input p) then Other_error 2
      else Need_more_input)"

definition small_ops :: "small_parser parser_ops" where
  "small_ops =
     \<lparr>got_header = (\<lambda>p. 10 \<in> set (sp_input p)),
      is_complete = (\<lambda>p. small_complete (sp_input p)),
      pr_prepare = (\<lambda>p. Inr (16, p)),
      pr_fill = (\<lambda>bs p. p\<lparr>sp_buffer := bs\<rparr>),
      pr_commit = (\<lambda>n p. Inr (p\<lparr>sp_input := sp_input p @ take (unat n) (sp_buffer p)\<rparr>)),
      pr_commit_eof = (\<lambda>p. Inr (p\<lparr>sp_eof := True\<rparr>)),
      pr_parse = (\<lambda>p. Inr (small_parse p, p))\<rparr>"

definition small_view :: "small_parser parser_view" where
  "small_view =
     \<lparr>idle = (\<lambda>_. True), armed = (\<lambda>_ cap. cap = 16), loaded = (\<lambda>_. True),
      eof_seen = sp_eof, input = sp_input, limit = 8\<rparr>"

definition small_start :: small_parser where
  "small_start = \<lparr>sp_input = [], sp_buffer = [], sp_eof = False\<rparr>"

lemma small_complete_header: "small_complete bs \<Longrightarrow> 10 \<in> set bs"
  by (induction bs) (auto simp: small_complete_def split: if_splits)

lemma small_contract: "parser_contract small_ops small_view"
  unfolding parser_contract_def prepare_contract_def commit_contract_def parse_contract_def
  by (auto simp: small_ops_def small_view_def small_parse_def bytes_size_def
      unat_of_nat take_bit_nat_eq_self small_complete_header)

section \<open>One completed read\<close>

text \<open>The common part of both operations under the contracts: no exception, no
  failed assertion, and the bytes end up in the parser.\<close>

lemma read_commitE:
  assumes "parser_contract P V" "armed V p cap" "read_stream_ok cap c"
    and "read_recv P cap c p = (ec, n, p1)"
  obtains ec1 p2 where "read_commit P p1 ec n = Inr (ec1, p2)" "n = bytes_size (snd c)"
    "loaded V p2" "input V p2 = input V p @ snd c"
    "ec1 \<noteq> Eof" "ec1 \<noteq> Need_more_input" "fst c = Eof \<Longrightarrow> ec1 = Success \<and> eof_seen V p2"
    "fst c \<noteq> Eof \<Longrightarrow> ec1 = fst c"
proof -
  from assms(3,4) have l: "length (snd c) \<le> unat cap" and nm: "fst c \<noteq> Need_more_input"
    and e: "fst c = Eof \<Longrightarrow> snd c = []"
    and ec: "ec = fst c" "n = bytes_size (snd c)" "p1 = pr_fill P (snd c) p"
    by (auto simp: read_stream_ok_def read_recv_def)
  from commitE [OF assms(1,2) l] obtain q where q: "pr_commit P n p1 = Inr q" "loaded V q"
    "input V q = input V p @ snd c" unfolding ec by blast
  from commit_eofE [OF assms(1) q(2)] obtain q1 where "pr_commit_eof P q = Inr q1"
    "loaded V q1" "eof_seen V q1" "input V q1 = input V q" by blast
  note eof = this
  show ?thesis
  proof (cases "fst c = Eof")
    case True
    with q eof e ec have "read_commit P p1 ec n = Inr (Success, q1)"
      by (simp add: read_commit_def)
    then show ?thesis by (rule that) (use True q eof ec in auto)
  next
    case False
    with q ec have "read_commit P p1 ec n = Inr (fst c, q)"
      by (simp add: read_commit_def)
    then show ?thesis by (rule that) (use False q ec nm in auto)
  qed
qed

section \<open>Reading the header\<close>

text \<open>The state of the operation between the calls of its operator: what has been
  delivered is in the parser, and how much of it there can be.\<close>

definition header_inv ::
  "'p parser_ops \<Rightarrow> 'p parser_view \<Rightarrow> 'p \<Rightarrow> read_done event list \<Rightarrow>
   size_t effect \<Rightarrow> read_header_op \<Rightarrow> 'p \<Rightarrow> bool" where
  "header_inv P V p0 h eff q p \<longleftrightarrow>
     (case eff of
        Starts cap \<Rightarrow> \<not> got_header P p0 \<and> rh_at q = After_io \<and>
          armed V p cap \<and> cap \<noteq> 0 \<and> input V p = input V p0 @ delivered h \<and>
          length h \<le> length (delivered h) \<and> (h \<noteq> [] \<longrightarrow> length (input V p) < limit V)
      | Posts e m \<Rightarrow> rh_at q = After_post \<and> e = Success \<and> p = p0 \<and>
          got_header P p0 \<and> delivered h = []
      | Completes e m \<Rightarrow> input V p = input V p0 @ delivered h \<and>
          e \<noteq> Eof \<and> e \<noteq> Need_more_input \<and>
          (e = Success \<longrightarrow> got_header P p \<and>
             (got_header P p0 \<or> idle V p \<or> is_complete P p))
      | Ends \<Rightarrow> False)"

lemma header_read_inv:
  assumes C: "parser_contract P V" and "idle V p" "\<not> got_header P p0"
    and "input V p = input V p0 @ delivered h" "length h \<le> length (delivered h)"
    and "h \<noteq> [] \<longrightarrow> length (input V p) < limit V"
  shows "result_sat (header_inv P V p0 h) (\<lambda>_. False) (read_header_read P q p)"
  using assms
  by (elim prepareE) (auto simp: read_header_read_def header_inv_def)

lemma header_call_inv:
  assumes C: "parser_contract P V" and I: "header_inv P V p0 h (Starts cap) q p"
    and ok: "read_stream_ok cap c" and r: "read_recv P cap c p = (ec, n, p1)"
  shows "result_sat (header_inv P V p0 (h @ [Done c])) (\<lambda>_. False)
    (read_header_call P q p1 ec n)"
proof -
  from I have I': "\<not> got_header P p0" "rh_at q = After_io" "armed V p cap" "cap \<noteq> 0"
    "input V p = input V p0 @ delivered h" "length h \<le> length (delivered h)"
    by (simp_all add: header_inv_def)
  from read_commitE [OF C I'(3) ok r] obtain ec1 p2
    where c: "read_commit P p1 ec n = Inr (ec1, p2)" "loaded V p2"
      "input V p2 = input V p @ snd c" "ec1 \<noteq> Eof" "ec1 \<noteq> Need_more_input"
      "fst c = Eof \<Longrightarrow> ec1 = Success \<and> eof_seen V p2" "fst c \<noteq> Eof \<Longrightarrow> ec1 = fst c"
    by metis
  show ?thesis
  proof (cases "failed ec1")
    case True
    with c I' show ?thesis
      by (auto simp: read_header_call_def read_header_upcall_def header_inv_def)
  next
    case False
    from parseE [OF C c(2)] obtain ec2 p3 where p: "pr_parse P p2 = Inr (ec2, p3)"
      "input V p3 = input V p2" "ec2 \<noteq> Eof" "ec2 = Success \<Longrightarrow> is_complete P p3"
      "ec2 = Need_more_input \<Longrightarrow> idle V p3 \<and> \<not> eof_seen V p2 \<and> length (input V p2) < limit V"
      by metis
    have more: "length (h @ [Done c]) \<le> length (delivered (h @ [Done c]))"
      if "ec2 = Need_more_input"
    proof -
      from that p(5) c(6,7) False ok I'(4) have "snd c \<noteq> []"
        by (cases "fst c = Eof") (auto simp: read_stream_ok_def)
      with I'(6) show ?thesis by (cases "snd c") auto
    qed
    let ?q = "q\<lparr>rh_total_bytes := rh_total_bytes q + n\<rparr>"
    have "result_sat (header_inv P V p0 (h @ [Done c])) (\<lambda>_. False) (read_header_read P ?q p3)"
      if "ec2 = Need_more_input"
      by (rule header_read_inv [OF C]) (use that p c I' more in auto)
    with p c I' False completeD [OF C] show ?thesis
      by (auto simp: read_header_call_def read_header_upcall_def header_inv_def Let_def)
  qed
qed

lemma header_outcome:
  assumes C: "parser_contract P V" and start: "idle V p0 \<or> got_header P p0"
    and ok: "launch_complies (read_header_call P) (read_recv P) read_stream_ok
      read_header_op_new p0 ev"
  shows "outcome_sat (header_inv P V p0) (\<lambda>_. False) ev (async_read_header P p0 ev)"
  unfolding async_read_header_def
proof (rule launch_rule [OF _ _ _ ok])
  show "result_sat (header_inv P V p0 []) (\<lambda>_. False)
      (read_header_call P read_header_op_new p0 Success 0)"
    using start header_read_inv [OF C, of p0 p0 "[]"]
    by (auto simp: read_header_call_def read_header_op_new_def header_inv_def)
next
  fix h e m q p
  assume "header_inv P V p0 h (Posts e m) q p"
  then show "result_sat (header_inv P V p0 (h @ [Ready])) (\<lambda>_. False)
      (read_header_call P q p e m)"
    by (auto simp: read_header_call_def read_header_upcall_def header_inv_def)
qed (rule header_call_inv [OF C])

lemma header_finished:
  assumes "parser_contract P V" "idle V p \<or> got_header P p"
    and "launch_complies (read_header_call P) (read_recv P) read_stream_ok
      read_header_op_new p ev"
    and "async_read_header P p ev = Finished ec n p' rest"
  obtains used where "ev = used @ rest" "input V p' = input V p @ delivered used"
    "ec \<noteq> Eof" "ec \<noteq> Need_more_input" "ec = Success \<Longrightarrow> got_header P p'"
    "ec = Success \<Longrightarrow> got_header P p \<or> idle V p' \<or> is_complete P p'"
  using header_outcome [OF assms(1-3)] assms(4) by (auto simp: header_inv_def)

text \<open>C11: When \<open>async_read_header\<close> completes, the parser holds exactly the bytes the
  stream has delivered meanwhile, in order and once each; the byte count reported is
  their number (modulo the width of \<open>std::size_t\<close>); success means that the header is
  there; and the end of the stream reaches the caller only as what the parser makes of it,
  never as \<open>asio::error::eof\<close> or \<open>need_more_input\<close>. This holds for every script the
  stream can produce.\<close>

theorem read_header_result:
  assumes "parser_contract P V" "idle V p \<or> got_header P p"
    and "launch_complies (read_header_call P) (read_recv P) read_stream_ok
      read_header_op_new p ev"
    and fin: "async_read_header P p ev = Finished ec n p' rest"
  shows "\<exists>used. ev = used @ rest \<and> input V p' = input V p @ delivered used \<and>
    n = bytes_size (delivered used) \<and> (ec = Success \<longrightarrow> got_header P p') \<and>
    ec \<noteq> Eof \<and> ec \<noteq> Need_more_input"
proof -
  from header_finished [OF assms] obtain used where u: "ev = used @ rest"
    "input V p' = input V p @ delivered used" "ec = Success \<Longrightarrow> got_header P p'"
    "ec \<noteq> Eof" "ec \<noteq> Need_more_input" by blast
  moreover from rh.launch_counts [OF fin [unfolded async_read_header_def]]
  have "n = moved_by read_moved used" using u(1) by auto
  ultimately show ?thesis by (auto simp: moved_by_delivered)
qed

theorem read_header_result_witness:
  "\<exists>used. [Done (Success, [71, 10]), Ready] = used @ [Ready] \<and>
    input small_view \<lparr>sp_input = [71, 10], sp_buffer = [71, 10], sp_eof = False\<rparr> =
      input small_view small_start @ delivered used \<and>
    2 = bytes_size (delivered used) \<and>
    (Success = Success \<longrightarrow> got_header small_ops
      \<lparr>sp_input = [71, 10], sp_buffer = [71, 10], sp_eof = False\<rparr>) \<and>
    Success \<noteq> Eof \<and> Success \<noteq> Need_more_input"
proof (rule read_header_result [OF small_contract])
  show "idle small_view small_start \<or> got_header small_ops small_start"
    by (simp add: small_view_def)
  show "launch_complies (read_header_call small_ops) (read_recv small_ops) read_stream_ok
      read_header_op_new small_start [Done (Success, [71, 10]), Ready]"
    by code_simp
  show "async_read_header small_ops small_start [Done (Success, [71, 10]), Ready] =
      Finished Success 2 \<lparr>sp_input = [71, 10], sp_buffer = [71, 10], sp_eof = False\<rparr> [Ready]"
    by code_simp
qed

text \<open>With a parser and a stream that keep their contracts, \<open>async_read_header\<close>
  never throws and its assertion \<open>bytes_transferred == 0\<close> at end of file never fires.\<close>

lemma read_header_no_throw:
  assumes "parser_contract P V" "idle V p \<or> got_header P p"
    and "launch_complies (read_header_call P) (read_recv P) read_stream_ok
      read_header_op_new p ev"
  shows "async_read_header P p ev \<noteq> Threw f"
  using header_outcome [OF assms] by auto

text \<open>\<open>async_read_header\<close> completes: once the stream has completed as many reads
  as the parser's limit has bytes (at least one), the loop has ended, whatever the
  reads delivered and whether the stream has ended or not.\<close>

lemma read_header_terminates:
  assumes C: "parser_contract P V" and start: "idle V p" "\<not> got_header P p"
    and ok: "launch_complies (read_header_call P) (read_recv P) read_stream_ok
      read_header_op_new p (map Done cs)"
    and len: "cs \<noteq> []" "limit V \<le> length cs"
  shows "\<exists>ec n p' rest. async_read_header P p (map Done cs) = Finished ec n p' rest"
proof (cases "async_read_header P p (map Done cs)")
  case (Waiting eff q s rest)
  from header_outcome [OF C disjI1 [OF start(1)] ok] Waiting obtain used
    where u: "map Done cs = used @ rest" and I: "header_inv P V p used eff q s" by auto
  note W = launch_Waiting [OF Waiting [unfolded async_read_header_def]]
  from I start(2) W(1) obtain cap where eff: "eff = Starts cap"
    by (cases eff) (auto simp: header_inv_def)
  from launch_uses_all [OF Waiting [unfolded async_read_header_def eff] u] len
  have "used \<noteq> []" "limit V \<le> length used" by auto
  moreover from I eff have "length used \<le> length (input V s)"
    "used \<noteq> [] \<longrightarrow> length (input V s) < limit V"
    by (auto simp: header_inv_def)
  ultimately show ?thesis by simp
next
  case (Threw f)
  with read_header_no_throw [OF C disjI1 [OF start(1)] ok] show ?thesis by blast
qed simp

section \<open>Reading the body\<close>

definition body_inv ::
  "'p parser_ops \<Rightarrow> 'p parser_view \<Rightarrow> bool \<Rightarrow> 'p \<Rightarrow> read_done event list \<Rightarrow>
   size_t effect \<Rightarrow> read_body_op \<Rightarrow> 'p \<Rightarrow> bool" where
  "body_inv P V some p0 h eff q p \<longleftrightarrow>
     (case eff of
        Starts cap \<Rightarrow> \<not> is_complete P p0 \<and> rb_at q = After_io \<and> rb_some q = some \<and>
          armed V p cap \<and> cap \<noteq> 0 \<and> input V p = input V p0 @ delivered h \<and>
          length h \<le> length (delivered h) \<and>
          (h \<noteq> [] \<longrightarrow> \<not> some \<and> length (input V p) < limit V)
      | Posts e m \<Rightarrow> rb_at q = After_post \<and> e = Success \<and> p = p0 \<and>
          is_complete P p0 \<and> h = []
      | Completes e m \<Rightarrow> input V p = input V p0 @ delivered h \<and>
          e \<noteq> Eof \<and> e \<noteq> Need_more_input \<and> (some \<longrightarrow> length h = 1) \<and>
          (e = Success \<longrightarrow> is_complete P p \<or>
             (some \<and> idle V p \<and> delivered h \<noteq> [] \<and> length (input V p) < limit V))
      | Ends \<Rightarrow> False)"

lemma body_read_inv:
  assumes C: "parser_contract P V" and "idle V p" "\<not> is_complete P p0" "rb_some q = some"
    and "input V p = input V p0 @ delivered h" "length h \<le> length (delivered h)"
    and "h \<noteq> [] \<longrightarrow> \<not> some \<and> length (input V p) < limit V"
  shows "result_sat (body_inv P V some p0 h) (\<lambda>_. False) (read_body_read P q p)"
  using assms
  by (elim prepareE) (auto simp: read_body_read_def body_inv_def)

lemma body_call_inv:
  assumes C: "parser_contract P V" and I: "body_inv P V some p0 h (Starts cap) q p"
    and ok: "read_stream_ok cap c" and r: "read_recv P cap c p = (ec, n, p1)"
  shows "result_sat (body_inv P V some p0 (h @ [Done c])) (\<lambda>_. False)
    (read_body_call P q p1 ec n)"
proof -
  from I have I': "\<not> is_complete P p0" "rb_at q = After_io" "rb_some q = some"
    "armed V p cap" "cap \<noteq> 0" "input V p = input V p0 @ delivered h"
    "length h \<le> length (delivered h)" "some \<longrightarrow> h = []"
    by (auto simp: body_inv_def)
  from read_commitE [OF C I'(4) ok r] obtain ec1 p2
    where c: "read_commit P p1 ec n = Inr (ec1, p2)" "loaded V p2"
      "input V p2 = input V p @ snd c" "ec1 \<noteq> Eof" "ec1 \<noteq> Need_more_input"
      "fst c = Eof \<Longrightarrow> ec1 = Success \<and> eof_seen V p2" "fst c \<noteq> Eof \<Longrightarrow> ec1 = fst c"
    by metis
  show ?thesis
  proof (cases "failed ec1")
    case True
    with c I' show ?thesis
      by (auto simp: read_body_call_def read_body_upcall_def body_inv_def)
  next
    case False
    from parseE [OF C c(2)] obtain ec2 p3 where p: "pr_parse P p2 = Inr (ec2, p3)"
      "input V p3 = input V p2" "ec2 \<noteq> Eof" "ec2 = Success \<Longrightarrow> is_complete P p3"
      "ec2 = Need_more_input \<Longrightarrow> idle V p3 \<and> \<not> eof_seen V p2 \<and> length (input V p2) < limit V"
      by metis
    have data: "snd c \<noteq> []" if "ec2 = Need_more_input"
      using that p(5) c(6,7) False ok I'(5)
      by (cases "fst c = Eof") (auto simp: read_stream_ok_def)
    with I'(7) have more: "length (h @ [Done c]) \<le> length (delivered (h @ [Done c]))"
      if "ec2 = Need_more_input"
      using that by (cases "snd c") auto
    let ?q = "q\<lparr>rb_total_bytes := rb_total_bytes q + n\<rparr>"
    have "result_sat (body_inv P V some p0 (h @ [Done c])) (\<lambda>_. False) (read_body_read P ?q p3)"
      if "ec2 = Need_more_input" "\<not> some"
      by (rule body_read_inv [OF C]) (use that p c I' more in auto)
    with p c I' False data show ?thesis
      by (auto simp: read_body_call_def read_body_upcall_def body_inv_def Let_def)
  qed
qed

lemma body_post_inv:
  assumes C: "parser_contract P V" and I: "body_inv P V some p0 h (Posts e m) q p"
  shows "result_sat (body_inv P V some p0 (h @ [Ready])) (\<lambda>_. False)
    (read_body_call P q p e m)"
proof -
  from I have I': "rb_at q = After_post" "p = p0" "is_complete P p0" "h = []"
    by (auto simp: body_inv_def)
  from parseE [OF C, of p0] completeD [OF C I'(3)] I'(3) obtain ec p1
    where "pr_parse P p0 = Inr (ec, p1)" "input V p1 = input V p0" "ec \<noteq> Eof"
      "ec \<noteq> Need_more_input" "ec = Success \<Longrightarrow> is_complete P p1" by metis
  with I' show ?thesis
    by (auto simp: read_body_call_def read_body_upcall_def body_inv_def)
qed

lemma body_outcome:
  assumes C: "parser_contract P V" and start: "idle V p0 \<or> is_complete P p0"
    and ok: "launch_complies (read_body_call P) (read_recv P) read_stream_ok
      (read_body_op_new some) p0 ev"
  shows "outcome_sat (body_inv P V some p0) (\<lambda>_. False) ev (read_body P some p0 ev)"
  unfolding read_body_def
proof (rule launch_rule [OF _ _ _ ok])
  show "result_sat (body_inv P V some p0 []) (\<lambda>_. False)
      (read_body_call P (read_body_op_new some) p0 Success 0)"
    using start body_read_inv [OF C, of p0 p0 "read_body_op_new some" some "[]"]
    by (auto simp: read_body_call_def read_body_op_new_def body_inv_def)
qed (fact body_post_inv [OF C] body_call_inv [OF C])+

abbreviation body_complies :: "'p parser_ops \<Rightarrow> bool \<Rightarrow> 'p \<Rightarrow> read_done event list \<Rightarrow> bool" where
  "body_complies P some p ev \<equiv>
     launch_complies (read_body_call P) (read_recv P) read_stream_ok (read_body_op_new some) p ev"

lemma body_finished:
  assumes "parser_contract P V" "idle V p \<or> is_complete P p" "body_complies P some p ev"
    and fin: "read_body P some p ev = Finished ec n p' rest"
  obtains used where "ev = used @ rest" "input V p' = input V p @ delivered used"
    "n = bytes_size (delivered used)" "ec \<noteq> Eof" "ec \<noteq> Need_more_input"
    "some \<Longrightarrow> length used = 1" "ec = Success \<Longrightarrow> is_complete P p' \<or> (some \<and> idle V p')"
    "ec = Success \<Longrightarrow> \<not> is_complete P p' \<Longrightarrow> delivered used \<noteq> [] \<and> length (input V p') < limit V"
proof -
  from body_outcome [OF assms(1-3)] fin obtain used q where u: "ev = used @ rest"
    and I: "body_inv P V some p used (Completes ec n) q p'" by auto
  from rb.launch_counts [OF fin [unfolded read_body_def]] u
  have "n = bytes_size (delivered used)" by (auto simp: moved_by_delivered)
  with u I that show ?thesis by (auto simp: body_inv_def)
qed

lemma async_read_Inr:
  "async_read P p ev = Inr r \<longleftrightarrow> got_header P p \<and> read_body P False p ev = r"
  "async_read_some P p ev = Inr r \<longleftrightarrow> got_header P p \<and> read_body P True p ev = r"
  by (auto simp: async_read_def async_read_some_def throw_logic_error_def)

text \<open>C1: \<open>async_read\<close> succeeds only with the complete message, and whenever it
  completes, the parser has got exactly the bytes the stream delivered, whose number
  it reports. It never completes with \<open>asio::error::eof\<close> or \<open>need_more_input\<close>.\<close>

theorem async_read_result:
  assumes "parser_contract P V" "idle V p \<or> is_complete P p" "body_complies P False p ev"
    and "async_read P p ev = Inr (Finished ec n p' rest)"
  shows "\<exists>used. ev = used @ rest \<and> input V p' = input V p @ delivered used \<and>
    n = bytes_size (delivered used) \<and> (ec = Success \<longrightarrow> is_complete P p') \<and>
    ec \<noteq> Eof \<and> ec \<noteq> Need_more_input"
  using body_finished [OF assms(1-3)] assms(4) unfolding async_read_Inr by metis

theorem async_read_result_witness:
  "\<exists>used. [Done (Success, [65]), Done (Success, [0])] = used @ [] \<and>
    input small_view \<lparr>sp_input = [10, 65, 0], sp_buffer = [0], sp_eof = False\<rparr> =
      input small_view \<lparr>sp_input = [10], sp_buffer = [], sp_eof = False\<rparr> @ delivered used \<and>
    2 = bytes_size (delivered used) \<and>
    (Success = Success \<longrightarrow> is_complete small_ops
      \<lparr>sp_input = [10, 65, 0], sp_buffer = [0], sp_eof = False\<rparr>) \<and>
    Success \<noteq> Eof \<and> Success \<noteq> Need_more_input"
proof (rule async_read_result [OF small_contract])
  show "idle small_view \<lparr>sp_input = [10], sp_buffer = [], sp_eof = False\<rparr> \<or>
      is_complete small_ops \<lparr>sp_input = [10], sp_buffer = [], sp_eof = False\<rparr>"
    by (simp add: small_view_def)
  show "body_complies small_ops False \<lparr>sp_input = [10], sp_buffer = [], sp_eof = False\<rparr>
      [Done (Success, [65]), Done (Success, [0])]"
    by code_simp
  show "async_read small_ops \<lparr>sp_input = [10], sp_buffer = [], sp_eof = False\<rparr>
      [Done (Success, [65]), Done (Success, [0])] =
      Inr (Finished Success 2 \<lparr>sp_input = [10, 65, 0], sp_buffer = [0], sp_eof = False\<rparr> [])"
    by code_simp
qed

text \<open>\<open>async_read_some\<close> waits for one event only (one read of the stream, or the
  posted handler when the message is already complete), and reports a body that is
  still incomplete as success, never as \<open>need_more_input\<close>; the parser is then
  ready for the next call.\<close>

lemma async_read_some_result:
  assumes "parser_contract P V" "idle V p \<or> is_complete P p" "body_complies P True p ev"
    and "async_read_some P p ev = Inr (Finished ec n p' rest)"
  shows "\<exists>e. ev = e # rest \<and> input V p' = input V p @ delivered [e] \<and>
    n = bytes_size (delivered [e]) \<and> ec \<noteq> Need_more_input \<and> ec \<noteq> Eof \<and>
    (ec = Success \<longrightarrow> is_complete P p' \<or> idle V p')"
proof -
  from body_finished [OF assms(1-3)] assms(4) obtain used where "ev = used @ rest"
    "input V p' = input V p @ delivered used" "n = bytes_size (delivered used)"
    "ec \<noteq> Eof" "ec \<noteq> Need_more_input" "length used = 1"
    "ec = Success \<Longrightarrow> is_complete P p' \<or> idle V p'"
    unfolding async_read_Inr by metis
  then show ?thesis by (auto simp: length_Suc_conv)
qed

text \<open>Under the contracts neither body read throws, and neither of its two
  assertions (no bytes with end of file, and the message complete when \<open>parse\<close>
  succeeds) fires.\<close>

lemma body_read_no_throw:
  assumes "parser_contract P V" "idle V p \<or> is_complete P p" "body_complies P some p ev"
  shows "read_body P some p ev \<noteq> Threw f"
  using body_outcome [OF assms] by auto

lemma body_read_ends:
  assumes C: "parser_contract P V" and start: "idle V p" "\<not> is_complete P p"
    and ok: "body_complies P False p (map Done cs)"
    and len: "cs \<noteq> []" "limit V \<le> length cs"
  shows "\<exists>ec n p' rest. read_body P False p (map Done cs) = Finished ec n p' rest"
proof (cases "read_body P False p (map Done cs)")
  case (Waiting eff q s rest)
  from body_outcome [OF C disjI1 [OF start(1)] ok] Waiting obtain used
    where u: "map Done cs = used @ rest" and I: "body_inv P V False p used eff q s" by auto
  note W = launch_Waiting [OF Waiting [unfolded read_body_def]]
  from I start(2) W(1) obtain cap where eff: "eff = Starts cap"
    by (cases eff) (auto simp: body_inv_def)
  from launch_uses_all [OF Waiting [unfolded read_body_def eff] u] len
  have "used \<noteq> []" "limit V \<le> length used" by auto
  moreover from I eff have "length used \<le> length (input V s)"
    "used \<noteq> [] \<longrightarrow> length (input V s) < limit V"
    by (auto simp: body_inv_def)
  ultimately show ?thesis by simp
next
  case (Threw f)
  with body_outcome [OF C disjI1 [OF start(1)] ok] show ?thesis by simp
qed simp

text \<open>\<open>async_read\<close> of an incomplete message completes within as many reads of
  the stream as the parser's limit has bytes.\<close>

lemma async_read_terminates:
  assumes "parser_contract P V" "idle V p" "\<not> is_complete P p" "got_header P p"
    and "body_complies P False p (map Done cs)"
    and "cs \<noteq> []" "limit V \<le> length cs"
  shows "\<exists>ec n p' rest. async_read P p (map Done cs) = Inr (Finished ec n p' rest)"
  using body_read_ends [OF assms(1-3,5-)] assms(4) by (simp add: async_read_def)

section \<open>\<open>async_read\<close> is \<open>async_read_some\<close> until the message is complete\<close>

text \<open>The caller's loop over \<open>async_read_some\<close>: stop at the first error or when the
  message is complete, adding up the byte counts. \<open>None\<close>: the script ran out.\<close>

function read_some_loop ::
  "'p parser_ops \<Rightarrow> 'p \<Rightarrow> read_done event list \<Rightarrow>
   (error_code \<times> size_t \<times> 'p \<times> read_done event list) option" where
  "read_some_loop P p ev =
     (case read_body P True p ev of
        Finished ec n p' rest \<Rightarrow>
          if failed ec \<or> is_complete P p' then Some (ec, n, p', rest)
          else (case read_some_loop P p' rest of
                  None \<Rightarrow> None
                | Some (ec', m, p'', rest') \<Rightarrow> Some (ec', n + m, p'', rest'))
      | Waiting eff q s rest \<Rightarrow> None
      | Threw f \<Rightarrow> None)"
  by pat_completeness auto
termination
  by (relation "measure (\<lambda>(P, p, ev). length ev)")
    (auto simp: read_body_def dest: rb.launch_consumes)

declare read_some_loop.simps [simp del]

fun finished_with ::
  "('io, 'o, 's, 'c) outcome \<Rightarrow> (error_code \<times> size_t \<times> 's \<times> 'c event list) option" where
  "finished_with (Finished ec n s rest) = Some (ec, n, s, rest)"
| "finished_with _ = None"

definition add_bytes ::
  "size_t \<Rightarrow> (error_code \<times> size_t \<times> 's \<times> 'e) option \<Rightarrow> (error_code \<times> size_t \<times> 's \<times> 'e) option" where
  "add_bytes t r = map_option (\<lambda>(ec, n, s, rest). (ec, t + n, s, rest)) r"

lemma add_bytes_simps [simp]:
  "add_bytes t None = None"
  "add_bytes t (Some (ec, n, s, rest)) = Some (ec, t + n, s, rest)"
  "add_bytes 0 r = r"
  "add_bytes t (add_bytes u r) = add_bytes (t + u) r"
  by (auto simp: add_bytes_def option.map_comp o_def case_prod_unfold add.assoc option.map_ident)

text \<open>The verdicts of \<open>parse\<close> agree with \<open>is_complete\<close>.\<close>

definition parse_exact :: "'p parser_ops \<Rightarrow> bool" where
  "parse_exact P \<longleftrightarrow>
     (\<forall>p ec p'. pr_parse P p = Inr (ec, p') \<longrightarrow>
        (ec = Success \<longrightarrow> is_complete P p') \<and> (ec = Need_more_input \<longrightarrow> \<not> is_complete P p'))"

definition some_op :: "size_t \<Rightarrow> bool \<Rightarrow> read_body_op" where
  "some_op t some = \<lparr>rb_at = After_io, rb_total_bytes = t, rb_some = some\<rparr>"

abbreviation body_drive ::
  "'p parser_ops \<Rightarrow> read_done event list \<Rightarrow> size_t \<Rightarrow> read_body_op \<Rightarrow> 'p \<Rightarrow>
   (size_t, read_body_op, 'p, read_done) outcome" where
  "body_drive P ev cap q p \<equiv> drive (read_body_call P) (read_recv P) ev (Starts cap) q p"

text \<open>What the loop does with the outcome of one \<open>async_read_some\<close>.\<close>

definition loop_rest ::
  "'p parser_ops \<Rightarrow> (size_t, read_body_op, 'p, read_done) outcome \<Rightarrow>
   (error_code \<times> size_t \<times> 'p \<times> read_done event list) option" where
  "loop_rest P out =
     (case finished_with out of
        None \<Rightarrow> None
      | Some (ec, n, p', rest) \<Rightarrow>
          if failed ec \<or> is_complete P p' then Some (ec, n, p', rest)
          else add_bytes n (read_some_loop P p' rest))"

lemma read_some_loop_rest: "read_some_loop P p ev = loop_rest P (read_body P True p ev)"
  by (subst read_some_loop.simps)
    (auto simp: loop_rest_def split: outcome.split option.split)

lemma read_body_started:
  assumes "\<not> is_complete P p"
  shows "read_body P some p ev =
    (case pr_prepare P p of
       Inl f \<Rightarrow> Threw f
     | Inr (cap, p1) \<Rightarrow> body_drive P ev cap (some_op 0 some) p1)"
  using assms
  by (simp add: read_body_def launch_def read_body_call_def read_body_read_def
      read_body_op_new_def some_op_def split: sum.split)

lemma read_body_loop:
  assumes "parse_exact P"
  shows "finished_with (body_drive P ev cap (some_op t False) p) =
    add_bytes t (loop_rest P (body_drive P ev cap (some_op 0 True) p))"
proof (induction ev arbitrary: cap t p)
  case Nil
  then show ?case by (simp add: loop_rest_def)
next
  case (Cons e ev)
  show ?case
  proof (cases e)
    case Ready
    then show ?thesis by (simp add: loop_rest_def)
  next
    case (Done c)
    obtain ec n p1 where r: "read_recv P cap c p = (ec, n, p1)" by (rule prod_cases3)
    show ?thesis
    proof (cases "read_commit P p1 ec n")
      case (Inl f)
      with Done r show ?thesis
        by (simp add: loop_rest_def some_op_def read_body_call_def)
    next
      case (Inr x)
      obtain ec1 p2 where x: "x = (ec1, p2)" by (cases x)
      show ?thesis
      proof (cases "failed ec1 \<or> (\<exists>f. pr_parse P p2 = Inl f) \<or>
          (\<exists>ec2 p3. pr_parse P p2 = Inr (ec2, p3) \<and> ec2 \<noteq> Need_more_input)")
        case True
        with Done r Inr x show ?thesis
          by (auto simp: loop_rest_def some_op_def read_body_call_def
              read_body_upcall_def boost_assert_def Let_def)
      next
        case False
        then obtain p3 where p: "\<not> failed ec1" "pr_parse P p2 = Inr (Need_more_input, p3)"
          by (cases "pr_parse P p2") auto
        with assms have nc: "\<not> is_complete P p3" by (auto simp: parse_exact_def)
        from Done r Inr x p have
          "finished_with (body_drive P (e # ev) cap (some_op 0 True) p) =
             Some (Success, n, p3, ev)"
          by (simp add: some_op_def read_body_call_def read_body_upcall_def Let_def)
        with nc have
          "loop_rest P (body_drive P (e # ev) cap (some_op 0 True) p) =
             add_bytes n (loop_rest P (read_body P True p3 ev))"
          by (simp add: loop_rest_def [of P "body_drive P (e # ev) cap (some_op 0 True) p"]
              read_some_loop_rest)
        moreover from Done r Inr x p have
          "finished_with (body_drive P (e # ev) cap (some_op t False) p) =
             (case pr_prepare P p3 of Inl f \<Rightarrow> None
              | Inr (cap', p4) \<Rightarrow> finished_with (body_drive P ev cap' (some_op (t + n) False) p4))"
          by (simp add: some_op_def read_body_call_def read_body_read_def Let_def
              split: sum.split)
        ultimately show ?thesis
          using Cons.IH nc
          by (simp add: read_body_started add.assoc split: sum.split)
            (auto simp: loop_rest_def)
      qed
    qed
  qed
qed

text \<open>C16: Reading the body with one \<open>async_read\<close> is the same as calling
  \<open>async_read_some\<close> until it fails or the message is complete: same error code, same
  total of bytes, same parser, same events left.\<close>

theorem async_read_is_read_some_loop:
  assumes "parse_exact P"
  shows "finished_with (read_body P False p ev) = read_some_loop P p ev"
proof (cases "is_complete P p")
  case True
  have "finished_with (read_body P False p ev) = loop_rest P (read_body P True p ev)"
  proof (cases ev)
    case (Cons e es)
    with True assms show ?thesis
      by (cases e; cases "pr_parse P p")
        (auto simp: loop_rest_def read_body_def launch_def read_body_call_def
          read_body_upcall_def read_body_op_new_def parse_exact_def)
  qed (use True in \<open>simp add: loop_rest_def read_body_def launch_def read_body_call_def
      read_body_op_new_def\<close>)
  then show ?thesis by (simp add: read_some_loop_rest)
next
  case False
  then show ?thesis
    by (simp add: read_some_loop_rest read_body_started read_body_loop [OF assms]
        split: sum.split) (auto simp: loop_rest_def)
qed

theorem async_read_is_read_some_loop_witness:
  "finished_with (read_body small_ops False \<lparr>sp_input = [10], sp_buffer = [], sp_eof = False\<rparr>
     [Done (Success, [65]), Done (Success, [66, 0])]) =
   read_some_loop small_ops \<lparr>sp_input = [10], sp_buffer = [], sp_eof = False\<rparr>
     [Done (Success, [65]), Done (Success, [66, 0])]"
  by (rule async_read_is_read_some_loop)
    (auto simp: parse_exact_def small_ops_def small_parse_def split: if_splits)

end
