(* ===== verification/Write_Ops.thy ===== *)
theory Write_Ops
  imports Composed_Op
begin

text \<open>
  \<open>include/boost/http_io/impl/write.hpp\<close>: the coroutines \<open>write_some_op\<close> and
  \<open>write_op\<close> and the initiating functions \<open>async_write_some\<close> and \<open>async_write\<close>. The
  serializer (\<open>http_proto::serializer\<close>, not part of the repository) is the parameter
  \<open>S\<close>; the stream appears through the completions of its \<open>async_write_some\<close>. The
  state \<open>wire\<close> pairs the serializer with the bytes the stream has accepted.
\<close>

section \<open>The serializer and the stream\<close>

text \<open>\<open>prepare\<close> returns a \<open>system::result\<close>: an error code or the buffers to write.\<close>

record 's serializer_ops =
  sr_prepare :: "'s \<Rightarrow> failure + ((error_code + byte list list) \<times> 's)"
  sr_consume :: "size_t \<Rightarrow> 's \<Rightarrow> failure + 's"
  sr_is_done :: "'s \<Rightarrow> bool"

record 's wire =
  wr_sr :: 's
  wr_sent :: "byte list"

text \<open>A completion of the stream's \<open>async_write_some\<close>: its error code and the number
  of bytes it has taken from the front of the buffers.\<close>

type_synonym write_done = "error_code \<times> size_t"

definition write_recv ::
  "byte list list \<Rightarrow> write_done \<Rightarrow> 's wire \<Rightarrow> error_code \<times> size_t \<times> 's wire" where
  "write_recv bufs c w =
     (fst c, snd c, w\<lparr>wr_sent := wr_sent w @ take (unat (snd c)) (concat bufs)\<rparr>)"

section \<open>\<open>write_some_op\<close>\<close>

record write_some_op =
  ws_at :: point

definition write_some_op_new :: write_some_op where
  "write_some_op_new = \<lparr>ws_at = Entry\<rparr>"

definition write_some_upcall ::
  "write_some_op \<Rightarrow> 's wire \<Rightarrow> error_code \<Rightarrow> size_t \<Rightarrow>
   failure + (byte list list effect \<times> write_some_op \<times> 's wire)" where
  "write_some_upcall op w ec n = Inr (Completes ec n, op\<lparr>ws_at := Terminated\<rparr>, w)"

definition write_some_call ::
  "'s serializer_ops \<Rightarrow> write_some_op \<Rightarrow> 's wire \<Rightarrow> error_code \<Rightarrow> size_t \<Rightarrow> bool \<Rightarrow>
   failure + (byte list list effect \<times> write_some_op \<times> 's wire)" where
  "write_some_call S op w ec n do_post =
     (case ws_at op of
        Entry \<Rightarrow>
          sbind (sr_prepare S (wr_sr w)) (\<lambda>(rv, sr1).
            let w1 = w\<lparr>wr_sr := sr1\<rparr> in
            case rv of
              Inl e \<Rightarrow>
                if \<not> do_post then write_some_upcall op w1 e n
                else Inr (Posts e n, op\<lparr>ws_at := After_post\<rparr>, w1)
            | Inr bufs \<Rightarrow> Inr (Starts bufs, op\<lparr>ws_at := After_io\<rparr>, w1))
      | After_post \<Rightarrow> write_some_upcall op w ec n
      | After_io \<Rightarrow>
          sbind (sr_consume S n (wr_sr w)) (\<lambda>sr1.
            write_some_upcall op (w\<lparr>wr_sr := sr1\<rparr>) ec n)
      | Terminated \<Rightarrow> Inr (Ends, op, w))"

text \<open>The overload \<open>operator()(Self&)\<close>, which \<open>asio::async_compose\<close> calls first.\<close>

definition write_some_initiate ::
  "'s serializer_ops \<Rightarrow> write_some_op \<Rightarrow> 's wire \<Rightarrow>
   failure + (byte list list effect \<times> write_some_op \<times> 's wire)" where
  "write_some_initiate S op w = write_some_call S op w Success 0 True"

text \<open>The calls that happen: a fresh operation is initiated, later calls are completion
  handlers and leave \<open>do_post\<close> at its default.\<close>

definition write_some_resume ::
  "'s serializer_ops \<Rightarrow> (write_some_op, 's wire, byte list list) resume" where
  "write_some_resume S op w ec n =
     (if ws_at op = Entry then write_some_initiate S op w
      else write_some_call S op w ec n False)"

definition async_write_some ::
  "'s serializer_ops \<Rightarrow> 's wire \<Rightarrow> write_done event list \<Rightarrow>
   (byte list list, write_some_op, 's wire, write_done) outcome" where
  "async_write_some S w ev =
     launch (write_some_resume S) write_recv write_some_op_new w ev"

section \<open>\<open>write_op\<close>\<close>

record write_op =
  wo_at :: point
  wo_n :: size_t

definition write_op_new :: write_op where
  "write_op_new = \<lparr>wo_at = Entry, wo_n = 0\<rparr>"

text \<open>The only I/O it initiates is \<open>async_write_some(dest_, sr_, self)\<close>. It never posts,
  so there is no code at \<open>After_post\<close>.\<close>

definition write_op_call ::
  "'s serializer_ops \<Rightarrow> (write_op, 's wire, unit) resume" where
  "write_op_call S op w ec n =
     (case wo_at op of
        Entry \<Rightarrow> Inr (Starts (), op\<lparr>wo_at := After_io\<rparr>, w)
      | After_io \<Rightarrow>
          let op1 = op\<lparr>wo_n := wo_n op + n\<rparr> in
          if failed ec then Inr (Completes ec (wo_n op1), op1\<lparr>wo_at := Terminated\<rparr>, w)
          else if \<not> sr_is_done S (wr_sr w)
          then Inr (Starts (), op1\<lparr>wo_at := After_io\<rparr>, w)
          else Inr (Completes ec (wo_n op1), op1\<lparr>wo_at := Terminated\<rparr>, w)
      | After_post \<Rightarrow> Inr (Ends, op, w)
      | Terminated \<Rightarrow> Inr (Ends, op, w))"

section \<open>Both are counting operations\<close>

lemmas write_some_defs [call_defs] =
  write_some_resume_def write_some_initiate_def write_some_call_def write_some_upcall_def

interpretation ws: counting_op "write_some_resume S" write_some_op_new
  "\<lambda>op. ws_at op = Terminated" "\<lambda>_. 0" "\<lambda>op. ws_at op = After_io"
  write_recv snd for S :: "'s serializer_ops"
  by unfold_locales
    (auto simp: write_some_defs write_some_op_new_def write_recv_def fail_simps Let_def
      split: point.splits if_splits)

text \<open>A completion of the inner operation carries the state it has left.\<close>

definition write_op_recv ::
  "unit \<Rightarrow> error_code \<times> size_t \<times> 's wire \<Rightarrow> 's wire \<Rightarrow> error_code \<times> size_t \<times> 's wire" where
  "write_op_recv u c w = c"

interpretation wo: counting_op "write_op_call S" write_op_new
  "\<lambda>op. wo_at op \<in> {After_post, Terminated}" wo_n "\<lambda>op. wo_at op = After_io"
  write_op_recv "\<lambda>(ec, n, w). n" for S :: "'s serializer_ops"
  by unfold_locales
    (auto simp: write_op_call_def write_op_new_def write_op_recv_def Let_def
      split: point.splits if_splits)

section \<open>\<open>async_write\<close>: the two coroutines together\<close>

text \<open>
  \<open>write_op\<close> runs on top of \<open>write_some_op\<close>: each \<open>Starts ()\<close> of it initiates a new
  \<open>write_some_op\<close>, which consumes events until it completes and thereby resumes
  \<open>write_op\<close>. An inner operation never completes without consuming an event
  (\<open>ws.launch_consumes\<close>), so the run ends with the script.
\<close>

function write_run ::
  "'s serializer_ops \<Rightarrow> write_done event list \<Rightarrow> unit effect \<Rightarrow> write_op \<Rightarrow> 's wire \<Rightarrow>
   (byte list list, write_op \<times> write_some_op, 's wire, write_done) outcome" where
  "write_run S ev (Completes ec n) op w = Finished ec n w ev"
| "write_run S ev (Starts u) op w =
     (case async_write_some S w ev of
        Finished ec n w1 rest \<Rightarrow>
          (case write_op_call S op w1 ec n of
             Inl f \<Rightarrow> Threw f
           | Inr (eff', op', w2) \<Rightarrow> write_run S rest eff' op' w2)
      | Waiting eff1 q w1 rest \<Rightarrow> Waiting eff1 (op, q) w1 rest
      | Threw f \<Rightarrow> Threw f)"
| "write_run S ev (Posts ec n) op w = Waiting (Posts ec n) (op, write_some_op_new) w ev"
| "write_run S ev Ends op w = Waiting Ends (op, write_some_op_new) w ev"
  by pat_completeness auto
termination
  by (relation "measure (\<lambda>(S, ev, eff, op, w). length ev)")
    (auto simp: async_write_some_def dest: ws.launch_consumes)

definition async_write ::
  "'s serializer_ops \<Rightarrow> 's wire \<Rightarrow> write_done event list \<Rightarrow>
   (byte list list, write_op \<times> write_some_op, 's wire, write_done) outcome" where
  "async_write S w ev =
     (case write_op_call S write_op_new w Success 0 of
        Inl f \<Rightarrow> Threw f
      | Inr (eff, op, w1) \<Rightarrow> write_run S ev eff op w1)"

end
