(* ===== verification/Write_Laws.thy ===== *)
theory Write_Laws
  imports Write_Ops
begin

text \<open>
  What the write operations promise. First what the code relies on, as predicates
  over the parameters: the documented behaviour of the serializer
  (\<open>serializer_contract\<close>) and of a stream's \<open>async_write_some\<close> (\<open>write_stream_ok\<close>),
  with a small concrete serializer. Then the lemmas and properties of
  \<open>async_write_some\<close> and \<open>async_write\<close> for every script the stream can produce.
\<close>

section \<open>What the code relies on\<close>

text \<open>
  A view of the serializer: when \<open>prepare\<close> may be called (\<open>ready\<close>), the buffers it
  has handed out (\<open>offered\<close>), and the bytes of the message that are still to be
  written (\<open>pending\<close>).
\<close>

record 's serializer_view =
  ready :: "'s \<Rightarrow> bool"
  offered :: "'s \<Rightarrow> byte list list \<Rightarrow> bool"
  pending :: "'s \<Rightarrow> byte list"

definition sr_prepare_contract :: "'s serializer_ops \<Rightarrow> 's serializer_view \<Rightarrow> bool" where
  "sr_prepare_contract S V \<longleftrightarrow>
     (\<forall>s. ready V s \<longrightarrow> pending V s \<noteq> [] \<longrightarrow>
        (\<exists>rv s1. sr_prepare S s = Inr (rv, s1) \<and> pending V s1 = pending V s \<and>
           (case rv of
              Inl e \<Rightarrow> failed e
            | Inr bufs \<Rightarrow> concat bufs \<noteq> [] \<and> offered V s1 bufs \<and>
                (\<exists>more. pending V s = concat bufs @ more))))"

definition sr_consume_contract :: "'s serializer_ops \<Rightarrow> 's serializer_view \<Rightarrow> bool" where
  "sr_consume_contract S V \<longleftrightarrow>
     (\<forall>s bufs n. offered V s bufs \<longrightarrow> unat n \<le> length (concat bufs) \<longrightarrow>
        (\<exists>s1. sr_consume S n s = Inr s1 \<and> ready V s1 \<and>
           pending V s1 = drop (unat n) (pending V s))) \<and>
     (\<forall>s. ready V s \<longrightarrow> (sr_is_done S s \<longleftrightarrow> pending V s = []))"

definition serializer_contract :: "'s serializer_ops \<Rightarrow> 's serializer_view \<Rightarrow> bool" where
  "serializer_contract S V \<longleftrightarrow> sr_prepare_contract S V \<and> sr_consume_contract S V"

lemma sr_prepareE:
  assumes "serializer_contract S V" "ready V s" "pending V s \<noteq> []"
  obtains e s1 where "sr_prepare S s = Inr (Inl e, s1)" "pending V s1 = pending V s" "failed e"
  | bufs s1 more where "sr_prepare S s = Inr (Inr bufs, s1)" "pending V s1 = pending V s"
    "concat bufs \<noteq> []" "offered V s1 bufs" "pending V s = concat bufs @ more"
proof -
  from assms obtain rv s1 where p: "sr_prepare S s = Inr (rv, s1)"
    "pending V s1 = pending V s" and rv: "case rv of Inl e \<Rightarrow> failed e
      | Inr bufs \<Rightarrow> concat bufs \<noteq> [] \<and> offered V s1 bufs \<and>
          (\<exists>more. pending V s = concat bufs @ more)"
    unfolding serializer_contract_def sr_prepare_contract_def by blast
  show ?thesis
  proof (cases rv)
    case (Inl e)
    with p rv that(1) show ?thesis by simp
  next
    case (Inr bufs)
    with p rv that(2) show ?thesis by auto
  qed
qed

lemma sr_consumeE:
  assumes "serializer_contract S V" "offered V s bufs" "unat n \<le> length (concat bufs)"
  obtains s1 where "sr_consume S n s = Inr s1" "ready V s1"
    "pending V s1 = drop (unat n) (pending V s)"
  using assms unfolding serializer_contract_def sr_consume_contract_def by blast

lemma sr_is_done_iff:
  "serializer_contract S V \<Longrightarrow> ready V s \<Longrightarrow> sr_is_done S s \<longleftrightarrow> pending V s = []"
  unfolding serializer_contract_def sr_consume_contract_def by blast

text \<open>A stream's \<open>async_write_some\<close> takes no more bytes than the buffers hold and
  reports success only with at least one byte (for buffers that are not empty).\<close>

definition write_stream_ok :: "byte list list \<Rightarrow> write_done \<Rightarrow> bool" where
  "write_stream_ok bufs c \<longleftrightarrow>
     unat (snd c) \<le> length (concat bufs) \<and>
     (fst c = Success \<and> concat bufs \<noteq> [] \<longrightarrow> snd c \<noteq> 0)"

subsection \<open>A serializer that satisfies the contract\<close>

text \<open>For the witnesses: a string of bytes, offered in two buffers of two bytes.\<close>

definition small_sr :: "byte list serializer_ops" where
  "small_sr =
     \<lparr>sr_prepare = (\<lambda>s. Inr (Inr [take 2 s, take 2 (drop 2 s)], s)),
      sr_consume = (\<lambda>n s. Inr (drop (unat n) s)),
      sr_is_done = (\<lambda>s. s = [])\<rparr>"

definition small_sr_view :: "byte list serializer_view" where
  "small_sr_view =
     \<lparr>ready = (\<lambda>_. True),
      offered = (\<lambda>s bufs. bufs = [take 2 s, take 2 (drop 2 s)]), pending = (\<lambda>s. s)\<rparr>"

lemma small_sr_contract: "serializer_contract small_sr small_sr_view"
proof -
  have "\<exists>more. s = (take 2 s @ take 2 (drop 2 s)) @ more" for s :: "byte list"
    by (rule exI [of _ "drop 2 (drop 2 s)"]) (simp only: append_assoc append_take_drop_id)
  then show ?thesis
    unfolding serializer_contract_def sr_prepare_contract_def sr_consume_contract_def
    by (auto simp: small_sr_def small_sr_view_def)
qed

section \<open>One \<open>async_write_some\<close>\<close>

text \<open>\<open>moved V w0 w d\<close>: between the states \<open>w0\<close> and \<open>w\<close> the bytes \<open>d\<close> have gone from
  the front of the message to the end of what the stream has accepted.\<close>

definition moved :: "'s serializer_view \<Rightarrow> 's wire \<Rightarrow> 's wire \<Rightarrow> byte list \<Rightarrow> bool" where
  "moved V w0 w d \<longleftrightarrow>
     pending V (wr_sr w0) = d @ pending V (wr_sr w) \<and> wr_sent w = wr_sent w0 @ d"

lemma moved_refl: "moved V w w []"
  by (simp add: moved_def)

lemma moved_trans: "moved V w0 w1 d \<Longrightarrow> moved V w1 w2 e \<Longrightarrow> moved V w0 w2 (d @ e)"
  by (simp add: moved_def)

definition some_inv ::
  "'s serializer_view \<Rightarrow> 's wire \<Rightarrow> write_done event list \<Rightarrow>
   byte list list effect \<Rightarrow> write_some_op \<Rightarrow> 's wire \<Rightarrow> bool" where
  "some_inv V w0 h eff q w \<longleftrightarrow>
     (case eff of
        Starts bufs \<Rightarrow> h = [] \<and> ws_at q = After_io \<and> offered V (wr_sr w) bufs \<and>
          concat bufs \<noteq> [] \<and> moved V w0 w [] \<and>
          (\<exists>more. pending V (wr_sr w) = concat bufs @ more)
      | Posts e m \<Rightarrow> h = [] \<and> ws_at q = After_post \<and> failed e \<and> m = 0 \<and> moved V w0 w []
      | Completes e m \<Rightarrow> length h = 1 \<and>
          (\<exists>d. moved V w0 w d \<and> m = bytes_size d \<and>
             (e = Success \<longrightarrow> d \<noteq> [] \<and> ready V (wr_sr w)))
      | Ends \<Rightarrow> False)"

lemma some_call_inv:
  assumes C: "serializer_contract S V" and I: "some_inv V w0 h (Starts bufs) q w"
    and ok: "write_stream_ok bufs c" and r: "write_recv bufs c w = (ec, n, w1)"
  shows "result_sat (some_inv V w0 (h @ [Done c])) (\<lambda>_. False) (write_some_resume S q w1 ec n)"
proof -
  from I obtain more where I': "h = []" "ws_at q = After_io" "offered V (wr_sr w) bufs"
    "concat bufs \<noteq> []" "moved V w0 w []" "pending V (wr_sr w) = concat bufs @ more"
    by (auto simp: some_inv_def)
  from r ok have c: "ec = fst c" "n = snd c" "wr_sr w1 = wr_sr w"
    "wr_sent w1 = wr_sent w @ take (unat n) (concat bufs)" and n: "unat n \<le> length (concat bufs)"
    and s: "ec = Success \<Longrightarrow> n \<noteq> 0"
    using I'(4) by (auto simp: write_recv_def write_stream_ok_def)
  from sr_consumeE [OF C I'(3) n] obtain s1 where q: "sr_consume S n (wr_sr w) = Inr s1"
    "ready V s1" "pending V s1 = drop (unat n) (pending V (wr_sr w))" by blast
  let ?d = "take (unat n) (concat bufs)"
  have "moved V w0 (w1\<lparr>wr_sr := s1\<rparr>) ?d"
    using I'(5,6) c(4) q(3) n by (auto simp: moved_def)
  moreover have "bytes_size ?d = n"
    using n by (simp add: bytes_size_def min_def)
  moreover have "ec = Success \<Longrightarrow> ?d \<noteq> []"
    using s I'(4) by (auto simp: unat_eq_zero)
  ultimately show ?thesis
    using I' c q by (auto simp: write_some_resume_def write_some_call_def
        write_some_upcall_def some_inv_def intro!: exI [of _ ?d])
qed

lemma some_init_inv:
  assumes "serializer_contract S V" "ready V (wr_sr w0)" "pending V (wr_sr w0) \<noteq> []"
  shows "result_sat (some_inv V w0 []) (\<lambda>_. False)
    (write_some_resume S write_some_op_new w0 Success 0)"
  using assms
  by (rule sr_prepareE) (auto simp: write_some_defs write_some_op_new_def some_inv_def moved_def)

lemma some_post_inv:
  "some_inv V w0 h (Posts e m) q w \<Longrightarrow>
   result_sat (some_inv V w0 (h @ [Ready])) (\<lambda>_. False) (write_some_resume S q w e m)"
  by (auto simp: write_some_defs some_inv_def)

lemma some_outcome:
  assumes C: "serializer_contract S V" and "ready V (wr_sr w0)" "pending V (wr_sr w0) \<noteq> []"
    and ok: "launch_complies (write_some_resume S) write_recv write_stream_ok
      write_some_op_new w0 ev"
  shows "outcome_sat (some_inv V w0) (\<lambda>_. False) ev (async_write_some S w0 ev)"
  unfolding async_write_some_def
  by (rule launch_rule [OF some_init_inv [OF assms(1-3)] some_post_inv some_call_inv [OF C] ok])

text \<open>C26: \<open>async_write_some\<close> moves a prefix of the rest of the message to the stream:
  what the stream has accepted and what the serializer still holds always add up to
  the same message, also when the write fails, and the count reported is the number of
  bytes moved. Success means that at least one byte was moved. It takes one event.\<close>

theorem write_some_result:
  assumes "serializer_contract S V" "ready V (wr_sr w)" "pending V (wr_sr w) \<noteq> []"
    and "launch_complies (write_some_resume S) write_recv write_stream_ok write_some_op_new w ev"
    and "async_write_some S w ev = Finished ec n w' rest"
  shows "\<exists>e d. ev = e # rest \<and> pending V (wr_sr w) = d @ pending V (wr_sr w') \<and>
    wr_sent w' = wr_sent w @ d \<and> n = bytes_size d \<and> (ec = Success \<longrightarrow> d \<noteq> [])"
  using some_outcome [OF assms(1-4)] assms(5)
  by (fastforce simp: some_inv_def moved_def length_Suc_conv)

definition small_wire :: "byte list \<Rightarrow> byte list \<Rightarrow> byte list wire" where
  "small_wire rest sent = \<lparr>wr_sr = rest, wr_sent = sent\<rparr>"

theorem write_some_result_witness:
  "\<exists>e d. [Done (Success, 3 :: size_t), Ready] = e # [Ready] \<and>
    pending small_sr_view (wr_sr (small_wire [1, 2, 3, 4, 5] [])) =
      d @ pending small_sr_view (wr_sr (small_wire [4, 5] [1, 2, 3])) \<and>
    wr_sent (small_wire [4, 5] [1, 2, 3]) = wr_sent (small_wire [1, 2, 3, 4, 5] []) @ d \<and>
    (3 :: size_t) = bytes_size d \<and> (Success = Success \<longrightarrow> d \<noteq> [])"
proof (rule write_some_result [OF small_sr_contract])
  show "launch_complies (write_some_resume small_sr) write_recv write_stream_ok
      write_some_op_new (small_wire [1, 2, 3, 4, 5] []) [Done (Success, 3), Ready]"
    by code_simp
  show "async_write_some small_sr (small_wire [1, 2, 3, 4, 5] []) [Done (Success, 3), Ready] =
      Finished Success 3 (small_wire [4, 5] [1, 2, 3]) [Ready]"
    by code_simp
qed (simp_all add: small_sr_view_def small_wire_def)

section \<open>The whole \<open>async_write\<close>\<close>

text \<open>The scripts in which every inner operation's I/O keeps the stream's contract.\<close>

function write_complies ::
  "'s serializer_ops \<Rightarrow> write_done event list \<Rightarrow> unit effect \<Rightarrow> write_op \<Rightarrow> 's wire \<Rightarrow> bool" where
  "write_complies S ev eff op w =
     (eff = Starts () \<longrightarrow>
        launch_complies (write_some_resume S) write_recv write_stream_ok write_some_op_new w ev \<and>
        (case async_write_some S w ev of
           Finished ec n w1 rest \<Rightarrow>
             (case write_op_call S op w1 ec n of
                Inl f \<Rightarrow> True
              | Inr (eff', op', w2) \<Rightarrow> write_complies S rest eff' op' w2)
         | Waiting eff1 q w1 rest \<Rightarrow> True
         | Threw f \<Rightarrow> True))"
  by pat_completeness auto
termination
  by (relation "measure (\<lambda>(S, ev, eff, op, w). length ev)")
    (auto simp: async_write_some_def dest: ws.launch_consumes)

declare write_complies.simps [simp del]

lemma write_complies_Nil: "write_complies S [] eff op w"
  by (subst write_complies.simps)
    (auto simp: async_write_some_def ws.launch_Nil split: outcome.split)

lemma write_complies_one:
  assumes "\<And>bufs. write_stream_ok bufs c"
  shows "write_complies S [Done c] eff op w"
proof -
  have "rest = []" if "async_write_some S w [Done c] = Finished ec n w1 rest" for ec n w1 rest
    using that unfolding async_write_some_def by (auto dest: ws.launch_consumes)
  with assms write_complies_Nil show ?thesis
    by (subst write_complies.simps) (auto simp: launch_complies_one split: outcome.split sum.split)
qed

definition async_write_complies ::
  "'s serializer_ops \<Rightarrow> 's wire \<Rightarrow> write_done event list \<Rightarrow> bool" where
  "async_write_complies S w ev =
     write_complies S ev (Starts ()) (write_op_new\<lparr>wo_at := After_io\<rparr>) w"

lemma async_write_run:
  "async_write S w ev = write_run S ev (Starts ()) (write_op_new\<lparr>wo_at := After_io\<rparr>) w"
  by (simp add: async_write_def write_op_call_def write_op_new_def)

text \<open>What holds of the outer operation whenever it waits for an inner one and when it
  completes. \<open>w0\<close> is the state in which \<open>async_write\<close> was called.\<close>

definition write_inv ::
  "'s serializer_view \<Rightarrow> 's wire \<Rightarrow> unit effect \<Rightarrow> write_op \<Rightarrow> 's wire \<Rightarrow> bool" where
  "write_inv V w0 eff op w \<longleftrightarrow>
     (\<exists>d. moved V w0 w d \<and>
       (case eff of
          Starts u \<Rightarrow> wo_at op = After_io \<and> wo_n op = bytes_size d \<and>
            ready V (wr_sr w) \<and> pending V (wr_sr w) \<noteq> []
        | Completes ec n \<Rightarrow> n = bytes_size d \<and> (ec = Success \<longrightarrow> pending V (wr_sr w) = [])
        | _ \<Rightarrow> False))"

lemma write_op_call_inv:
  assumes C: "serializer_contract S V" and I: "write_inv V w0 (Starts u) op w"
    and m: "moved V w w1 d" and s: "ec = Success \<Longrightarrow> ready V (wr_sr w1)"
  shows "\<exists>eff op' w2. write_op_call S op w1 ec (bytes_size d) = Inr (eff, op', w2) \<and>
    write_inv V w0 eff op' w2 \<and> w2 = w1 \<and> (failed ec \<longrightarrow> eff = Completes ec (wo_n op'))"
proof -
  from I obtain d0 where "wo_at op = After_io" "wo_n op = bytes_size d0" "moved V w0 w d0"
    by (auto simp: write_inv_def)
  then show ?thesis
    using m s moved_trans [of V w0 w d0 w1 d] sr_is_done_iff [OF C]
    by (cases "failed ec"; cases "sr_is_done S (wr_sr w1)")
      (auto simp: write_op_call_def write_inv_def Let_def)
qed

fun write_sat ::
  "'s serializer_view \<Rightarrow> 's wire \<Rightarrow>
   (byte list list, write_op \<times> write_some_op, 's wire, write_done) outcome \<Rightarrow> bool" where
  "write_sat V w0 (Finished ec n w rest) \<longleftrightarrow>
     (\<exists>d. moved V w0 w d \<and> n = bytes_size d \<and> (ec = Success \<longrightarrow> pending V (wr_sr w) = []))"
| "write_sat V w0 (Waiting eff q w rest) \<longleftrightarrow> (\<exists>d. moved V w0 w d)"
| "write_sat V w0 (Threw f) \<longleftrightarrow> False"

lemma write_run_sat:
  assumes C: "serializer_contract S V"
  shows "write_inv V w0 eff op w \<Longrightarrow> write_complies S ev eff op w \<Longrightarrow>
    write_sat V w0 (write_run S ev eff op w)"
proof (induction S\<equiv>S ev eff op w rule: write_run.induct)
  case (1 ev ec n op w)
  then show ?case by (auto simp: write_inv_def)
next
  case (2 ev u op w)
  from 2(2) obtain d0 where I: "ready V (wr_sr w)" "pending V (wr_sr w) \<noteq> []" "moved V w0 w d0"
    by (auto simp: write_inv_def)
  from 2(3) have ok: "launch_complies (write_some_resume S) write_recv write_stream_ok
      write_some_op_new w ev" by (simp add: write_complies.simps)
  note out = some_outcome [OF C I(1,2) ok]
  show ?case
  proof (cases "async_write_some S w ev")
    case (Finished ec n w1 rest)
    with out obtain d where d: "moved V w w1 d" "n = bytes_size d"
      "ec = Success \<Longrightarrow> ready V (wr_sr w1)" by (auto simp: some_inv_def)
    from write_op_call_inv [OF C 2(2) d(1,3)] d(2) obtain eff' op' w2
      where c: "write_op_call S op w1 ec n = Inr (eff', op', w2)" "write_inv V w0 eff' op' w2"
      by blast
    from 2(3) Finished c have "write_complies S rest eff' op' w2"
      by (subst (asm) write_complies.simps) simp
    from 2(1) [OF Finished c(1) refl refl c(2) this] Finished c(1) show ?thesis by simp
  next
    case (Waiting eff1 q w1 rest)
    with out I(3) show ?thesis
      by (cases eff1) (auto simp: some_inv_def dest: moved_trans)
  qed (use out in simp)
qed (auto simp: write_inv_def)

lemma write_inv_start:
  "ready V (wr_sr w) \<Longrightarrow> pending V (wr_sr w) \<noteq> [] \<Longrightarrow>
   write_inv V w (Starts ()) (write_op_new\<lparr>wo_at := After_io\<rparr>) w"
  by (auto simp: write_inv_def write_op_new_def intro!: exI [of _ "[]"] moved_refl)

lemma async_write_sat:
  assumes "serializer_contract S V" "ready V (wr_sr w)" "pending V (wr_sr w) \<noteq> []"
    and "async_write_complies S w ev"
  shows "write_sat V w (async_write S w ev)"
  using write_run_sat [OF assms(1) write_inv_start [OF assms(2,3)]] assms(4)
  by (simp add: async_write_run async_write_complies_def)

text \<open>C2: \<open>async_write\<close> succeeds only when the whole message has been written: what
  the stream has accepted is exactly the message, in order. When it fails, the stream has
  accepted a prefix and the serializer holds the rest, so nothing is lost or sent twice.
  The count it reports is the number of bytes accepted.\<close>

theorem async_write_result:
  assumes "serializer_contract S V" "ready V (wr_sr w)" "pending V (wr_sr w) \<noteq> []"
    and "async_write_complies S w ev"
    and "async_write S w ev = Finished ec n w' rest"
  shows "\<exists>d. wr_sent w' = wr_sent w @ d \<and> pending V (wr_sr w) = d @ pending V (wr_sr w') \<and>
    n = bytes_size d \<and> (ec = Success \<longrightarrow> d = pending V (wr_sr w))"
  using async_write_sat [OF assms(1-4)] assms(5) by (fastforce simp: moved_def)

theorem async_write_result_witness:
  "\<exists>d. wr_sent (small_wire [] [9, 1, 2, 3, 4, 5]) = wr_sent (small_wire [1, 2, 3, 4, 5] [9]) @ d \<and>
    pending small_sr_view (wr_sr (small_wire [1, 2, 3, 4, 5] [9])) =
      d @ pending small_sr_view (wr_sr (small_wire [] [9, 1, 2, 3, 4, 5])) \<and>
    (5 :: size_t) = bytes_size d \<and>
    (Success = Success \<longrightarrow> d = pending small_sr_view (wr_sr (small_wire [1, 2, 3, 4, 5] [9])))"
proof (rule async_write_result [OF small_sr_contract])
  show "async_write_complies small_sr (small_wire [1, 2, 3, 4, 5] [9])
      [Done (Success, 3), Done (Success, 2)]"
    by code_simp
  show "async_write small_sr (small_wire [1, 2, 3, 4, 5] [9])
      [Done (Success, 3), Done (Success, 2)] =
      Finished Success 5 (small_wire [] [9, 1, 2, 3, 4, 5]) []"
    by code_simp
qed (simp_all add: small_sr_view_def small_wire_def)

text \<open>With a serializer and a stream that keep their contracts \<open>async_write\<close> never
  throws.\<close>

lemma async_write_no_throw:
  assumes "serializer_contract S V" "ready V (wr_sr w)" "pending V (wr_sr w) \<noteq> []"
    and "async_write_complies S w ev"
  shows "async_write S w ev \<noteq> Threw f"
  using async_write_sat [OF assms] by auto

text \<open>With nothing but completions of the stream, an inner operation uses one of them
  or has had an error from the serializer and waits for its posted handler.\<close>

lemma some_done:
  assumes C: "serializer_contract S V" and "ready V (wr_sr w)" "pending V (wr_sr w) \<noteq> []"
    and ok: "launch_complies (write_some_resume S) write_recv write_stream_ok write_some_op_new
      w (map Done cs)" and "cs \<noteq> []"
  shows "(\<exists>ec d w'. async_write_some S w (map Done cs) =
        Finished ec (bytes_size d) w' (map Done (tl cs)) \<and> moved V w w' d \<and>
        (ec = Success \<longrightarrow> d \<noteq> [] \<and> ready V (wr_sr w'))) \<or>
    (\<exists>e q w' rest. async_write_some S w (map Done cs) = Waiting (Posts e 0) q w' rest \<and> failed e)"
proof (cases "async_write_some S w (map Done cs)")
  case (Finished ec n w' rest)
  with some_outcome [OF C assms(2,3) ok] show ?thesis
    by (cases cs) (auto simp: some_inv_def length_Suc_conv Cons_eq_append_conv)
next
  case (Waiting eff q w' rest)
  from some_outcome [OF C assms(2,3) ok] Waiting obtain used
    where u: "map Done cs = used @ rest" and I: "some_inv V w used eff q w'" by auto
  note W = launch_Waiting(1) [OF Waiting [unfolded async_write_some_def]]
  show ?thesis
  proof (cases eff)
    case (Starts bufs)
    from launch_uses_all [OF Waiting [unfolded async_write_some_def Starts] u] I \<open>cs \<noteq> []\<close>
    show ?thesis by (simp add: some_inv_def Starts)
  qed (use I W Waiting in \<open>auto simp: some_inv_def\<close>)
qed (use some_outcome [OF C assms(2,3) ok] in simp)

lemma write_run_progress:
  assumes C: "serializer_contract S V"
  shows "write_inv V w0 (Starts ()) op w \<Longrightarrow> write_complies S (map Done cs) (Starts ()) op w \<Longrightarrow>
    length (pending V (wr_sr w)) \<le> length cs \<Longrightarrow>
    (\<exists>ec n w' rest. write_run S (map Done cs) (Starts ()) op w = Finished ec n w' rest) \<or>
    (\<exists>e q w' rest. write_run S (map Done cs) (Starts ()) op w = Waiting (Posts e 0) q w' rest)"
proof (induction cs arbitrary: op w)
  case Nil
  then show ?case by (auto simp: write_inv_def)
next
  case (Cons c cs)
  from Cons.prems(1) have I: "ready V (wr_sr w)" "pending V (wr_sr w) \<noteq> []"
    by (auto simp: write_inv_def)
  from Cons.prems(2) have ok: "launch_complies (write_some_resume S) write_recv write_stream_ok
      write_some_op_new w (map Done (c # cs))" by (subst (asm) write_complies.simps) simp
  from some_done [OF C I ok] consider
      ec d w1 where "async_write_some S w (map Done (c # cs)) =
        Finished ec (bytes_size d) w1 (map Done cs)" "moved V w w1 d"
        "ec = Success \<Longrightarrow> d \<noteq> [] \<and> ready V (wr_sr w1)"
    | e q w' rest where "async_write_some S w (map Done (c # cs)) = Waiting (Posts e 0) q w' rest"
    by auto
  then show ?case
  proof cases
    case 1
    from write_op_call_inv [OF C Cons.prems(1) 1(2)] 1(3) obtain eff op' where
      c: "write_op_call S op w1 ec (bytes_size d) = Inr (eff, op', w1)"
        "write_inv V w0 eff op' w1" "failed ec \<longrightarrow> eff = Completes ec (wo_n op')" by blast
    show ?thesis
    proof (cases "eff = Starts ()")
      case True
      with c(3) 1(3) have "d \<noteq> []" by auto
      then have "1 \<le> length d" by (cases d) auto
      moreover from 1(2) have
        "length (pending V (wr_sr w)) = length d + length (pending V (wr_sr w1))"
        by (simp add: moved_def)
      ultimately have len: "length (pending V (wr_sr w1)) \<le> length cs"
        using Cons.prems(3) by simp
      from Cons.prems(2) 1(1) c(1) True have "write_complies S (map Done cs) (Starts ()) op' w1"
        by (subst (asm) write_complies.simps) simp
      from Cons.IH [OF c(2) [unfolded True] this len] show ?thesis
        using 1(1) c(1) True by simp
    next
      case False
      with c(2) obtain m e where "eff = Completes e m"
        by (cases eff) (auto simp: write_inv_def)
      with 1(1) c(1) show ?thesis by simp
    qed
  next
    case 2
    then show ?thesis by simp
  qed
qed

text \<open>\<open>async_write\<close> completes: after as many writes of the stream as the message has
  bytes it has completed, or the serializer's \<open>prepare\<close> has reported an error and the
  completion with that error is posted.\<close>

lemma async_write_terminates:
  assumes "serializer_contract S V" "ready V (wr_sr w)" "pending V (wr_sr w) \<noteq> []"
    and "async_write_complies S w (map Done cs)"
    and "length (pending V (wr_sr w)) \<le> length cs"
  shows "(\<exists>ec n w' rest. async_write S w (map Done cs) = Finished ec n w' rest) \<or>
    (\<exists>e q w' rest. async_write S w (map Done cs) = Waiting (Posts e 0) q w' rest)"
  using write_run_progress [OF assms(1) write_inv_start [OF assms(2,3)]] assms(4,5)
  by (simp add: async_write_run async_write_complies_def)


end
