(* ===== verification/Request_Text.thy ===== *)
theory Request_Text
  imports Http_Prelude
begin

text \<open>
  The text functions of \<open>example/server/main.cpp\<close>: \<open>get_extension\<close>, \<open>mime_type\<close> and
  \<open>path_cat\<close>, on \<open>string\<close>s of 8 bit characters, with the members of
  \<open>string_view\<close> and \<open>std::string\<close> they call. Then what they are for: the path a request is
  mapped to lies, component by component, inside the document root.
\<close>

section \<open>Members of \<open>string_view\<close>\<close>

text \<open>\<open>rfind\<close> and \<open>find\<close> of a string; \<open>None\<close> is \<open>npos\<close>.\<close>

fun str_find :: "string \<Rightarrow> string \<Rightarrow> nat option" where
  "str_find pat [] = (if pat = [] then Some 0 else None)"
| "str_find pat (c # s) =
     (if take (length pat) (c # s) = pat then Some 0
      else map_option Suc (str_find pat s))"

fun str_rfind :: "string \<Rightarrow> string \<Rightarrow> nat option" where
  "str_rfind pat [] = (if pat = [] then Some 0 else None)"
| "str_rfind pat (c # s) =
     (case str_rfind pat s of
        Some i \<Rightarrow> Some (Suc i)
      | None \<Rightarrow> if take (length pat) (c # s) = pat then Some 0 else None)"

text \<open>\<open>c_str()\<close> as a function of the operating system reads it.\<close>

definition c_str :: "string \<Rightarrow> string" where
  "c_str s = takeWhile (\<lambda>c. c \<noteq> CHR 0x00) s"

lemma str_find_None_append:
  "str_find pat (xs @ ys) = None \<Longrightarrow> str_find pat ys = None"
  by (induction xs) (auto split: if_splits)

lemma str_find_prefix: "pat \<noteq> [] \<Longrightarrow> str_find pat (pat @ ys) \<noteq> None"
  by (cases pat) auto

text \<open>Nothing between two parts of a string in which \<open>pat\<close> is not found is \<open>pat\<close>.\<close>

lemma str_find_None_infix:
  "str_find pat s = None \<Longrightarrow> s = xs @ ys @ zs \<Longrightarrow> pat \<noteq> [] \<Longrightarrow> ys \<noteq> pat"
  using str_find_None_append [of pat xs "ys @ zs"] str_find_prefix [of pat zs] by auto

lemma str_rfind_drop:
  "str_rfind pat s = Some i \<Longrightarrow> str_rfind pat (drop i s) = Some 0"
proof (induction s arbitrary: i)
  case (Cons c s)
  then show ?case by (cases i) (auto split: option.splits if_splits)
qed (simp split: if_splits)

section \<open>\<open>get_extension\<close> and \<open>mime_type\<close>\<close>

definition get_extension :: "string \<Rightarrow> string" where
  "get_extension path =
     (case str_rfind ''.'' path of
        None \<Rightarrow> ''''
      | Some pos \<Rightarrow> drop pos path)"

text \<open>\<open>ci_is_equal\<close> (\<open>urls::grammar::ci_is_equal\<close>, not part of the repository) is the
  parameter \<open>ci\<close>.\<close>

definition mime_type :: "(string \<Rightarrow> string \<Rightarrow> bool) \<Rightarrow> string \<Rightarrow> string" where
  "mime_type ci path =
     (let ext = get_extension path in
      if ci ext ''.htm'' then ''text/html''
      else if ci ext ''.html'' then ''text/html''
      else if ci ext ''.php'' then ''text/html''
      else if ci ext ''.css'' then ''text/css''
      else if ci ext ''.txt'' then ''text/plain''
      else if ci ext ''.js'' then ''application/javascript''
      else if ci ext ''.json'' then ''application/json''
      else if ci ext ''.xml'' then ''application/xml''
      else if ci ext ''.swf'' then ''application/x-shockwave-flash''
      else if ci ext ''.flv'' then ''video/x-flv''
      else if ci ext ''.png'' then ''image/png''
      else if ci ext ''.jpe'' then ''image/jpeg''
      else if ci ext ''.jpeg'' then ''image/jpeg''
      else if ci ext ''.jpg'' then ''image/jpeg''
      else if ci ext ''.gif'' then ''image/gif''
      else if ci ext ''.bmp'' then ''image/bmp''
      else if ci ext ''.ico'' then ''image/vnd.microsoft.icon''
      else if ci ext ''.tiff'' then ''image/tiff''
      else if ci ext ''.tif'' then ''image/tiff''
      else if ci ext ''.svg'' then ''image/svg+xml''
      else if ci ext ''.svgz'' then ''image/svg+xml''
      else ''application/text'')"

lemma get_extension_idem: "get_extension (get_extension path) = get_extension path"
  by (auto simp: get_extension_def dest: str_rfind_drop split: option.split)

text \<open>\<open>get_extension\<close> gives a suffix of the path that starts with its last dot: what
  follows the first character holds no further dot.\<close>

lemma str_rfind_dot_None: "str_rfind ''.'' s = None \<longleftrightarrow> CHR ''.'' \<notin> set s"
  by (induction s) (auto split: option.splits)

lemma str_rfind_dot_Some:
  "str_rfind ''.'' s = Some i \<Longrightarrow>
   \<exists>ext. s = take i s @ CHR ''.'' # ext \<and> drop i s = CHR ''.'' # ext \<and> CHR ''.'' \<notin> set ext"
proof (induction s arbitrary: i)
  case (Cons c s)
  then show ?case
    by (cases i) (auto split: option.splits if_splits simp: str_rfind_dot_None)
qed simp

text \<open>\<open>get_extension\<close> returns the part of the path from its last dot on, and the
  empty string when there is no dot; taking the extension twice, as \<open>handle_request\<close>
  and \<open>mime_type\<close> together do, changes nothing.\<close>

lemma get_extension_spec:
  "(CHR ''.'' \<notin> set path \<longrightarrow> get_extension path = '''') \<and>
   (CHR ''.'' \<notin> set ext \<longrightarrow> get_extension (stem @ CHR ''.'' # ext) = CHR ''.'' # ext) \<and>
   mime_type ci (get_extension path) = mime_type ci path"
proof (intro conjI impI)
  assume "CHR ''.'' \<notin> set path"
  then show "get_extension path = ''''"
    by (simp add: get_extension_def flip: str_rfind_dot_None)
next
  assume e: "CHR ''.'' \<notin> set ext"
  have "str_rfind ''.'' (stem @ CHR ''.'' # ext) = Some (length stem)"
    using e by (induction stem) (simp_all add: str_rfind_dot_None [symmetric])
  then show "get_extension (stem @ CHR ''.'' # ext) = CHR ''.'' # ext"
    by (simp add: get_extension_def)
qed (simp add: mime_type_def get_extension_idem)

section \<open>\<open>path_cat\<close>\<close>

text \<open>
  Both branches of the \<open>#ifdef BOOST_MSVC\<close>: \<open>msvc\<close> says which one is compiled.
  \<open>result.back()\<close> is only read when \<open>base\<close> is not empty.
\<close>

definition path_cat :: "bool \<Rightarrow> string \<Rightarrow> string \<Rightarrow> string" where
  "path_cat msvc base path =
     (if base = [] then path
      else if msvc then
        (let sep = CHR 0x5C;
             r1 = (if last base = sep then butlast base else base);
             r2 = r1 @ path
         in map (\<lambda>c. if c = CHR ''/'' then sep else c) r2)
      else
        (let sep = CHR ''/'';
             r1 = (if last base = sep then butlast base else base)
         in r1 @ path))"

section \<open>Paths by components\<close>

text \<open>How a file system reads a path: components separated by \<open>'/'\<close>, where empty ones
  and \<open>.\<close> stay in the directory and \<open>..\<close> leaves it.\<close>

fun components :: "string \<Rightarrow> string list" where
  "components [] = [[]]"
| "components (c # s) =
     (if c = CHR ''/'' then [] # components s
      else (case components s of [] \<Rightarrow> [[c]] | d # ds \<Rightarrow> (c # d) # ds))"

fun walk :: "string list \<Rightarrow> string list \<Rightarrow> string list" where
  "walk dir [] = dir"
| "walk dir (c # cs) =
     (if c = '''' \<or> c = ''.'' then walk dir cs
      else if c = ''..'' then walk (butlast dir) cs
      else walk (dir @ [c]) cs)"

definition resolve :: "string \<Rightarrow> string list" where
  "resolve p = walk [] (components p)"

lemma components_nonempty [simp]: "components s \<noteq> []"
  by (cases s) (auto split: list.split)

lemma components_slash: "components (xs @ CHR ''/'' # ys) = components xs @ components ys"
  by (induction xs) (auto split: list.split simp: Cons_eq_append_conv)

lemma components_infix: "d \<in> set (components s) \<Longrightarrow> \<exists>xs ys. s = xs @ d @ ys"
proof (induction s arbitrary: d)
  case (Cons c s)
  obtain e es where e: "components s = e # es" by (cases "components s") simp_all
  have pre: "\<exists>ys. s = e @ ys" using e
  proof (induction s arbitrary: e es)
    case (Cons b s)
    then show ?case by (cases "components s") (auto split: if_splits)
  qed simp
  show ?case
  proof (cases "c = CHR ''/'' \<or> d \<noteq> c # e")
    case True
    with Cons.prems e consider "d = []" | "d \<in> set (components s)"
      by (auto split: if_splits)
    then show ?thesis
    proof cases
      case 2
      from Cons.IH [OF this] obtain xs ys where "s = xs @ d @ ys" by blast
      then have "c # s = (c # xs) @ d @ ys" by simp
      then show ?thesis by blast
    qed auto
  next
    case False
    with pre have "\<exists>ys. c # s = [] @ d @ ys" by auto
    then show ?thesis by blast
  qed
qed simp

lemma walk_append: "walk dir (cs @ ds) = walk (walk dir cs) ds"
  by (induction dir cs rule: walk.induct) simp_all

lemma walk_inside: "''..'' \<notin> set cs \<Longrightarrow> \<exists>inner. walk dir cs = dir @ inner"
proof (induction dir cs rule: walk.induct)
  case (2 dir c cs)
  then show ?case by (cases "c = '''' \<or> c = ''.''") auto
qed simp

lemma no_dotdot_component:
  "str_find ''..'' s = None \<Longrightarrow> ''..'' \<notin> set (components s)"
  using components_infix str_find_None_infix by blast

text \<open>Removing the separator at the end of the root does not change where it leads.\<close>

lemma resolve_trailing_slash: "resolve (r @ ''/'') = resolve r"
  by (simp add: resolve_def components_slash walk_append)

text \<open>C30: A path that starts with a slash and has no \<open>..\<close> in it stays inside the document
  root it is appended to: resolved component by component, the result of \<open>path_cat\<close> is
  the resolved root followed by further components.\<close>

theorem path_cat_contained:
  assumes "root \<noteq> ''''" and "path = CHR ''/'' # rest" and "str_find ''..'' path = None"
  shows "\<exists>inner. resolve (path_cat False root path) = resolve root @ inner"
proof -
  let ?r = "if last root = CHR ''/'' then butlast root else root"
  from assms(1,2) have "path_cat False root path = ?r @ CHR ''/'' # rest"
    by (simp add: path_cat_def Let_def)
  then have "resolve (path_cat False root path) = walk (resolve ?r) (components rest)"
    by (simp add: resolve_def components_slash walk_append)
  moreover have "resolve ?r = resolve root"
    using append_butlast_last_id [OF assms(1)] resolve_trailing_slash [of "butlast root"]
    by auto
  moreover have "''..'' \<notin> set (components rest)"
  proof (rule no_dotdot_component)
    from assms(2,3) show "str_find ''..'' rest = None" by (auto split: if_splits)
  qed
  ultimately show ?thesis using walk_inside by metis
qed

theorem path_cat_contained_witness:
  "\<exists>inner. resolve (path_cat False ''/srv/www/'' ''/a/./b.html'') = resolve ''/srv/www/'' @ inner"
  by (rule path_cat_contained [where rest = "''a/./b.html''"]) simp_all

end
