(* ===== verification/Responses.thy ===== *)
theory Responses
  imports Request_Text
begin

text \<open>
  The responses of \<open>example/server/main.cpp\<close>: \<open>make_error_response\<close>, \<open>handle_request\<close>
  and \<open>service_unavailable\<close>. The containers of Boost.HttpProto are not part of the
  repository: a request is known by what the code asks of it, a response is the list of
  the calls made on it since \<open>clear()\<close>, and what is handed to \<open>serializer::start\<close> is the
  result. The library functions called are the fields of \<open>server_lib\<close>.
\<close>

section \<open>Requests, responses and the library\<close>

datatype version = Http_1_0 | Http_1_1

datatype status =
    Status_ok
  | Status_bad_request
  | Status_not_found
  | Status_internal_server_error
  | Status_service_unavailable

datatype field = Content_type | Date | Server

text \<open>\<open>rq_host\<close> is \<open>value_or(field::host, "")\<close>.\<close>

record request =
  rq_target_text :: string
  rq_version :: version
  rq_keep_alive :: bool
  rq_host :: string

datatype res_call =
    Set_start_line status version
  | Set_keep_alive bool
  | Set_payload_size size_t
  | Append field string
  | Set_field field string

type_synonym response = "res_call list"

datatype 'f body =
    String_body string
  | File_body 'f size_t

text \<open>
  \<open>parse_authority\<close> gives, when the text is an authority, its \<open>host_address()\<close> and
  \<open>port()\<close>; \<open>status_int\<close> is the cast of a status to its underlying integer;
  \<open>file_open\<close> and \<open>file_size\<close> are \<open>http_proto::file::open\<close> (in scan mode) and \<open>size\<close>
  with the error code they set.
\<close>

record 'f server_lib =
  parse_authority :: "string \<Rightarrow> (string \<times> string) option"
  status_int :: "status \<Rightarrow> nat"
  obsolete_reason :: "status \<Rightarrow> string"
  res_version :: "response \<Rightarrow> version"
  file_open :: "string \<Rightarrow> error_code \<times> 'f"
  file_size :: "'f \<Rightarrow> error_code \<times> size_t"
  ci_is_equal :: "string \<Rightarrow> string \<Rightarrow> bool"
  is_msvc :: bool

text \<open>\<open>std::to_string\<close> of an unsigned integer.\<close>

fun to_string :: "nat \<Rightarrow> string" where
  "to_string n =
     (if n < 10 then [char_of (48 + n)]
      else to_string (n div 10) @ [char_of (48 + n mod 10)])"

declare to_string.simps [simp del]

abbreviation nl :: string where "nl \<equiv> [CHR 0x0A]"
abbreviation dq :: string where "dq \<equiv> [CHR 0x22]"

section \<open>\<open>make_error_response\<close>\<close>

text \<open>
  The page. \<open>rv->host_address()\<close> and \<open>rv->port()\<close> go through the pointer that
  \<open>result::operator->\<close> returns, null when there is no value; the local \<open>host\<close>, which
  the code guards with \<open>has_value()\<close>, is never used.
\<close>

definition page_head :: "'f server_lib \<Rightarrow> status \<Rightarrow> string" where
  "page_head L code =
     ''<!DOCTYPE HTML PUBLIC '' @ dq @ ''-//IETF//DTD HTML 2.0//EN'' @ dq @ ''>'' @ nl @
     ''<html><head>'' @ nl @
     ''<title>'' @ to_string (status_int L code) @ '' '' @ obsolete_reason L code @
     ''</title>'' @ nl @
     ''</head><body>'' @ nl @
     ''<h1>'' @ obsolete_reason L code @ ''</h1>'' @ nl"

definition page_tail :: "string \<Rightarrow> string \<Rightarrow> string" where
  "page_tail address port =
     ''<hr>'' @ nl @
     ''<address>Boost.Http.IO/1.0b (Win10) Server at '' @ address @ '' Port '' @ port @
     ''</address>'' @ nl @
     ''</body></html>'' @ nl"

definition make_error_response ::
  "'f server_lib \<Rightarrow> status \<Rightarrow> request \<Rightarrow> response \<Rightarrow> failure + (response \<times> 'f body)" where
  "make_error_response L code req res =
     (case parse_authority L (rq_host req) of
        None \<Rightarrow> Inl Null_dereference
      | Some (address, port) \<Rightarrow>
          let s = page_head L code @
                (if code = Status_not_found
                 then ''<p>The requested URL '' @ rq_target_text req @
                      '' was not found on this server.</p>'' @ nl
                 else '''') @
                page_tail address port
          in Inr (res @
               [Set_start_line code (res_version L res),
                Set_keep_alive (rq_keep_alive req),
                Set_payload_size (bytes_size s),
                Append Content_type ''text/html; charset=iso-8859-1'',
                Append Date ''Mon, 12 Dec 2022 03:26:32 GMT'',
                Append Server ''Boost.Http.IO/1.0b (Win10)''],
              String_body s))"

section \<open>\<open>handle_request\<close>\<close>

text \<open>The test on the request target, and the path of the file.\<close>

definition target_rejected :: "string \<Rightarrow> bool" where
  "target_rejected t \<longleftrightarrow>
     t = [] \<or> t ! 0 \<noteq> CHR ''/'' \<or> str_find ''..'' t \<noteq> None"

definition request_path :: "'f server_lib \<Rightarrow> string \<Rightarrow> string \<Rightarrow> string" where
  "request_path L doc_root t =
     path_cat (is_msvc L) doc_root t @ (if last t = CHR ''/'' then ''index.html'' else '''')"

definition handle_request ::
  "'f server_lib \<Rightarrow> string \<Rightarrow> request \<Rightarrow> response \<Rightarrow> failure + (response \<times> 'f body)" where
  "handle_request L doc_root req res =
     (if target_rejected (rq_target_text req)
      then make_error_response L Status_bad_request req res
      else
        (let path = request_path L doc_root (rq_target_text req) in
         case file_open L (c_str path) of (ec, f) \<Rightarrow>
         (case (if failed ec then (ec, 0) else file_size L f) of (ec1, n) \<Rightarrow>
            if \<not> failed ec1
            then Inr (res @
               [Set_start_line Status_ok (rq_version req),
                Set_field Server ''Boost'',
                Set_keep_alive (rq_keep_alive req),
                Set_payload_size n,
                Append Content_type (mime_type (ci_is_equal L) (get_extension path))],
               File_body f n)
            else make_error_response L Status_internal_server_error req res)))"

section \<open>\<open>service_unavailable\<close>\<close>

definition service_unavailable ::
  "'f server_lib \<Rightarrow> request \<Rightarrow> response \<Rightarrow> failure + (response \<times> 'f body)" where
  "service_unavailable L req res =
     (case parse_authority L (rq_host req) of
        None \<Rightarrow> Inl Null_dereference
      | Some (address, port) \<Rightarrow>
          let s = page_head L Status_service_unavailable @ page_tail address port
          in Inr (res @
               [Set_start_line Status_service_unavailable (res_version L res),
                Set_keep_alive False,
                Set_payload_size (bytes_size s),
                Append Content_type ''text/html; charset=iso-8859-1'',
                Append Server ''Boost.Http.Io''],
              String_body s))"

section \<open>What every responder promises\<close>

text \<open>What the calls on a response have set last.\<close>

definition last_call :: "(res_call \<Rightarrow> 'a option) \<Rightarrow> response \<Rightarrow> 'a option" where
  "last_call f res = (case rev (List.map_filter f res) of [] \<Rightarrow> None | x # _ \<Rightarrow> Some x)"

definition payload_of :: "response \<Rightarrow> size_t option" where
  "payload_of = last_call (\<lambda>c. case c of Set_payload_size n \<Rightarrow> Some n | _ \<Rightarrow> None)"

definition keep_alive_of :: "response \<Rightarrow> bool option" where
  "keep_alive_of = last_call (\<lambda>c. case c of Set_keep_alive k \<Rightarrow> Some k | _ \<Rightarrow> None)"

definition status_of :: "response \<Rightarrow> status option" where
  "status_of = last_call (\<lambda>c. case c of Set_start_line st v \<Rightarrow> Some st | _ \<Rightarrow> None)"

fun body_size :: "'f body \<Rightarrow> size_t" where
  "body_size (String_body s) = bytes_size s"
| "body_size (File_body f n) = n"

lemma last_call_append:
  "last_call f (xs @ ys) = (case last_call f ys of None \<Rightarrow> last_call f xs | Some x \<Rightarrow> Some x)"
  by (simp add: last_call_def List.map_filter_def split: list.split)

lemma last_call_simps [simp]:
  "last_call f [] = None"
  "last_call f (c # cs) =
     (case last_call f cs of None \<Rightarrow> f c | Some x \<Rightarrow> Some x)"
  using last_call_append [of f "[c]" cs]
  by (simp_all add: last_call_def List.map_filter_def split: list.split option.split)

lemmas response_observers = payload_of_def keep_alive_of_def status_of_def

text \<open>
  A responder extends the response it is given: it sets the start line to one of the
  statuses it may answer with, says how long the body is that it hands to the
  serializer, and whether the connection is kept.
\<close>

locale responder =
  fixes respond :: "request \<Rightarrow> response \<Rightarrow> failure + (response \<times> 'f body)"
    and answers :: "status set"
    and keeps :: "request \<Rightarrow> bool"
  assumes extends: "respond req res = Inr (res', b) \<Longrightarrow>
      \<exists>calls. res' = res @ calls \<and> payload_of calls = Some (body_size b) \<and>
        keep_alive_of calls = Some (keeps req) \<and> (\<exists>st \<in> answers. status_of calls = Some st)"
begin

lemma framed:
  assumes "respond req res = Inr (res', b)"
  shows "payload_of res' = Some (body_size b) \<and> keep_alive_of res' = Some (keeps req) \<and>
    (\<exists>st \<in> answers. status_of res' = Some st)"
  using extends [OF assms] by (auto simp: response_observers last_call_append)

end

interpretation er: responder "make_error_response L code" "{code}" rq_keep_alive
  for L :: "'f server_lib" and code
  by unfold_locales
    (auto simp: make_error_response_def response_observers Let_def split: option.splits prod.splits)

interpretation su: responder "service_unavailable L" "{Status_service_unavailable}" "\<lambda>_. False"
  for L :: "'f server_lib"
  by unfold_locales
    (auto simp: service_unavailable_def response_observers Let_def
      split: option.splits prod.splits)

lemma handle_request_cases:
  assumes "handle_request L root req res = r"
  obtains "target_rejected (rq_target_text req)"
      "r = make_error_response L Status_bad_request req res"
  | "\<not> target_rejected (rq_target_text req)"
      "r = make_error_response L Status_internal_server_error req res"
      "\<And>f. file_open L (c_str (request_path L root (rq_target_text req))) = (Success, f) \<Longrightarrow>
         failed (fst (file_size L f))"
  | f n where "\<not> target_rejected (rq_target_text req)"
      "file_open L (c_str (request_path L root (rq_target_text req))) = (Success, f)"
      "file_size L f = (Success, n)"
      "r = Inr (res @
         [Set_start_line Status_ok (rq_version req), Set_field Server ''Boost'',
          Set_keep_alive (rq_keep_alive req), Set_payload_size n,
          Append Content_type (mime_type (ci_is_equal L)
            (get_extension (request_path L root (rq_target_text req))))], File_body f n)"
proof (cases "target_rejected (rq_target_text req)")
  case False
  obtain ec f where o: "file_open L (c_str (request_path L root (rq_target_text req))) = (ec, f)"
    by fastforce
  obtain ec1 n where s: "file_size L f = (ec1, n)" by fastforce
  from assms False o s that(2,3) show ?thesis
    by (cases "ec = Success"; cases "ec1 = Success") (auto simp: handle_request_def failed_def Let_def)
qed (use assms that(1) in \<open>simp add: handle_request_def\<close>)

interpretation hr: responder "handle_request L root"
  "{Status_ok, Status_bad_request, Status_internal_server_error}" rq_keep_alive
  for L :: "'f server_lib" and root
proof
  fix req res res' b
  assume "handle_request L root req res = Inr (res', b)"
  then show "\<exists>calls. res' = res @ calls \<and> payload_of calls = Some (body_size b) \<and>
      keep_alive_of calls = Some (rq_keep_alive req) \<and>
      (\<exists>st \<in> {Status_ok, Status_bad_request, Status_internal_server_error}.
         status_of calls = Some st)"
    by (rule handle_request_cases)
      (auto dest!: er.extends [OF sym] simp: response_observers)
qed

section \<open>Properties of the server's answers\<close>

text \<open>A library for the witnesses: every host is an authority except \<open>bad\<close>, and the
  only file is \<open>/srv/index.html\<close>.\<close>

definition small_lib :: "string server_lib" where
  "small_lib =
     \<lparr>parse_authority = (\<lambda>h. if h = ''bad'' then None else Some (h, ''80'')),
      status_int = (\<lambda>st. case st of Status_ok \<Rightarrow> 200 | Status_bad_request \<Rightarrow> 400
        | Status_not_found \<Rightarrow> 404 | Status_internal_server_error \<Rightarrow> 500
        | Status_service_unavailable \<Rightarrow> 503),
      obsolete_reason = (\<lambda>_. ''reason''),
      res_version = (\<lambda>_. Http_1_1),
      file_open = (\<lambda>p. if p = ''/srv/index.html'' then (Success, p) else (Other_error 2, p)),
      file_size = (\<lambda>f. (Success, 42)),
      ci_is_equal = (=),
      is_msvc = False\<rparr>"

definition small_request :: "string \<Rightarrow> string \<Rightarrow> request" where
  "small_request target host =
     \<lparr>rq_target_text = target, rq_version = Http_1_1, rq_keep_alive = True, rq_host = host\<rparr>"

definition small_ok :: response where
  "small_ok =
     [Set_start_line Status_ok Http_1_1, Set_field Server ''Boost'', Set_keep_alive True,
      Set_payload_size 42, Append Content_type ''text/html'']"

lemma small_served:
  "handle_request small_lib ''/srv'' (small_request ''/'' ''h'') [] =
     Inr (small_ok, File_body ''/srv/index.html'' 42)"
  by code_simp

text \<open>C29: Whatever a request gets for an answer (the file, an error page, or the 503 page
  during shutdown), the payload size set on the response is the length of the body that
  is handed to the serializer, and the status is 200, 400 or 500, or 503 during
  shutdown; in particular no request is ever answered with 404.\<close>

theorem response_framing:
  assumes "handle_request L root req res = Inr (res', b) \<or>
    service_unavailable L req res = Inr (res', b)"
  shows "payload_of res' = Some (body_size b) \<and>
    (\<exists>st. status_of res' = Some st \<and> st \<noteq> Status_not_found)"
  using assms hr.framed [of L root req res res' b] su.framed [of L req res res' b] by auto

theorem response_framing_witness:
  "payload_of small_ok = Some (body_size (File_body ''/srv/index.html'' 42)) \<and>
   (\<exists>st. status_of small_ok = Some st \<and> st \<noteq> Status_not_found)"
  by (rule response_framing [OF disjI1 [OF small_served]])

text \<open>The path that is opened is the root followed by a target without \<open>..\<close>, also when
  \<open>index.html\<close> is appended and when a null character ends it early.\<close>

lemma str_find_prefix_None:
  "str_find pat (xs @ ys) = None \<Longrightarrow> pat \<noteq> [] \<Longrightarrow> str_find pat xs = None"
proof (induction xs)
  case (Cons c xs)
  have "take (length pat) (c # xs) = pat \<Longrightarrow> take (length pat) ((c # xs) @ ys) = pat"
    by (metis append_assoc append_eq_conv_conj append_take_drop_id)
  with Cons show ?case by (auto split: if_splits)
qed simp

lemma str_find_index_html:
  "str_find ''..'' xs = None \<Longrightarrow> xs \<noteq> [] \<Longrightarrow> last xs = CHR ''/'' \<Longrightarrow>
   str_find ''..'' (xs @ ''index.html'') = None"
proof (induction xs)
  case (Cons c xs)
  show ?case
  proof (cases xs)
    case (Cons d ds)
    with Cons.prems Cons.IH show ?thesis by (auto split: if_splits)
  qed (use Cons.prems in simp)
qed simp

lemma c_str_request_path:
  assumes "\<not> is_msvc L" "root \<noteq> ''''" "CHR 0x00 \<notin> set root"
    and t: "str_find ''..'' (CHR ''/'' # t) = None"
  obtains t' where "c_str (request_path L root (CHR ''/'' # t)) = path_cat False root (CHR ''/'' # t')"
    "str_find ''..'' (CHR ''/'' # t') = None"
proof -
  let ?r = "if last root = CHR ''/'' then butlast root else root"
  let ?u = "t @ (if last (CHR ''/'' # t) = CHR ''/'' then ''index.html'' else '''')"
  let ?t' = "takeWhile (\<lambda>c. c \<noteq> CHR 0x00) ?u"
  have u: "str_find ''..'' (CHR ''/'' # ?u) = None"
    using t str_find_index_html [of "CHR ''/'' # t"] by auto
  moreover have "CHR ''/'' # ?u = (CHR ''/'' # ?t') @ dropWhile (\<lambda>c. c \<noteq> CHR 0x00) ?u"
    by simp
  ultimately have "str_find ''..'' (CHR ''/'' # ?t') = None"
    using str_find_prefix_None [of "''..''"] by (metis list.distinct(1))
  moreover have "c_str (request_path L root (CHR ''/'' # t)) = path_cat False root (CHR ''/'' # ?t')"
  proof -
    have r: "request_path L root (CHR ''/'' # t) = ?r @ CHR ''/'' # ?u"
      using assms(1,2) by (simp add: request_path_def path_cat_def Let_def)
    have "\<forall>c \<in> set ?r. c \<noteq> CHR 0x00"
      using assms(3) by (auto dest: in_set_butlastD)
    then have "c_str (?r @ CHR ''/'' # ?u) = ?r @ takeWhile (\<lambda>c. c \<noteq> CHR 0x00) (CHR ''/'' # ?u)"
      unfolding c_str_def by (intro takeWhile_append2) blast
    with r assms(2) show ?thesis by (simp add: path_cat_def Let_def)
  qed
  ultimately show ?thesis using that by blast
qed

text \<open>C9: Files are served from inside the document root only (where paths are separated
  by \<open>/\<close> and the root is not empty): the file whose contents are sent was opened under a
  path that resolves to the resolved root followed by further components, whatever the
  request target.\<close>

theorem served_file_in_root:
  assumes served: "handle_request L root req res = Inr (res', File_body f n)"
    and "\<not> is_msvc L" "root \<noteq> ''''" "CHR 0x00 \<notin> set root"
  shows "\<exists>p inner. file_open L p = (Success, f) \<and> file_size L f = (Success, n) \<and>
    resolve p = resolve root @ inner"
proof -
  let ?t = "rq_target_text req"
  from served have *: "\<not> target_rejected ?t"
    "file_open L (c_str (request_path L root ?t)) = (Success, f)" "file_size L f = (Success, n)"
    by (auto elim!: handle_request_cases
        simp: make_error_response_def Let_def split: option.splits prod.splits)
  from *(1) obtain t where t: "?t = CHR ''/'' # t" "str_find ''..'' (CHR ''/'' # t) = None"
    by (cases ?t) (auto simp: target_rejected_def)
  from c_str_request_path [OF assms(2-4) t(2)] obtain t'
    where t': "c_str (request_path L root ?t) = path_cat False root (CHR ''/'' # t')"
      "str_find ''..'' (CHR ''/'' # t') = None" unfolding t(1) by blast
  from path_cat_contained [OF assms(3) refl t'(2)] *(2,3) show ?thesis
    unfolding t'(1) by blast
qed

theorem served_file_in_root_witness:
  "\<exists>p inner. file_open small_lib p = (Success, ''/srv/index.html'') \<and>
    file_size small_lib ''/srv/index.html'' = (Success, 42) \<and>
    resolve p = resolve ''/srv'' @ inner"
  by (rule served_file_in_root [OF small_served]) (simp_all add: small_lib_def)

text \<open>A target that is empty, does not start with a slash or contains \<open>..\<close> is answered
  with 400 without opening any file: the answer does not depend on the file system.\<close>

lemma bad_target_rejected:
  assumes "t = '''' \<or> hd t \<noteq> CHR ''/'' \<or> t = pre @ ''..'' @ post" "rq_target_text req = t"
  shows "handle_request (L\<lparr>file_open := fo, file_size := fs\<rparr>) root req res =
    make_error_response L Status_bad_request req res"
proof -
  have "str_find ''..'' (pre @ ''..'' @ post) \<noteq> None"
    using str_find_None_infix [of "''..''" _ pre "''..''" post] by blast
  with assms have "target_rejected (rq_target_text req)"
    by (auto simp: target_rejected_def hd_conv_nth)
  then show ?thesis
    by (simp add: handle_request_def make_error_response_def page_head_def split: option.split)
qed

lemma error_response_no_file: "make_error_response L code req res \<noteq> Inr (res', File_body f n)"
  by (auto simp: make_error_response_def Let_def split: option.split)

text \<open>C28: An error answer to a request whose \<open>Host\<close> is not a valid authority dereferences a
  null pointer. It happens exactly then: for every error page, for the 503 page, and so for
  a client that sends a rejected target together with such a \<open>Host\<close>.\<close>

theorem error_response_null_dereference:
  "(make_error_response L code req res = Inl Null_dereference \<longleftrightarrow>
      parse_authority L (rq_host req) = None) \<and>
   (service_unavailable L req res = Inl Null_dereference \<longleftrightarrow>
      parse_authority L (rq_host req) = None) \<and>
   (handle_request L root req res = Inl Null_dereference \<longleftrightarrow>
      parse_authority L (rq_host req) = None \<and>
      \<not> (\<exists>res' f n. handle_request L root req res = Inr (res', File_body f n)))"
proof (intro conjI)
  show e: "make_error_response L code req res = Inl Null_dereference \<longleftrightarrow>
      parse_authority L (rq_host req) = None" for code res
    by (auto simp: make_error_response_def Let_def split: option.split)
  show "service_unavailable L req res = Inl Null_dereference \<longleftrightarrow>
      parse_authority L (rq_host req) = None"
    by (auto simp: service_unavailable_def Let_def split: option.split)
  show "handle_request L root req res = Inl Null_dereference \<longleftrightarrow>
      parse_authority L (rq_host req) = None \<and>
      \<not> (\<exists>res' f n. handle_request L root req res = Inr (res', File_body f n))"
    by (rule handle_request_cases [where L = L and root = root and req = req and res = res,
          OF refl]) (simp_all add: e error_response_no_file)
qed

text \<open>A request for a file that cannot be opened (a missing one included) is answered
  like every other failure of the file system: with 500, keeping the connection as the
  request asks.\<close>

lemma missing_file_is_500:
  assumes "\<not> target_rejected (rq_target_text req)"
    and "failed (fst (file_open L (c_str (request_path L root (rq_target_text req)))))"
    and "handle_request L root req res = Inr (res', b)"
  shows "status_of res' = Some Status_internal_server_error \<and>
    keep_alive_of res' = Some (rq_keep_alive req)"
  using assms er.framed [of L Status_internal_server_error req res res' b]
  by (auto elim!: handle_request_cases)

end
