(* ===== verification/Worker.thy ===== *)
theory Worker
  imports Read_Laws Write_Laws Responses
begin

text \<open>
  \<open>class worker\<close> of \<open>example/server/main.cpp\<close>: the connection handler that accepts, reads a
  request header and body, answers, and either reads the next request or accepts the next
  connection. Every handler is a function on the worker's state; the step relation runs the
  handler that the outstanding operation completes with, where the reads and the write
  are the composed operations of the library, run over the events of their stream.
\<close>

section \<open>The state and what it is built on\<close>

text \<open>The asynchronous operation that is outstanding; \<open>Idle\<close> when there is none.\<close>

datatype phase = Idle | Accepting | Reading_header | Reading_body | Writing

datatype sock_call = Close | Cancel | Shutdown_send

record ('p, 's) worker =
  wk_phase :: phase
  wk_sock :: "sock_call list"
  wk_doc_root :: string
  wk_pr :: 'p
  wk_res :: response
  wk_wire :: "'s wire"
  wk_id :: size_t

text \<open>
  The parameters: the parser and serializer operations, the library used by the
  responders, and the further members of parser, serializer and response that the worker
  calls. \<open>pr_get\<close> is the request view of the parser.
\<close>

record ('p, 's, 'f) worker_env =
  we_parser :: "'p parser_ops"
  we_serializer :: "'s serializer_ops"
  we_lib :: "'f server_lib"
  pr_reset :: "'p \<Rightarrow> 'p"
  pr_start :: "'p \<Rightarrow> failure + 'p"
  pr_get :: "'p \<Rightarrow> request"
  sr_start :: "response \<Rightarrow> 'f body \<Rightarrow> 's \<Rightarrow> failure + 's"
  res_keep_alive :: "response \<Rightarrow> bool"

section \<open>The handlers\<close>

text \<open>\<open>fail\<close>; logging is compiled out.\<close>

definition worker_fail :: "error_code \<Rightarrow> ('p, 's) worker \<Rightarrow> ('p, 's) worker" where
  "worker_fail ec w =
     (if ec = Operation_aborted then w
      else if ec = Eof then w\<lparr>wk_sock := wk_sock w @ [Shutdown_send]\<rparr>
      else w)"

definition do_accept :: "('p, 's, 'f) worker_env \<Rightarrow> ('p, 's) worker \<Rightarrow> ('p, 's) worker" where
  "do_accept E w =
     w\<lparr>wk_sock := wk_sock w @ [Close], wk_pr := pr_reset E (wk_pr w), wk_phase := Accepting\<rparr>"

text \<open>The four handlers share what follows a failed operation: \<open>fail\<close>, then return when it
  was cancelled, else \<open>do_accept\<close>.\<close>

definition on_failure ::
  "('p, 's, 'f) worker_env \<Rightarrow> error_code \<Rightarrow> ('p, 's) worker \<Rightarrow> failure + ('p, 's) worker" where
  "on_failure E ec w =
     (let w1 = worker_fail ec w in
      if ec = Operation_aborted then Inr (w1\<lparr>wk_phase := Idle\<rparr>)
      else Inr (do_accept E w1))"

text \<open>
  An initiating function runs up to the first suspension of its coroutine, which is what
  it does on the empty script; it may throw there. The worker keeps the state from which
  the operation was initiated.
\<close>

definition initiated ::
  "('io, 'o, 't, 'c) outcome \<Rightarrow> ('p, 's) worker \<Rightarrow> failure + ('p, 's) worker" where
  "initiated out w = (case out of Threw f \<Rightarrow> Inl f | _ \<Rightarrow> Inr w)"

lemma initiated_Inr [fail_simps]:
  "initiated out w = Inr w' \<longleftrightarrow> w' = w \<and> (\<forall>f. out \<noteq> Threw f)"
  by (cases out) (auto simp: initiated_def)

definition do_read ::
  "('p, 's, 'f) worker_env \<Rightarrow> ('p, 's) worker \<Rightarrow> failure + ('p, 's) worker" where
  "do_read E w =
     sbind (pr_start E (wk_pr w)) (\<lambda>p.
       initiated (async_read_header (we_parser E) p [])
         (w\<lparr>wk_pr := p, wk_phase := Reading_header\<rparr>))"

definition on_accept ::
  "('p, 's, 'f) worker_env \<Rightarrow> error_code \<Rightarrow> ('p, 's) worker \<Rightarrow> failure + ('p, 's) worker" where
  "on_accept E ec w = (if failed ec then on_failure E ec w else do_read E w)"

definition on_read_header ::
  "('p, 's, 'f) worker_env \<Rightarrow> error_code \<Rightarrow> size_t \<Rightarrow> ('p, 's) worker \<Rightarrow>
   failure + ('p, 's) worker" where
  "on_read_header E ec bytes_transferred w =
     (if failed ec then on_failure E ec w
      else sbind (async_read (we_parser E) (wk_pr w) []) (\<lambda>out.
        initiated out (w\<lparr>wk_phase := Reading_body\<rparr>)))"

text \<open>In \<open>on_read_body\<close>, the responder that is called on the cleared response. The responder
  ends with \<open>serializer::start\<close>, which may throw.\<close>

definition answer ::
  "('p, 's, 'f) worker_env \<Rightarrow> string \<Rightarrow> bool \<Rightarrow> request \<Rightarrow> response \<Rightarrow>
   failure + (response \<times> 'f body)" where
  "answer E doc_root is_shutting_down req res =
     (if \<not> is_shutting_down then handle_request (we_lib E) doc_root req res
      else service_unavailable (we_lib E) req res)"

definition on_read_body ::
  "('p, 's, 'f) worker_env \<Rightarrow> bool \<Rightarrow> error_code \<Rightarrow> size_t \<Rightarrow> ('p, 's) worker \<Rightarrow>
   failure + ('p, 's) worker" where
  "on_read_body E is_shutting_down ec bytes_transferred w =
     (if failed ec then on_failure E ec w
      else
        sbind (answer E (wk_doc_root w) is_shutting_down (pr_get E (wk_pr w)) []) (\<lambda>(res, b).
        sbind (sr_start E res b (wr_sr (wk_wire w))) (\<lambda>sr.
          let wire = (wk_wire w)\<lparr>wr_sr := sr\<rparr> in
          initiated (async_write (we_serializer E) wire [])
            (w\<lparr>wk_res := res, wk_wire := wire, wk_phase := Writing\<rparr>))))"

definition on_write ::
  "('p, 's, 'f) worker_env \<Rightarrow> error_code \<Rightarrow> size_t \<Rightarrow> ('p, 's) worker \<Rightarrow>
   failure + ('p, 's) worker" where
  "on_write E ec bytes_transferred w =
     (if failed ec then on_failure E ec w
      else if res_keep_alive E (wk_res w) then do_read E w
      else Inr (do_accept E w))"

definition worker_run :: "('p, 's, 'f) worker_env \<Rightarrow> ('p, 's) worker \<Rightarrow> ('p, 's) worker" where
  "worker_run E w = do_accept E w"

definition worker_stop :: "('p, 's) worker \<Rightarrow> ('p, 's) worker" where
  "worker_stop w = w\<lparr>wk_sock := wk_sock w @ [Cancel]\<rparr>"

section \<open>The steps\<close>

text \<open>
  The outstanding operation completes, with the events of its stream, and its handler
  runs; or \<open>stop\<close> is called. The flag is \<open>is_shutting_down()\<close> at that time.
\<close>

datatype worker_event =
    Accepted error_code
  | Header_read "read_done event list"
  | Body_read "read_done event list"
  | Written "write_done event list"
  | Stopped

inductive worker_step ::
  "('p, 's, 'f) worker_env \<Rightarrow> bool \<Rightarrow> ('p, 's) worker \<Rightarrow> worker_event \<Rightarrow>
   failure + ('p, 's) worker \<Rightarrow> bool"
  for E :: "('p, 's, 'f) worker_env" and sd :: bool where
  accepted: "wk_phase w = Accepting \<Longrightarrow> worker_step E sd w (Accepted ec) (on_accept E ec w)"
| header_read: "wk_phase w = Reading_header \<Longrightarrow>
    async_read_header (we_parser E) (wk_pr w) ev = Finished ec n p [] \<Longrightarrow>
    worker_step E sd w (Header_read ev) (on_read_header E ec n (w\<lparr>wk_pr := p\<rparr>))"
| header_threw: "wk_phase w = Reading_header \<Longrightarrow>
    async_read_header (we_parser E) (wk_pr w) ev = Threw f \<Longrightarrow>
    worker_step E sd w (Header_read ev) (Inl f)"
| body_read: "wk_phase w = Reading_body \<Longrightarrow>
    async_read (we_parser E) (wk_pr w) ev = Inr (Finished ec n p []) \<Longrightarrow>
    worker_step E sd w (Body_read ev) (on_read_body E sd ec n (w\<lparr>wk_pr := p\<rparr>))"
| body_threw: "wk_phase w = Reading_body \<Longrightarrow>
    async_read (we_parser E) (wk_pr w) ev = Inr (Threw f) \<Longrightarrow>
    worker_step E sd w (Body_read ev) (Inl f)"
| written: "wk_phase w = Writing \<Longrightarrow>
    async_write (we_serializer E) (wk_wire w) ev = Finished ec n wire [] \<Longrightarrow>
    worker_step E sd w (Written ev) (on_write E ec n (w\<lparr>wk_wire := wire\<rparr>))"
| write_threw: "wk_phase w = Writing \<Longrightarrow>
    async_write (we_serializer E) (wk_wire w) ev = Threw f \<Longrightarrow>
    worker_step E sd w (Written ev) (Inl f)"
| stopped: "worker_step E sd w Stopped (Inr (worker_stop w))"

inductive_cases accepted_cases: "worker_step E sd w (Accepted ec) r"
inductive_cases header_cases: "worker_step E sd w (Header_read ev) r"
inductive_cases body_cases: "worker_step E sd w (Body_read ev) r"
inductive_cases written_cases: "worker_step E sd w (Written ev) r"
inductive_cases stopped_cases: "worker_step E sd w Stopped r"

lemmas worker_step_cases =
  accepted_cases header_cases body_cases written_cases stopped_cases

text \<open>The same steps as a function: the relation is deterministic, and it can be evaluated.\<close>

fun worker_next ::
  "('p, 's, 'f) worker_env \<Rightarrow> bool \<Rightarrow> ('p, 's) worker \<Rightarrow> worker_event \<Rightarrow>
   (failure + ('p, 's) worker) option" where
  "worker_next E sd w (Accepted ec) =
     (if wk_phase w = Accepting then Some (on_accept E ec w) else None)"
| "worker_next E sd w (Header_read ev) =
     (if wk_phase w = Reading_header then
        (case async_read_header (we_parser E) (wk_pr w) ev of
           Finished ec n p [] \<Rightarrow> Some (on_read_header E ec n (w\<lparr>wk_pr := p\<rparr>))
         | Threw f \<Rightarrow> Some (Inl f)
         | _ \<Rightarrow> None)
      else None)"
| "worker_next E sd w (Body_read ev) =
     (if wk_phase w = Reading_body then
        (case async_read (we_parser E) (wk_pr w) ev of
           Inr (Finished ec n p []) \<Rightarrow> Some (on_read_body E sd ec n (w\<lparr>wk_pr := p\<rparr>))
         | Inr (Threw f) \<Rightarrow> Some (Inl f)
         | _ \<Rightarrow> None)
      else None)"
| "worker_next E sd w (Written ev) =
     (if wk_phase w = Writing then
        (case async_write (we_serializer E) (wk_wire w) ev of
           Finished ec n wire [] \<Rightarrow> Some (on_write E ec n (w\<lparr>wk_wire := wire\<rparr>))
         | Threw f \<Rightarrow> Some (Inl f)
         | _ \<Rightarrow> None)
      else None)"
| "worker_next E sd w Stopped = Some (Inr (worker_stop w))"

lemma worker_step_next: "worker_step E sd w e r \<longleftrightarrow> worker_next E sd w e = Some r"
  by (cases e)
    (auto elim!: worker_step_cases intro: worker_step.intros
      split: outcome.splits list.splits sum.splits if_splits)

lemmas worker_stepI = worker_step_next [THEN iffD2]

text \<open>The events the sockets can produce: the streams keep their contracts, and accepting
  may report anything.\<close>

fun event_ok :: "('p, 's, 'f) worker_env \<Rightarrow> ('p, 's) worker \<Rightarrow> worker_event \<Rightarrow> bool" where
  "event_ok E w (Accepted ec) \<longleftrightarrow> True"
| "event_ok E w (Header_read ev) \<longleftrightarrow>
     launch_complies (read_header_call (we_parser E)) (read_recv (we_parser E)) read_stream_ok
       read_header_op_new (wk_pr w) ev"
| "event_ok E w (Body_read ev) \<longleftrightarrow> body_complies (we_parser E) False (wk_pr w) ev"
| "event_ok E w (Written ev) \<longleftrightarrow>
     async_write_complies (we_serializer E) (wk_wire w) ev"
| "event_ok E w Stopped \<longleftrightarrow> True"

text \<open>The states of a worker that has been run.\<close>

inductive worker_reach ::
  "('p, 's, 'f) worker_env \<Rightarrow> ('p, 's) worker \<Rightarrow> bool" for E :: "('p, 's, 'f) worker_env" where
  run: "wk_sock w = [] \<Longrightarrow> worker_reach E (worker_run E w)"
| step: "worker_reach E w \<Longrightarrow> event_ok E w e \<Longrightarrow> worker_step E sd w e (Inr w') \<Longrightarrow>
    worker_reach E w'"

end
