(* ===== verification/Worker_Laws.thy ===== *)
theory Worker_Laws
  imports Worker
begin

text \<open>
  What the worker promises: its use of the parser, the serializer and the library's
  operations never makes one of them throw; what happens to a connection during shutdown;
  and what \<open>stop\<close> does and does not do.
\<close>

section \<open>What the worker relies on\<close>

text \<open>
  \<open>startable\<close> holds of a parser on which \<open>start\<close> may be called: after \<open>reset\<close>, and when
  the previous message is complete. \<open>start\<close> makes it ready for the next header. The
  serializer's \<open>start\<close> prepares it for a new message, also when the last one was not written
  to its end; then it holds a message to write. Nothing is asked of the requests that
  arrive.
\<close>

definition worker_contract ::
  "('p, 's, 'f) worker_env \<Rightarrow> 'p parser_view \<Rightarrow> 's serializer_view \<Rightarrow> ('p \<Rightarrow> bool) \<Rightarrow> bool" where
  "worker_contract E V SV startable \<longleftrightarrow>
     parser_contract (we_parser E) V \<and> serializer_contract (we_serializer E) SV \<and>
     (\<forall>p. startable (pr_reset E p)) \<and>
     (\<forall>p. is_complete (we_parser E) p \<longrightarrow> startable p) \<and>
     (\<forall>p. startable p \<longrightarrow>
        (\<exists>p'. pr_start E p = Inr p' \<and> idle V p' \<and> \<not> got_header (we_parser E) p')) \<and>
     (\<forall>res b s. \<exists>s'. sr_start E res b s = Inr s' \<and> ready SV s' \<and> pending SV s' \<noteq> [])"

section \<open>The invariant\<close>

definition worker_inv ::
  "('p, 's, 'f) worker_env \<Rightarrow> 'p parser_view \<Rightarrow> 's serializer_view \<Rightarrow> ('p \<Rightarrow> bool) \<Rightarrow>
   ('p, 's) worker \<Rightarrow> bool" where
  "worker_inv E V SV startable w \<longleftrightarrow>
     (case wk_phase w of
        Idle \<Rightarrow> True
      | Accepting \<Rightarrow> startable (wk_pr w)
      | Reading_header \<Rightarrow> idle V (wk_pr w) \<and> \<not> got_header (we_parser E) (wk_pr w)
      | Reading_body \<Rightarrow> got_header (we_parser E) (wk_pr w) \<and>
          (idle V (wk_pr w) \<or> is_complete (we_parser E) (wk_pr w))
      | Writing \<Rightarrow> is_complete (we_parser E) (wk_pr w) \<and> ready SV (wr_sr (wk_wire w)) \<and>
          pending SV (wr_sr (wk_wire w)) \<noteq> [])"

definition good_result ::
  "('p, 's, 'f) worker_env \<Rightarrow> 'p parser_view \<Rightarrow> 's serializer_view \<Rightarrow> ('p \<Rightarrow> bool) \<Rightarrow>
   failure + ('p, 's) worker \<Rightarrow> bool" where
  "good_result E V SV startable r \<longleftrightarrow>
     (\<exists>w. r = Inr w \<and> worker_inv E V SV startable w)"

lemma good_Inr [simp]: "good_result E V SV st (Inr w) \<longleftrightarrow> worker_inv E V SV st w"
  by (simp add: good_result_def)

lemma good_not_Inl [simp]: "\<not> good_result E V SV st (Inl f)"
  by (simp add: good_result_def)

lemma contractD:
  assumes "worker_contract E V SV st"
  shows "parser_contract (we_parser E) V" "serializer_contract (we_serializer E) SV"
    "st (pr_reset E p)" "is_complete (we_parser E) p \<Longrightarrow> st p"
    "st p \<Longrightarrow> \<exists>p'. pr_start E p = Inr p' \<and> idle V p' \<and> \<not> got_header (we_parser E) p'"
    "\<exists>s'. sr_start E res b s = Inr s' \<and> ready SV s' \<and> pending SV s' \<noteq> []"
  using assms by (auto simp: worker_contract_def)

lemma initiated_good:
  "(\<And>f. out \<noteq> Threw f) \<Longrightarrow> good_result E V SV st (initiated out w) \<longleftrightarrow> worker_inv E V SV st w"
  by (cases out) (auto simp: initiated_def)

text \<open>One lemma per handler.\<close>

lemma do_accept_good:
  assumes "worker_contract E V SV st"
  shows "worker_inv E V SV st (do_accept E w)"
  using contractD(3) [OF assms] by (simp add: do_accept_def worker_inv_def)

lemma on_failure_good:
  assumes "worker_contract E V SV st"
  shows "good_result E V SV st (on_failure E ec w)"
  by (simp add: on_failure_def Let_def do_accept_good [OF assms]) (simp add: worker_inv_def)

lemma do_read_good:
  assumes C: "worker_contract E V SV st" and "st (wk_pr w)"
  shows "good_result E V SV st (do_read E w)"
proof -
  from contractD(5) [OF C assms(2)] obtain p
    where p: "pr_start E (wk_pr w) = Inr p" "idle V p" "\<not> got_header (we_parser E) p" by blast
  have "async_read_header (we_parser E) p [] \<noteq> Threw f" for f
    using header_outcome [OF contractD(1) [OF C], of p "[]"] p(2) by auto
  with p show ?thesis by (simp add: do_read_def initiated_good worker_inv_def)
qed

lemma on_accept_good:
  assumes "worker_contract E V SV st" "worker_inv E V SV st w" "wk_phase w = Accepting"
  shows "good_result E V SV st (on_accept E ec w)"
  using assms on_failure_good [of E V SV st] do_read_good [of E V SV st w]
  by (simp add: on_accept_def worker_inv_def)

lemma on_read_header_good:
  assumes C: "worker_contract E V SV st"
    and s: "ec = Success \<Longrightarrow> got_header (we_parser E) (wk_pr w) \<and>
      (idle V (wk_pr w) \<or> is_complete (we_parser E) (wk_pr w))"
  shows "good_result E V SV st (on_read_header E ec n w)"
proof (cases "ec = Success")
  case True
  have "read_body (we_parser E) False (wk_pr w) [] \<noteq> Threw f" for f
    using body_outcome [OF contractD(1) [OF C], of "wk_pr w" False "[]"] s [OF True] by auto
  with s [OF True] True show ?thesis
    by (simp add: on_read_header_def async_read_def initiated_good worker_inv_def)
qed (use assms on_failure_good in \<open>simp add: on_read_header_def failed_def\<close>)

text \<open>A responder throws only when it answers with a page and the \<open>Host\<close> of the request is not
  an authority.\<close>

lemma answer_throws:
  assumes "answer E root sd req res = Inl f"
  shows "f = Null_dereference" "parse_authority (we_lib E) (rq_host req) = None"
proof -
  have m: "f = Null_dereference \<and> parse_authority (we_lib E) (rq_host req) = None"
    if "make_error_response (we_lib E) code req res = Inl f" for code
    using that by (auto simp: make_error_response_def Let_def split: option.splits prod.splits)
  have "f = Null_dereference \<and> parse_authority (we_lib E) (rq_host req) = None"
  proof (cases sd)
    case True
    with assms show ?thesis
      by (auto simp: answer_def service_unavailable_def Let_def split: option.splits prod.splits)
  next
    case False
    with assms have "handle_request (we_lib E) root req res = Inl f" by (simp add: answer_def)
    then show ?thesis by (rule handle_request_cases) (use m [OF sym] in auto)
  qed
  then show "f = Null_dereference" "parse_authority (we_lib E) (rq_host req) = None" by blast+
qed

lemma on_read_body_good:
  assumes C: "worker_contract E V SV st"
    and s: "ec = Success \<Longrightarrow> is_complete (we_parser E) (wk_pr w)"
  shows "if ec = Success \<and> answer E (wk_doc_root w) sd (pr_get E (wk_pr w)) [] = Inl Null_dereference
    then on_read_body E sd ec n w = Inl Null_dereference
    else good_result E V SV st (on_read_body E sd ec n w)"
proof (cases "ec = Success")
  case True
  show ?thesis
  proof (cases "answer E (wk_doc_root w) sd (pr_get E (wk_pr w)) []")
    case (Inl f)
    with answer_throws(1) [OF Inl] True show ?thesis by (simp add: on_read_body_def)
  next
    case (Inr x)
    obtain res b where x: "x = (res, b)" by (cases x)
    from contractD(6) [OF C] obtain sr where sr: "sr_start E res b (wr_sr (wk_wire w)) = Inr sr"
      "ready SV sr" "pending SV sr \<noteq> []" by blast
    let ?wire = "(wk_wire w)\<lparr>wr_sr := sr\<rparr>"
    have "async_write (we_serializer E) ?wire [] \<noteq> Threw f" for f
      using async_write_sat [OF contractD(2) [OF C], of ?wire "[]"] sr
      by (auto simp: async_write_complies_def write_complies_Nil)
    with Inr x sr s [OF True] True show ?thesis
      by (simp add: on_read_body_def Let_def initiated_good worker_inv_def)
  qed
qed (use assms on_failure_good [OF C] in \<open>simp add: on_read_body_def failed_def\<close>)

lemma on_write_good:
  assumes C: "worker_contract E V SV st" and "is_complete (we_parser E) (wk_pr w)"
  shows "good_result E V SV st (on_write E ec n w)"
  using assms on_failure_good [OF C] do_read_good [OF C] do_accept_good [OF C] contractD(4) [OF C]
  by (simp add: on_write_def)

section \<open>Every step but one is good\<close>

text \<open>The handler that crashes: the body of a request has been read to its end, and the
  responder dereferences the authority that its \<open>Host\<close> does not have.\<close>

definition host_crash ::
  "('p, 's, 'f) worker_env \<Rightarrow> bool \<Rightarrow> ('p, 's) worker \<Rightarrow> worker_event \<Rightarrow> bool" where
  "host_crash E sd w e \<longleftrightarrow>
     (\<exists>ev n p. e = Body_read ev \<and> wk_phase w = Reading_body \<and>
        async_read (we_parser E) (wk_pr w) ev = Inr (Finished Success n p []) \<and>
        answer E (wk_doc_root w) sd (pr_get E p) [] = Inl Null_dereference)"

lemma worker_step_good:
  assumes C: "worker_contract E V SV st" and I: "worker_inv E V SV st w"
    and ok: "event_ok E w e" and step: "worker_step E sd w e r"
  shows "if host_crash E sd w e then r = Inl Null_dereference else good_result E V SV st r"
  using step
proof cases
  case (accepted ec)
  with I show ?thesis by (auto simp: host_crash_def intro: on_accept_good [OF C])
next
  case (header_read ev ec n p)
  from I header_read have i: "idle V (wk_pr w)" "\<not> got_header (we_parser E) (wk_pr w)"
    by (simp_all add: worker_inv_def)
  from ok header_read have "launch_complies (read_header_call (we_parser E))
      (read_recv (we_parser E)) read_stream_ok read_header_op_new (wk_pr w) ev" by simp
  from header_finished [OF contractD(1) [OF C] disjI1 [OF i(1)] this header_read(4)] i
  have "ec = Success \<Longrightarrow> got_header (we_parser E) p \<and>
      (idle V p \<or> is_complete (we_parser E) p)" by metis
  then have "good_result E V SV st r"
    unfolding header_read(2) by (intro on_read_header_good [OF C]) auto
  with header_read(1) show ?thesis by (simp add: host_crash_def)
next
  case (header_threw ev f)
  from I header_threw ok have "idle V (wk_pr w)" "launch_complies (read_header_call (we_parser E))
      (read_recv (we_parser E)) read_stream_ok read_header_op_new (wk_pr w) ev"
    by (auto simp: worker_inv_def)
  with header_outcome [OF contractD(1) [OF C]] header_threw(4) show ?thesis by fastforce
next
  case (body_read ev ec n p)
  from I body_read have i: "idle V (wk_pr w) \<or> is_complete (we_parser E) (wk_pr w)"
    by (auto simp: worker_inv_def)
  from ok body_read have "body_complies (we_parser E) False (wk_pr w) ev" by simp
  with body_read(4) have "ec = Success \<Longrightarrow> is_complete (we_parser E) p"
    using body_finished [OF contractD(1) [OF C] i] unfolding async_read_Inr by blast
  then have "if ec = Success \<and> answer E (wk_doc_root w) sd (pr_get E p) [] = Inl Null_dereference
      then r = Inl Null_dereference else good_result E V SV st r"
    using on_read_body_good [OF C, of ec "w\<lparr>wk_pr := p\<rparr>" sd n] unfolding body_read(2) by simp
  with body_read show ?thesis by (auto simp: host_crash_def split: if_splits)
next
  case (body_threw ev f)
  from I body_threw ok have "idle V (wk_pr w) \<or> is_complete (we_parser E) (wk_pr w)"
    "body_complies (we_parser E) False (wk_pr w) ev" by (auto simp: worker_inv_def)
  with body_outcome [OF contractD(1) [OF C]] body_threw(4) show ?thesis
    unfolding async_read_Inr by fastforce
next
  case (written ev ec n wire)
  with I have "good_result E V SV st r"
    unfolding written(2) by (intro on_write_good [OF C]) (auto simp: worker_inv_def)
  with written(1) show ?thesis by (simp add: host_crash_def)
next
  case (write_threw ev f)
  from I write_threw ok have "ready SV (wr_sr (wk_wire w))" "pending SV (wr_sr (wk_wire w)) \<noteq> []"
    "async_write_complies (we_serializer E) (wk_wire w) ev" by (auto simp: worker_inv_def)
  from async_write_sat [OF contractD(2) [OF C] this] write_threw(4) show ?thesis by simp
next
  case stopped
  with I show ?thesis by (cases "wk_phase w") (auto simp: worker_inv_def worker_stop_def host_crash_def)
qed

lemma worker_step_inv:
  assumes "worker_contract E V SV st" "worker_inv E V SV st w" "event_ok E w e"
    "worker_step E sd w e (Inr w')"
  shows "worker_inv E V SV st w'"
  using worker_step_good [OF assms] by (simp split: if_splits)

lemma worker_step_throws:
  assumes "worker_contract E V SV st" "worker_inv E V SV st w" "event_ok E w e"
    "worker_step E sd w e r"
  shows "r = Inl f \<longleftrightarrow> f = Null_dereference \<and> host_crash E sd w e"
  using worker_step_good [OF assms] by (auto split: if_splits)

lemma worker_reach_inv:
  assumes "worker_contract E V SV st"
  shows "worker_reach E w \<Longrightarrow> worker_inv E V SV st w"
proof (induction rule: worker_reach.induct)
  case (run w)
  with assms show ?case by (simp add: worker_run_def do_accept_good)
next
  case (step w e sd w')
  from worker_step_inv [OF assms step.IH step.hyps(2,3)] show ?case .
qed

section \<open>What no step changes\<close>

text \<open>A function of the worker that does not depend on the members the handlers assign.\<close>

lemma worker_step_keeps:
  assumes f: "\<And>w x. f (w\<lparr>wk_phase := x\<rparr>) = f w" "\<And>w x. f (w\<lparr>wk_sock := x\<rparr>) = f w"
      "\<And>w x. f (w\<lparr>wk_pr := x\<rparr>) = f w" "\<And>w x. f (w\<lparr>wk_res := x\<rparr>) = f w"
      "\<And>w x. f (w\<lparr>wk_wire := x\<rparr>) = f w"
    and step: "worker_step E sd w e (Inr w')"
  shows "f w' = f w"
proof -
  have fail: "f w' = f w" if "on_failure E ec w = Inr w'" for ec w w'
    using that by (auto simp: on_failure_def worker_fail_def do_accept_def Let_def f split: if_splits)
  have read: "f w' = f w" if "do_read E w = Inr w'" for w w'
    using that by (auto simp: do_read_def fail_simps f)
  have h: "f w' = f w" if "on_accept E ec w = Inr w' \<or> on_read_header E ec n w = Inr w' \<or>
      on_read_body E sd ec n w = Inr w' \<or> on_write E ec n w = Inr w'" for ec n w w'
    using that
    by (auto simp: on_accept_def on_read_header_def on_read_body_def on_write_def do_accept_def
        Let_def fail_simps f dest!: fail read split: if_splits)
  from step show ?thesis
  proof cases
    case (accepted ec)
    with h [where ec = ec and w = w and w' = w'] show ?thesis by simp
  next
    case (header_read ev ec n p)
    with h [where ec = ec and n = n and w = "w\<lparr>wk_pr := p\<rparr>" and w' = w'] show ?thesis by (simp add: f)
  next
    case (body_read ev ec n p)
    with h [where ec = ec and n = n and w = "w\<lparr>wk_pr := p\<rparr>" and w' = w'] show ?thesis by (simp add: f)
  next
    case (written ev ec n wire)
    with h [where ec = ec and n = n and w = "w\<lparr>wk_wire := wire\<rparr>" and w' = w'] show ?thesis by (simp add: f)
  qed (simp_all add: worker_stop_def f)
qed

lemma worker_step_root: "worker_step E sd w e (Inr w') \<Longrightarrow> wk_doc_root w' = wk_doc_root w"
  by (rule worker_step_keeps [where f = wk_doc_root]) simp_all

section \<open>A small server\<close>

text \<open>For the witnesses: the small parser, serializer and library together. Every request
  is \<open>GET /\<close> and every serialized response is the bytes 1, 2, 3.\<close>

definition small_env :: "(small_parser, byte list, string) worker_env" where
  "small_env =
     \<lparr>we_parser = small_ops, we_serializer = small_sr, we_lib = small_lib,
      pr_reset = (\<lambda>_. small_start), pr_start = (\<lambda>_. Inr small_start),
      pr_get = (\<lambda>_. small_request ''/'' ''h''), sr_start = (\<lambda>_ _ _. Inr [1, 2, 3]),
      res_keep_alive = (\<lambda>res. keep_alive_of res = Some True)\<rparr>"

definition small_worker :: "phase \<Rightarrow> sock_call list \<Rightarrow> byte list \<Rightarrow> response \<Rightarrow> byte list \<Rightarrow> byte list \<Rightarrow>
    (small_parser, byte list) worker" where
  "small_worker ph log inp res todo sent =
     \<lparr>wk_phase = ph, wk_sock = log, wk_doc_root = ''/srv'',
      wk_pr = \<lparr>sp_input = inp, sp_buffer = (if inp = [] then [] else [last inp]), sp_eof = False\<rparr>,
      wk_res = res, wk_wire = small_wire todo sent, wk_id = 1\<rparr>"

lemma small_doc_root: "wk_doc_root (small_worker ph log inp res todo sent) = ''/srv''"
  by (simp add: small_worker_def)

lemma small_env_contract: "worker_contract small_env small_view small_sr_view (\<lambda>_. True)"
  unfolding worker_contract_def using small_contract small_sr_contract
  by (simp add: small_env_def small_view_def small_sr_view_def small_ops_def small_start_def)

lemma small_reach_accepting: "worker_reach small_env (small_worker Accepting [Close] [] [] [] [])"
proof -
  have "worker_run small_env (small_worker Idle [] [] [] [] []) =
      small_worker Accepting [Close] [] [] [] []" by code_simp
  with worker_reach.run [of "small_worker Idle [] [] [] [] []" small_env]
  show ?thesis by (simp add: small_worker_def)
qed

lemma small_step_accept:
  "worker_step small_env sd (small_worker Accepting [Close] [] [] [] []) (Accepted Success)
     (Inr (small_worker Reading_header [Close] [] [] [] []))"
  by (rule worker_stepI) code_simp

lemma small_step_header:
  "worker_step small_env sd (small_worker Reading_header [Close] [] [] [] [])
     (Header_read [Done (Success, [10])]) (Inr (small_worker Reading_body [Close] [10] [] [] []))"
  by (rule worker_stepI) code_simp

lemma small_step_body:
  "worker_step small_env False (small_worker Reading_body [Close] [10] [] [] [])
     (Body_read [Done (Success, [0])])
     (Inr (small_worker Writing [Close] [10, 0] small_ok [1, 2, 3] []))"
  by (rule worker_stepI) code_simp

lemma small_step_write:
  "worker_step small_env sd (small_worker Writing [Close] [10, 0] small_ok [1, 2, 3] [])
     (Written [Done (Success, 3)])
     (Inr (small_worker Reading_header [Close] [] small_ok [] [1, 2, 3]))"
  by (rule worker_stepI) code_simp

lemma small_events:
  "event_ok small_env (small_worker Accepting [Close] [] [] [] []) (Accepted Success)"
  "event_ok small_env (small_worker Reading_header [Close] [] [] [] [])
     (Header_read [Done (Success, [10])])"
  "event_ok small_env (small_worker Reading_body [Close] [10] [] [] [])
     (Body_read [Done (Success, [0])])"
  "event_ok small_env (small_worker Writing [Close] [10, 0] small_ok [1, 2, 3] [])
     (Written [Done (Success, 3)])"
  by code_simp+

lemma small_reach:
  "worker_reach small_env (small_worker Reading_header [Close] [] [] [] [])"
  "worker_reach small_env (small_worker Reading_body [Close] [10] [] [] [])"
  "worker_reach small_env (small_worker Writing [Close] [10, 0] small_ok [1, 2, 3] [])"
  using small_reach_accepting small_events small_step_accept small_step_header small_step_body
  by (meson worker_reach.step)+

section \<open>Properties of the worker\<close>

text \<open>The answer that is being written when \<open>on_read_body\<close> has started a write.\<close>

lemma on_failure_Inr:
  "on_failure E ec w = Inr w' \<Longrightarrow>
   if ec = Operation_aborted then wk_phase w' = Idle
   else wk_phase w' = Accepting \<and> wk_sock w' \<noteq> [] \<and> last (wk_sock w') = Close"
  by (auto simp: on_failure_def worker_fail_def do_accept_def Let_def)

lemma on_read_body_Writing:
  assumes r: "on_read_body E sd ec n w = Inr w1" and "wk_phase w1 = Writing"
  shows "\<exists>b sr. wk_pr w1 = wk_pr w \<and> wk_sock w1 = wk_sock w \<and> wk_doc_root w1 = wk_doc_root w \<and>
    answer E (wk_doc_root w) sd (pr_get E (wk_pr w)) [] = Inr (wk_res w1, b) \<and>
    sr_start E (wk_res w1) b (wr_sr (wk_wire w)) = Inr sr \<and>
    wk_wire w1 = (wk_wire w)\<lparr>wr_sr := sr\<rparr>"
proof (cases "ec = Success")
  case False
  with r have "on_failure E ec w = Inr w1" by (simp add: on_read_body_def failed_def)
  with on_failure_Inr [OF this] assms(2) show ?thesis by (simp split: if_splits)
next
  case True
  with r show ?thesis
    by (auto simp: on_read_body_def Let_def fail_simps)
qed

text \<open>One exchange, end to end: when the body of a request has been read and the write of
  the answer completes with success, then the answer is what \<open>handle_request\<close> (or, during
  shutdown, \<open>service_unavailable\<close>) makes of that request, and the bytes the stream has
  accepted meanwhile are exactly those of the serialized answer, all of them and in order.\<close>

lemma exchange_writes_answer:
  assumes C: "worker_contract E V SV startable"
    and body: "worker_step E sd w (Body_read ev1) (Inr w1)"
    and wr: "event_ok E w1 (Written ev2)"
      "async_write (we_serializer E) (wk_wire w1) ev2 = Finished Success n wire []"
    and writing: "wk_phase w1 = Writing"
  shows "\<exists>b sr. answer E (wk_doc_root w1) sd (pr_get E (wk_pr w1)) [] = Inr (wk_res w1, b) \<and>
    sr_start E (wk_res w1) b (wr_sr (wk_wire w)) = Inr sr \<and>
    wr_sent wire = wr_sent (wk_wire w) @ pending SV sr"
proof -
  from body obtain ec m p where p: "on_read_body E sd ec m (w\<lparr>wk_pr := p\<rparr>) = Inr w1"
    by (auto elim: body_cases)
  obtain b sr where b: "wk_pr w1 = p"
    "answer E (wk_doc_root w1) sd (pr_get E p) [] = Inr (wk_res w1, b)"
    "sr_start E (wk_res w1) b (wr_sr (wk_wire w)) = Inr sr"
    "wk_wire w1 = (wk_wire w)\<lparr>wr_sr := sr\<rparr>"
    using on_read_body_Writing [OF p writing] by auto
  with contractD(6) [OF C, of "wk_res w1" b "wr_sr (wk_wire w)"] have
    r: "ready SV (wr_sr (wk_wire w1))" "pending SV (wr_sr (wk_wire w1)) \<noteq> []" by auto
  from wr(1) have "async_write_complies (we_serializer E) (wk_wire w1) ev2" by simp
  from async_write_sat [OF contractD(2) [OF C] r this] b(4) wr(2)
  have "wr_sent wire = wr_sent (wk_wire w) @ pending SV sr" by (auto simp: moved_def)
  with b show ?thesis by auto
qed

text \<open>The code with which the outstanding operation completes in a step.\<close>

fun completion_code ::
  "('p, 's, 'f) worker_env \<Rightarrow> ('p, 's) worker \<Rightarrow> worker_event \<Rightarrow> error_code option" where
  "completion_code E w (Accepted ec) = Some ec"
| "completion_code E w (Header_read ev) =
     (case async_read_header (we_parser E) (wk_pr w) ev of
        Finished ec n p rest \<Rightarrow> Some ec | _ \<Rightarrow> None)"
| "completion_code E w (Body_read ev) =
     (case async_read (we_parser E) (wk_pr w) ev of
        Inr (Finished ec n p rest) \<Rightarrow> Some ec | _ \<Rightarrow> None)"
| "completion_code E w (Written ev) =
     (case async_write (we_serializer E) (wk_wire w) ev of
        Finished ec n wire rest \<Rightarrow> Some ec | _ \<Rightarrow> None)"
| "completion_code E w Stopped = None"

text \<open>The phase each handler leaves, when it returns.\<close>

lemma on_failure_phase:
  "on_failure E ec w = Inr w' \<Longrightarrow>
   wk_phase w' = (if ec = Operation_aborted then Idle else Accepting)"
  by (drule on_failure_Inr) (simp split: if_splits)

lemma do_read_phase: "do_read E w = Inr w' \<Longrightarrow> wk_phase w' = Reading_header"
  by (auto simp: do_read_def fail_simps)

lemma on_accept_phase:
  "on_accept E ec w = Inr w' \<Longrightarrow>
   wk_phase w' = (if ec = Success then Reading_header
     else if ec = Operation_aborted then Idle else Accepting)"
  by (auto simp: on_accept_def failed_def dest!: on_failure_phase do_read_phase
      split: if_splits)

lemma on_read_header_phase:
  "on_read_header E ec n w = Inr w' \<Longrightarrow>
   wk_phase w' = (if ec = Success then Reading_body
     else if ec = Operation_aborted then Idle else Accepting)"
  by (auto simp: on_read_header_def failed_def fail_simps dest!: on_failure_phase do_read_phase
      split: if_splits)

lemma on_read_body_phase:
  "on_read_body E sd ec n w = Inr w' \<Longrightarrow>
   wk_phase w' = (if ec = Success then Writing
     else if ec = Operation_aborted then Idle else Accepting)"
  by (auto simp: on_read_body_def failed_def fail_simps Let_def dest!: on_failure_phase do_read_phase
      split: if_splits)

lemma on_write_phase:
  "on_write E ec n w = Inr w' \<Longrightarrow>
   wk_phase w' = (if ec = Success \<and> res_keep_alive E (wk_res w) then Reading_header
     else if ec = Operation_aborted then Idle else Accepting)"
  by (auto simp: on_write_def failed_def do_accept_def dest!: on_failure_phase do_read_phase
      split: if_splits)

lemmas handler_phases =
  on_accept_phase on_read_header_phase on_read_body_phase on_write_phase

lemma step_completion:
  "worker_step E sd w e (Inr w') \<Longrightarrow> e \<noteq> Stopped \<Longrightarrow>
   \<exists>ec. completion_code E w e = Some ec \<and> (wk_phase w' = Idle \<longleftrightarrow> ec = Operation_aborted)"
  by (cases e) (auto elim!: worker_step_cases dest!: handler_phases [OF sym]
      split: if_splits)

text \<open>A read does not half-close the connection: its code is never \<open>asio::error::eof\<close>.\<close>

lemma on_failure_halfclose:
  "on_failure E ec w = Inr w' \<Longrightarrow> ec \<noteq> Eof \<Longrightarrow>
   count_list (wk_sock w') Shutdown_send = count_list (wk_sock w) Shutdown_send"
  by (auto simp: on_failure_def worker_fail_def do_accept_def Let_def split: if_splits)

lemma read_code:
  assumes C: "worker_contract E V SV st" and I: "worker_inv E V SV st w"
    and ok: "event_ok E w e" and step: "worker_step E sd w e (Inr w')"
    and ph: "wk_phase w \<in> {Reading_header, Reading_body}" and e: "e \<noteq> Stopped"
  shows "completion_code E w e \<noteq> Some Eof"
    "count_list (wk_sock w') Shutdown_send = count_list (wk_sock w) Shutdown_send"
proof -
  have "completion_code E w e \<noteq> Some Eof \<and>
    count_list (wk_sock w') Shutdown_send = count_list (wk_sock w) Shutdown_send"
    using step
  proof cases
    case (header_read ev ec n p)
    from I header_read ok have "idle V (wk_pr w)" "launch_complies (read_header_call (we_parser E))
        (read_recv (we_parser E)) read_stream_ok read_header_op_new (wk_pr w) ev"
      by (simp_all add: worker_inv_def)
    from header_finished [OF contractD(1) [OF C] disjI1 [OF this(1)] this(2) header_read(4)]
    have "ec \<noteq> Eof" by metis
    moreover note header_read(2) [symmetric]
    ultimately show ?thesis using header_read(1,3,4)
      by (auto simp: on_read_header_def fail_simps dest: on_failure_halfclose split: if_splits)
  next
    case (body_read ev ec n p)
    from I body_read ok have "idle V (wk_pr w) \<or> is_complete (we_parser E) (wk_pr w)"
      "body_complies (we_parser E) False (wk_pr w) ev" by (auto simp: worker_inv_def)
    from body_finished [OF contractD(1) [OF C] this] body_read(4)
    have "ec \<noteq> Eof" unfolding async_read_Inr by blast
    moreover note body_read(2) [symmetric]
    ultimately show ?thesis using body_read(1,3,4)
      by (auto simp: on_read_body_def Let_def fail_simps dest: on_failure_halfclose split: if_splits)
  qed (use ph e in auto)
  then show "completion_code E w e \<noteq> Some Eof"
    "count_list (wk_sock w') Shutdown_send = count_list (wk_sock w) Shutdown_send" by blast+
qed

text \<open>C12: The typestate of a worker: in every state it can reach, whatever requests it has
  read, the operation that is outstanding is one its parser and serializer allow. While it accepts, the parser can be
  started; while it reads a header, the parser has been started and has none yet; while
  it reads a body, the header is there; while it writes, the request is complete and the
  serializer has something to write. And the branch of \<open>fail\<close> that half-closes the connection
  at the end of the stream is never taken for a read: no read completes with
  \<open>asio::error::eof\<close>, and none is followed by a half-close.\<close>

theorem worker_typestate:
  assumes "worker_contract E V SV startable" "worker_reach E w"
  shows "(case wk_phase w of
        Idle \<Rightarrow> True
      | Accepting \<Rightarrow> startable (wk_pr w)
      | Reading_header \<Rightarrow> idle V (wk_pr w) \<and> \<not> got_header (we_parser E) (wk_pr w)
      | Reading_body \<Rightarrow> got_header (we_parser E) (wk_pr w) \<and>
          (idle V (wk_pr w) \<or> is_complete (we_parser E) (wk_pr w))
      | Writing \<Rightarrow> is_complete (we_parser E) (wk_pr w) \<and> ready SV (wr_sr (wk_wire w)) \<and>
          pending SV (wr_sr (wk_wire w)) \<noteq> []) \<and>
    (\<forall>sd e w'. wk_phase w \<in> {Reading_header, Reading_body} \<and> event_ok E w e \<and> e \<noteq> Stopped \<and>
       worker_step E sd w e (Inr w') \<longrightarrow>
       completion_code E w e \<noteq> Some Eof \<and>
       count_list (wk_sock w') Shutdown_send = count_list (wk_sock w) Shutdown_send)"
proof -
  note inv = worker_reach_inv [OF assms]
  from inv have "case wk_phase w of
        Idle \<Rightarrow> True
      | Accepting \<Rightarrow> startable (wk_pr w)
      | Reading_header \<Rightarrow> idle V (wk_pr w) \<and> \<not> got_header (we_parser E) (wk_pr w)
      | Reading_body \<Rightarrow> got_header (we_parser E) (wk_pr w) \<and>
          (idle V (wk_pr w) \<or> is_complete (we_parser E) (wk_pr w))
      | Writing \<Rightarrow> is_complete (we_parser E) (wk_pr w) \<and> ready SV (wr_sr (wk_wire w)) \<and>
          pending SV (wr_sr (wk_wire w)) \<noteq> []" by (simp add: worker_inv_def)
  with read_code [OF assms(1) inv] show ?thesis by blast
qed

theorem worker_typestate_witness:
  "let w = small_worker Writing [Close] [10, 0] small_ok [1, 2, 3] [] in
   is_complete small_ops (wk_pr w) \<and> pending small_sr_view (wr_sr (wk_wire w)) \<noteq> [] \<and>
   completion_code small_env (small_worker Reading_body [Close] [10] [] [] [])
     (Body_read [Done (Success, [0])]) \<noteq> Some Eof"
proof -
  have "completion_code small_env (small_worker Reading_body [Close] [10] [] [] [])
     (Body_read [Done (Success, [0])]) \<noteq> Some Eof"
    using conjunct2 [OF worker_typestate [OF small_env_contract small_reach(2)], rule_format,
        OF conjI [OF _ conjI [OF small_events(3) conjI [OF _ small_step_body]]]]
    by (simp add: small_worker_def)
  with worker_typestate [OF small_env_contract small_reach(3)] show ?thesis
    by (simp add: small_worker_def small_env_def Let_def)
qed

text \<open>C36: A worker keeps serving until it is cancelled: when a handler returns, another
  operation is outstanding, unless the operation it ran for was reported as aborted. No
  other error, in any phase, ends it.\<close>

theorem worker_serves_until_aborted:
  assumes "worker_step E sd w e (Inr w')" "e \<noteq> Stopped"
  shows "wk_phase w' = Idle \<longleftrightarrow> completion_code E w e = Some Operation_aborted"
  using step_completion [OF assms] by auto

theorem worker_serves_until_aborted_witness:
  "wk_phase (small_worker Writing [Close] [10, 0] small_ok [1, 2, 3] []) = Idle \<longleftrightarrow>
   completion_code small_env (small_worker Reading_body [Close] [10] [] [] [])
     (Body_read [Done (Success, [0])]) = Some Operation_aborted"
  by (rule worker_serves_until_aborted [OF small_step_body]) simp

text \<open>The answer that is being written, and what follows a write.\<close>

lemma answered:
  assumes "worker_step E sd w (Body_read ev) (Inr w1)" "wk_phase w1 = Writing"
  shows "wk_sock w1 = wk_sock w"
    "\<exists>b. answer E (wk_doc_root w1) sd (pr_get E (wk_pr w1)) [] = Inr (wk_res w1, b)"
    "keep_alive_of (wk_res w1) = Some (\<not> sd \<and> rq_keep_alive (pr_get E (wk_pr w1)))"
    "sd \<Longrightarrow> status_of (wk_res w1) = Some Status_service_unavailable"
proof -
  from assms(1) obtain ec m p where "on_read_body E sd ec m (w\<lparr>wk_pr := p\<rparr>) = Inr w1"
    by (auto elim: body_cases)
  from on_read_body_Writing [OF this assms(2)] obtain b where
    b: "wk_sock w1 = wk_sock w"
      "answer E (wk_doc_root w1) sd (pr_get E (wk_pr w1)) [] = Inr (wk_res w1, b)" by auto
  then show "wk_sock w1 = wk_sock w"
    "\<exists>b. answer E (wk_doc_root w1) sd (pr_get E (wk_pr w1)) [] = Inr (wk_res w1, b)" by blast+
  show "keep_alive_of (wk_res w1) = Some (\<not> sd \<and> rq_keep_alive (pr_get E (wk_pr w1)))"
    using b(2) hr.framed su.framed by (fastforce simp: answer_def split: if_splits)
  show "status_of (wk_res w1) = Some Status_service_unavailable" if sd
    using b(2) su.framed that by (fastforce simp: answer_def)
qed

lemma after_write:
  assumes "worker_step E sd w (Written ev) (Inr w1)"
  shows "if completion_code E w (Written ev) = Some Success \<and> res_keep_alive E (wk_res w)
    then wk_phase w1 = Reading_header \<and> wk_sock w1 = wk_sock w
    else if completion_code E w (Written ev) = Some Operation_aborted
    then wk_phase w1 = Idle \<and> wk_sock w1 = wk_sock w
    else wk_phase w1 = Accepting \<and> wk_sock w1 = wk_sock w @
      (if completion_code E w (Written ev) = Some Eof then [Shutdown_send, Close] else [Close])"
proof -
  from assms obtain ec n wire where
    w: "async_write (we_serializer E) (wk_wire w) ev = Finished ec n wire []"
    "on_write E ec n (w\<lparr>wk_wire := wire\<rparr>) = Inr w1"
    by (auto elim: written_cases)
  show ?thesis
  proof (cases "ec = Success")
    case True
    with w show ?thesis by (auto simp: on_write_def do_accept_def do_read_def fail_simps)
  next
    case False
    with w(2) have "on_failure E ec (w\<lparr>wk_wire := wire\<rparr>) = Inr w1"
      by (simp add: on_write_def failed_def)
    with False w(1) show ?thesis
      by (auto simp: on_failure_def worker_fail_def do_accept_def Let_def split: if_splits)
  qed
qed

text \<open>C15: After the answer the worker reads another request from the same connection exactly
  when the write succeeded, the server was not shutting down when the answer was made, and
  the request asked to keep the connection. When the write was aborted nothing follows, and
  in every other case the socket is closed, after a half-close if the write reported the end
  of the stream, and the next connection is accepted.\<close>

theorem connection_kept_iff:
  assumes ka: "\<forall>res k. keep_alive_of res = Some k \<longrightarrow> res_keep_alive E res = k"
    and "worker_step E sd w (Body_read ev1) (Inr w1)" "wk_phase w1 = Writing"
    and "worker_step E sd' w1 (Written ev2) (Inr w2)"
  shows "if completion_code E w1 (Written ev2) = Some Success \<and> \<not> sd \<and>
        rq_keep_alive (pr_get E (wk_pr w1))
     then wk_phase w2 = Reading_header \<and> wk_sock w2 = wk_sock w
     else if completion_code E w1 (Written ev2) = Some Operation_aborted
     then wk_phase w2 = Idle \<and> wk_sock w2 = wk_sock w
     else wk_phase w2 = Accepting \<and> wk_sock w2 = wk_sock w @
       (if completion_code E w1 (Written ev2) = Some Eof then [Shutdown_send, Close] else [Close])"
proof -
  note ans = answered [OF assms(2,3)]
  from ka ans(3) have "res_keep_alive E (wk_res w1) \<longleftrightarrow> \<not> sd \<and> rq_keep_alive (pr_get E (wk_pr w1))"
    by blast
  with after_write [OF assms(4)] ans(1) show ?thesis by (simp split: if_splits)
qed

lemma small_keep_alive:
  "\<forall>res k. keep_alive_of res = Some k \<longrightarrow> res_keep_alive small_env res = k"
  by (simp add: small_env_def)

theorem connection_kept_iff_witness:
  "wk_phase (small_worker Accepting [Close, Close] [] small_ok [2, 3] [1]) = Accepting \<and>
   wk_sock (small_worker Accepting [Close, Close] [] small_ok [2, 3] [1]) = [Close] @ [Close]"
proof -
  let ?w1 = "small_worker Writing [Close] [10, 0] small_ok [1, 2, 3] []"
  have "worker_step small_env False ?w1 (Written [Done (Other_error 1, 1)])
      (Inr (small_worker Accepting [Close, Close] [] small_ok [2, 3] [1]))"
    by (rule worker_stepI) code_simp
  moreover have "completion_code small_env ?w1 (Written [Done (Other_error 1, 1)]) = Some (Other_error 1)"
    by code_simp
  ultimately show ?thesis
    using connection_kept_iff [OF small_keep_alive small_step_body, of False _ _ ]
    by (simp add: small_worker_def)
qed

definition small_503 :: response where
  "small_503 = fst (projr (service_unavailable small_lib (small_request ''/'' ''h'') []))"

text \<open>Apart from the call on the socket, \<open>stop\<close> leaves no trace in the worker: no handler
  behaves differently after it.\<close>

definition quiet :: "('p, 's) worker \<Rightarrow> ('p, 's) worker" where
  "quiet w = w\<lparr>wk_sock := []\<rparr>"

abbreviation same_result ::
  "failure + ('p, 's) worker \<Rightarrow> failure + ('p, 's) worker \<Rightarrow> bool" where
  "same_result r r' \<equiv> rel_sum (=) (\<lambda>w w'. quiet w = quiet w') r r'"

lemma initiated_same:
  "quiet w = quiet w' \<Longrightarrow> same_result (initiated out w) (initiated out w')"
  by (cases out) (simp_all add: initiated_def)

lemma sbind_same:
  "(\<And>x. m = Inr x \<Longrightarrow> same_result (k x) (k' x)) \<Longrightarrow> same_result (sbind m k) (sbind m k')"
  by (cases m) simp_all

lemma quiet_eqE:
  assumes "quiet w' = quiet w"
  obtains l where "w' = w\<lparr>wk_sock := l\<rparr>"
  using assms by (cases w; cases w') (simp add: quiet_def)

lemma on_failure_same: "quiet w' = quiet w \<Longrightarrow> same_result (on_failure E ec w') (on_failure E ec w)"
  by (erule quiet_eqE) (simp add: on_failure_def worker_fail_def do_accept_def Let_def quiet_def)

lemma do_read_same: "quiet w' = quiet w \<Longrightarrow> same_result (do_read E w') (do_read E w)"
  unfolding do_read_def
  by (erule quiet_eqE, auto intro!: sbind_same initiated_same) (simp_all add: quiet_def)

lemma handlers_same:
  assumes "quiet w' = quiet w"
  shows "same_result (on_accept E ec w') (on_accept E ec w)"
    "same_result (on_read_header E ec n w') (on_read_header E ec n w)"
    "same_result (on_read_body E sd ec n w') (on_read_body E sd ec n w)"
    "same_result (on_write E ec n w') (on_write E ec n w)"
proof -
  from assms obtain l where l: "w' = w\<lparr>wk_sock := l\<rparr>" by (rule quiet_eqE)
  show "same_result (on_accept E ec w') (on_accept E ec w)"
    using assms by (simp add: on_accept_def on_failure_same do_read_same)
  show "same_result (on_read_header E ec n w') (on_read_header E ec n w)"
    using on_failure_same [OF assms, of E ec] unfolding on_read_header_def l
    by (auto intro!: sbind_same initiated_same) (simp_all add: quiet_def)
  show "same_result (on_read_body E sd ec n w') (on_read_body E sd ec n w)"
    using on_failure_same [OF assms, of E ec] unfolding on_read_body_def l
    by (auto intro!: sbind_same initiated_same simp: Let_def) (simp_all add: quiet_def)
  show "same_result (on_write E ec n w') (on_write E ec n w)"
    using on_failure_same [OF assms, of E ec] do_read_same [OF assms, of E]
    unfolding on_write_def l by (auto simp: do_accept_def quiet_def)
qed

lemma stop_same:
  assumes "worker_step E sd w e r"
  shows "\<exists>r'. worker_step E sd (worker_stop w) e r' \<and> same_result r' r"
proof -
  have q: "quiet (worker_stop w) = quiet w"
    "quiet ((worker_stop w)\<lparr>wk_pr := p\<rparr>) = quiet (w\<lparr>wk_pr := p\<rparr>)"
    "quiet ((worker_stop w)\<lparr>wk_wire := wire\<rparr>) = quiet (w\<lparr>wk_wire := wire\<rparr>)"
    "quiet (worker_stop (worker_stop w)) = quiet (worker_stop w)" for p wire
    by (simp_all add: quiet_def worker_stop_def)
  have f: "wk_phase (worker_stop w) = wk_phase w" "wk_pr (worker_stop w) = wk_pr w"
    "wk_wire (worker_stop w) = wk_wire w" by (simp_all add: worker_stop_def)
  have "worker_next E sd w e = Some r" using assms by (simp add: worker_step_next)
  then have "\<exists>r'. worker_next E sd (worker_stop w) e = Some r' \<and> same_result r' r"
    by (cases e)
      (auto simp: f q handlers_same split: if_splits outcome.splits list.splits sum.splits)
  then show ?thesis by (simp add: worker_step_next)
qed

text \<open>C31: \<open>stop\<close> does nothing but cancel what is outstanding: after it every completion is
  handled as without it. So a worker whose operation completed before the call, with its
  handler still queued, is not stopped: the handler starts the next operation.\<close>

theorem stop_can_be_lost:
  assumes "worker_step E sd w e (Inr w1)" "e \<noteq> Stopped"
    and "completion_code E w e \<noteq> Some Operation_aborted"
  shows "\<exists>w2. worker_step E sd (worker_stop w) e (Inr w2) \<and> quiet w2 = quiet w1 \<and>
    wk_phase w2 \<noteq> Idle"
proof -
  from stop_same [OF assms(1)] obtain w2
    where w2: "worker_step E sd (worker_stop w) e (Inr w2)" "quiet w2 = quiet w1"
    by (auto simp: rel_sum_simps elim: rel_sum.cases)
  moreover from w2(2) have "wk_phase w2 = wk_phase w1" by (auto elim: quiet_eqE)
  moreover from step_completion [OF assms(1,2)] assms(3) have "wk_phase w1 \<noteq> Idle" by auto
  ultimately show ?thesis by auto
qed

theorem stop_can_be_lost_witness:
  "\<exists>w2. worker_step small_env False
      (worker_stop (small_worker Writing [Close] [10, 0] small_ok [1, 2, 3] []))
      (Written [Done (Success, 3)]) (Inr w2) \<and>
    quiet w2 = quiet (small_worker Reading_header [Close] [] small_ok [] [1, 2, 3]) \<and>
    wk_phase w2 \<noteq> Idle"
proof (rule stop_can_be_lost [OF small_step_write])
  show "completion_code small_env (small_worker Writing [Close] [10, 0] small_ok [1, 2, 3] [])
      (Written [Done (Success, 3)]) \<noteq> Some Operation_aborted" by code_simp
qed simp

end
