(* ===== verification/Acceptor.thy ===== *)
theory Acceptor
  imports Fixed_Array Worker_Laws
begin

text \<open>
  \<open>example/server/acceptor.hpp\<close>: a service that listens on one endpoint and owns the array
  of workers that share it; and the constructor of \<open>class worker\<close>, which takes its number
  from the acceptor. Running and stopping the acceptor runs and stops every worker.
\<close>

section \<open>The class\<close>

text \<open>\<open>ac_sock\<close> is what has been called on the listening socket. The reference to the
  server is the flag that the steps are given (\<open>is_shutting_down\<close>).\<close>

record ('p, 's) acceptor =
  ac_sock :: "sock_call list"
  ac_id :: size_t
  ac_wv :: "('p, 's) worker fixed_array"

text \<open>What constructing a worker calls: the parser's and the serializer's constructor.\<close>

record ('p, 's) worker_parts =
  new_pr :: "failure + 'p"
  new_sr :: "size_t \<Rightarrow> failure + 's"

text \<open>\<open>next_id\<close>; the state is the member \<open>id_\<close> of the acceptor.\<close>

definition next_id :: "size_t \<Rightarrow> size_t \<times> size_t" where
  "next_id c = (let c1 = c + 1 in (c1, c1))"

text \<open>The constructor of \<open>worker\<close>, its members in the order of their declaration.\<close>

definition worker_new ::
  "('p, 's) worker_parts \<Rightarrow> string \<Rightarrow> size_t \<Rightarrow> failure + (('p, 's) worker \<times> size_t)" where
  "worker_new Q doc_root c =
     sbind (new_pr Q) (\<lambda>pr.
       sbind (new_sr Q 65536) (\<lambda>sr.
         (case next_id c of (i, c1) \<Rightarrow>
            Inr (\<lparr>wk_phase = Idle, wk_sock = [], wk_doc_root = doc_root, wk_pr = pr,
                  wk_res = [], wk_wire = \<lparr>wr_sr = sr, wr_sent = []\<rparr>, wk_id = i\<rparr>, c1))))"

text \<open>The constructor of \<open>acceptor\<close>. Opening and binding the listening socket may throw;
  then there is no array yet.\<close>

definition acceptor_new ::
  "(nat \<Rightarrow> bool) \<Rightarrow> ('p, 's) worker_parts \<Rightarrow> failure + unit \<Rightarrow> size_t \<Rightarrow> string \<Rightarrow>
   failure + ('p, 's) acceptor" where
  "acceptor_new can_allocate Q open_listen num_workers doc_root =
     sbind open_listen (\<lambda>_.
       (case fixed_array_new can_allocate (worker_new Q doc_root) (unat num_workers) 0 of
          (log, Inl f) \<Rightarrow> Inl f
        | (log, Inr (wv, c)) \<Rightarrow> Inr \<lparr>ac_sock = [], ac_id = c, ac_wv = wv\<rparr>))"

definition acceptor_run ::
  "('p, 's, 'f) worker_env \<Rightarrow> ('p, 's) acceptor \<Rightarrow> ('p, 's) acceptor" where
  "acceptor_run E a = a\<lparr>ac_wv := fa_for_each (worker_run E) (ac_wv a)\<rparr>"

definition acceptor_stop :: "('p, 's) acceptor \<Rightarrow> ('p, 's) acceptor" where
  "acceptor_stop a =
     a\<lparr>ac_sock := ac_sock a @ [Cancel], ac_wv := fa_for_each worker_stop (ac_wv a)\<rparr>"

text \<open>One of the workers handles a completion, while the server's flag is \<open>sd\<close>.\<close>

inductive acceptor_step ::
  "('p, 's, 'f) worker_env \<Rightarrow> bool \<Rightarrow> ('p, 's) acceptor \<Rightarrow> ('p, 's) acceptor \<Rightarrow> bool"
  for E :: "('p, 's, 'f) worker_env" and sd :: bool where
  worker: "i < fa_size (ac_wv a) \<Longrightarrow> event_ok E (fa_elems (ac_wv a) ! i) e \<Longrightarrow> e \<noteq> Stopped \<Longrightarrow>
    worker_step E sd (fa_elems (ac_wv a) ! i) e (Inr w) \<Longrightarrow>
    acceptor_step E sd a
      (a\<lparr>ac_wv := (ac_wv a)\<lparr>fa_elems := (fa_elems (ac_wv a))[i := w]\<rparr>\<rparr>)"

inductive_cases acceptor_stepE: "acceptor_step E sd a a'"

section \<open>Lemmas\<close>

lemma acceptor_step_worker:
  assumes "acceptor_step E sd a a'"
  obtains i e w where "i < length (fa_elems (ac_wv a))" "event_ok E (fa_elems (ac_wv a) ! i) e"
    "e \<noteq> Stopped" "worker_step E sd (fa_elems (ac_wv a) ! i) e (Inr w)"
    "fa_elems (ac_wv a') = (fa_elems (ac_wv a))[i := w]" "ac_sock a' = ac_sock a" "ac_id a' = ac_id a"
  using assms by (auto elim!: acceptor_stepE simp: fa_size_def)

text \<open>The number of a worker never changes.\<close>

lemma worker_ids [simp]:
  "wk_id (worker_run E w) = wk_id w" "wk_id (worker_stop w) = wk_id w"
  by (simp_all add: worker_run_def worker_stop_def do_accept_def)

lemma worker_step_id: "worker_step E sd w e (Inr w') \<Longrightarrow> wk_id w' = wk_id w"
  by (rule worker_step_keeps [where f = wk_id]) simp_all

lemma worker_new_Inr:
  "worker_new Q root c = Inr (w, c') \<Longrightarrow> c' = c + 1 \<and> wk_id w = c + 1 \<and> wk_sock w = [] \<and>
   wr_sent (wk_wire w) = [] \<and> wk_doc_root w = root \<and> wk_phase w = Idle"
  by (auto simp: worker_new_def next_id_def Let_def fail_simps)

lemma make_workers:
  "make_all (worker_new Q root) n c = Inr (ws, c') \<Longrightarrow>
   c' = c + of_nat n \<and> map wk_id ws = map (\<lambda>k. c + of_nat k) [1..<Suc n] \<and>
   (\<forall>w \<in> set ws. wk_sock w = [] \<and> wr_sent (wk_wire w) = [] \<and> wk_doc_root w = root \<and>
     wk_phase w = Idle)"
proof (induction n arbitrary: c ws)
  case (Suc n)
  from Suc.prems obtain w ws' where w: "worker_new Q root c = Inr (w, c + 1)" "wk_id w = c + 1"
    "wk_sock w = []" "wr_sent (wk_wire w) = []" "wk_doc_root w = root" "wk_phase w = Idle" "ws = w # ws'" "make_all (worker_new Q root) n (c + 1) = Inr (ws', c')"
    by (auto simp: fail_simps dest: worker_new_Inr)
  have "[1..<Suc (Suc n)] = 1 # map Suc [1..<Suc n]"
    by (simp add: upt_conv_Cons map_Suc_upt del: upt_Suc)
  with Suc.IH [OF w(8)] w show ?case by (simp add: algebra_simps o_def del: upt_Suc)
qed simp

text \<open>C39: A new acceptor has exactly \<open>num_workers\<close> workers, numbered from 1 in the order of the
  array. The numbers are all different, whatever the 64-bit argument, and the last one is
  what the acceptor's counter is left at. Every worker has the document root that the
  acceptor was given, has called nothing on its socket and is not running yet.\<close>

theorem acceptor_worker_ids:
  assumes "acceptor_new can_allocate Q open_listen num_workers root = Inr a"
  shows "map wk_id (fa_elems (ac_wv a)) = map of_nat [1..<Suc (unat num_workers)] \<and>
    distinct (map wk_id (fa_elems (ac_wv a))) \<and> ac_id a = num_workers \<and>
    list_all (\<lambda>w. wk_doc_root w = root \<and> wk_sock w = [] \<and> wk_phase w = Idle) (fa_elems (ac_wv a))"
proof -
  from assms obtain log c where
    "fixed_array_new can_allocate (worker_new Q root) (unat num_workers) 0 = (log, Inr (ac_wv a, c))"
    and id: "ac_id a = c"
    by (auto simp: acceptor_new_def fail_simps split: prod.splits sum.splits)
  note m = fixed_array_new_Inr(1) [OF this(1)]
  have "inj_on (of_nat :: nat \<Rightarrow> size_t) {1..<Suc (unat num_workers)}"
  proof (rule inj_onI)
    fix x y assume *: "x \<in> {1..<Suc (unat num_workers)}" "y \<in> {1..<Suc (unat num_workers)}"
      and eq: "(of_nat x :: size_t) = of_nat y"
    have "unat num_workers < 2 ^ 64" using unsigned_less [of num_workers] by simp
    with * have "x < 2 ^ 64" "y < 2 ^ 64" by simp_all
    moreover from eq have "unat (of_nat x :: size_t) = unat (of_nat y :: size_t)" by simp
    ultimately show "x = y" by (simp add: unat_of_nat take_bit_nat_eq_self)
  qed
  with make_workers [OF m] id show ?thesis
    by (simp add: distinct_map list_all_iff del: upt_Suc)
qed

definition small_parts :: "(small_parser, byte list) worker_parts" where
  "small_parts = \<lparr>new_pr = Inr small_start, new_sr = (\<lambda>_. Inr [])\<rparr>"

definition small_acceptor :: "(small_parser, byte list) acceptor" where
  "small_acceptor = projr (acceptor_new (\<lambda>_. True) small_parts (Inr ()) 2 ''/srv'')"

lemma small_acceptor_new: "acceptor_new (\<lambda>_. True) small_parts (Inr ()) 2 ''/srv'' = Inr small_acceptor"
  by code_simp

theorem acceptor_worker_ids_witness:
  "map wk_id (fa_elems (ac_wv small_acceptor)) = [1, 2] \<and>
   list_all (\<lambda>w. wk_doc_root w = ''/srv'') (fa_elems (ac_wv small_acceptor))"
  using acceptor_worker_ids [OF small_acceptor_new] by (auto simp: upt_rec list_all_iff)

end
