(* ===== verification/Server.thy ===== *)
theory Server
  imports Http_Prelude
begin

text \<open>
  \<open>example/server/server.hpp\<close> and \<open>server.cpp\<close>: the server that owns the services and
  shuts them down on a signal, gracefully for at most thirty seconds. A service is any
  type with \<open>run\<close> and \<open>stop\<close>, the two virtual functions; the steps below are the
  completion handlers that \<open>ioc_.run()\<close> executes, one at a time.
\<close>

section \<open>The class\<close>

text \<open>A handler in the queue of the \<open>io_context\<close>, with its arguments bound.\<close>

datatype completion =
    On_signal error_code int
  | On_timer error_code

text \<open>
  The waits that have been started on \<open>sigs_\<close> and \<open>timer_\<close> and have not completed, and
  the completions whose handlers have not run. The timer's expiry is in seconds.
\<close>

record 'v server =
  sigs_waits :: nat
  timer_waits :: nat
  timer_expiry :: nat
  queued :: "completion list"
  services :: "'v list"
  is_shutting_down :: bool
  is_stopped :: bool

text \<open>The operations of the signal set and the timer: a wait is pending until it completes,
  and cancelling (which setting a new expiry does too) completes every pending wait with
  \<open>operation_aborted\<close>, through the queue.\<close>

definition sigs_async_wait :: "'v server \<Rightarrow> 'v server" where
  "sigs_async_wait s = s\<lparr>sigs_waits := sigs_waits s + 1\<rparr>"

definition sigs_cancel :: "'v server \<Rightarrow> 'v server" where
  "sigs_cancel s =
     s\<lparr>sigs_waits := 0, queued := queued s @ replicate (sigs_waits s) (On_signal Operation_aborted 0)\<rparr>"

definition timer_cancel :: "'v server \<Rightarrow> 'v server" where
  "timer_cancel s =
     s\<lparr>timer_waits := 0, queued := queued s @ replicate (timer_waits s) (On_timer Operation_aborted)\<rparr>"

definition timer_expires_after :: "nat \<Rightarrow> 'v server \<Rightarrow> 'v server" where
  "timer_expires_after d s = (timer_cancel s)\<lparr>timer_expiry := d\<rparr>"

definition timer_async_wait :: "'v server \<Rightarrow> 'v server" where
  "timer_async_wait s = s\<lparr>timer_waits := timer_waits s + 1\<rparr>"

definition server_new :: "'v server" where
  "server_new =
     \<lparr>sigs_waits = 0, timer_waits = 0, timer_expiry = 0, queued = [], services = [],
      is_shutting_down = False, is_stopped = False\<rparr>"

text \<open>The constructor of the service may throw, then there is no new service.\<close>

definition make_service :: "failure + 'v \<Rightarrow> 'v server \<Rightarrow> failure + 'v server" where
  "make_service new_service s = sbind new_service (\<lambda>p. Inr (s\<lparr>services := services s @ [p]\<rparr>))"

text \<open>\<open>server::run\<close> up to \<open>ioc_.run()\<close>, which executes the steps.\<close>

definition server_run :: "('v \<Rightarrow> 'v) \<Rightarrow> 'v server \<Rightarrow> 'v server" where
  "server_run svc_run s =
     (let s1 = sigs_async_wait s in s1\<lparr>services := map svc_run (services s1)\<rparr>)"

definition server_stop :: "('v \<Rightarrow> 'v) \<Rightarrow> 'v server \<Rightarrow> 'v server" where
  "server_stop svc_stop s =
     (if is_stopped s then s
      else
        (let s1 = s\<lparr>is_stopped := True\<rparr>;
             s2 = sigs_cancel s1;
             s3 = timer_cancel s2
         in s3\<lparr>services := map svc_stop (services s3)\<rparr>))"

definition on_signal ::
  "('v \<Rightarrow> 'v) \<Rightarrow> error_code \<Rightarrow> int \<Rightarrow> 'v server \<Rightarrow> 'v server" where
  "on_signal svc_stop ec sig s =
     (if \<not> is_shutting_down s then
        (let s1 = s\<lparr>is_shutting_down := True\<rparr>;
             s2 = sigs_async_wait s1;
             s3 = timer_expires_after 30 s2
         in timer_async_wait s3)
      else server_stop svc_stop s)"

definition on_timer :: "('v \<Rightarrow> 'v) \<Rightarrow> error_code \<Rightarrow> 'v server \<Rightarrow> 'v server" where
  "on_timer svc_stop ec s = (if \<not> failed ec then server_stop svc_stop s else s)"

fun run_completion :: "('v \<Rightarrow> 'v) \<Rightarrow> completion \<Rightarrow> 'v server \<Rightarrow> 'v server" where
  "run_completion svc_stop (On_signal ec sig) s = on_signal svc_stop ec sig s"
| "run_completion svc_stop (On_timer ec) s = on_timer svc_stop ec s"

section \<open>The steps\<close>

text \<open>
  A signal arrives while a wait is pending, the timer expires, one of the queued handlers
  runs, or a service does something on its own (which may depend on
  \<open>is_shutting_down\<close>). Queued handlers may run in any order.
\<close>

datatype server_event = Signal int | Expired | Handled completion | Serviced

inductive server_step ::
  "('v \<Rightarrow> 'v) \<Rightarrow> (bool \<Rightarrow> 'v \<Rightarrow> 'v \<Rightarrow> bool) \<Rightarrow> 'v server \<Rightarrow> server_event \<Rightarrow> 'v server \<Rightarrow> bool"
  for svc_stop and svc_step where
  signal: "sigs_waits s = Suc k \<Longrightarrow>
    server_step svc_stop svc_step s (Signal sig)
      (s\<lparr>sigs_waits := k, queued := queued s @ [On_signal Success sig]\<rparr>)"
| expired: "timer_waits s = Suc k \<Longrightarrow>
    server_step svc_stop svc_step s Expired
      (s\<lparr>timer_waits := k, queued := queued s @ [On_timer Success]\<rparr>)"
| handled: "queued s = before @ c # after \<Longrightarrow>
    server_step svc_stop svc_step s (Handled c)
      (run_completion svc_stop c (s\<lparr>queued := before @ after\<rparr>))"
| serviced: "i < length (services s) \<Longrightarrow>
    svc_step (is_shutting_down s) (services s ! i) v \<Longrightarrow>
    server_step svc_stop svc_step s Serviced (s\<lparr>services := (services s)[i := v]\<rparr>)"

inductive_cases server_stepE: "server_step svc_stop svc_step s e s'"

text \<open>The executions of a server that has been given services and is run, with their events.\<close>

inductive server_trace ::
  "('v \<Rightarrow> 'v) \<Rightarrow> ('v \<Rightarrow> 'v) \<Rightarrow> (bool \<Rightarrow> 'v \<Rightarrow> 'v \<Rightarrow> bool) \<Rightarrow> 'v list \<Rightarrow>
   server_event list \<Rightarrow> 'v server \<Rightarrow> bool"
  for svc_run and svc_stop and svc_step and vs where
  run: "server_trace svc_run svc_stop svc_step vs []
    (server_run svc_run (server_new\<lparr>services := vs\<rparr>))"
| step: "server_trace svc_run svc_stop svc_step vs es s \<Longrightarrow>
    server_step svc_stop svc_step s e s' \<Longrightarrow>
    server_trace svc_run svc_stop svc_step vs (es @ [e]) s'"

section \<open>The state machine\<close>

text \<open>The waits and the queued handlers of each kind.\<close>

fun is_signal :: "completion \<Rightarrow> bool" where
  "is_signal (On_signal ec sig) = True"
| "is_signal (On_timer ec) = False"

definition signals_due :: "'v server \<Rightarrow> nat" where
  "signals_due s = sigs_waits s + length (filter is_signal (queued s))"

definition timers_due :: "'v server \<Rightarrow> nat" where
  "timers_due s = timer_waits s + length (filter (\<lambda>c. \<not> is_signal c) (queued s))"

fun completion_ec :: "completion \<Rightarrow> error_code" where
  "completion_ec (On_signal ec sig) = ec"
| "completion_ec (On_timer ec) = ec"

fun is_handled :: "server_event \<Rightarrow> bool" where
  "is_handled (Handled c) = True"
| "is_handled e = False"

definition handled_count :: "server_event list \<Rightarrow> nat" where
  "handled_count es = length (filter is_handled es)"

lemma handled_count_simps [simp]:
  "handled_count [] = 0"
  "handled_count (es @ [e]) = handled_count es + (if is_handled e then 1 else 0)"
  by (simp_all add: handled_count_def)

text \<open>The three states of the server, with the number \<open>k\<close> of its handlers that have run.\<close>

definition server_inv :: "nat \<Rightarrow> 'v server \<Rightarrow> bool" where
  "server_inv k s \<longleftrightarrow>
     (is_stopped s \<longrightarrow> is_shutting_down s) \<and>
     (\<not> is_stopped s \<longrightarrow> (\<forall>c \<in> set (queued s). completion_ec c = Success) \<and> signals_due s = 1 \<and>
        timers_due s = k \<and> k = (if is_shutting_down s then 1 else 0)) \<and>
     (is_stopped s \<longrightarrow> sigs_waits s = 0 \<and> timer_waits s = 0 \<and> 2 \<le> k \<and>
        k + signals_due s + timers_due s \<le> 3)"

lemmas server_defs = sigs_async_wait_def sigs_cancel_def timer_cancel_def
  timer_expires_after_def timer_async_wait_def

lemmas due_defs = signals_due_def timers_due_def

lemma server_inv_run: "server_inv 0 (server_run r (server_new\<lparr>services := vs\<rparr>))"
  by (simp add: server_inv_def server_run_def server_new_def server_defs due_defs Let_def)

lemma run_completion_inv:
  assumes inv: "server_inv k s" and q: "queued s = before @ c # after"
  shows "server_inv (Suc k) (run_completion f c (s\<lparr>queued := before @ after\<rparr>))"
proof (cases "is_stopped s")
  case True
  with inv q show ?thesis
    by (cases c) (auto simp: server_inv_def due_defs on_signal_def on_timer_def server_stop_def)
next
  case False
  with inv q have "completion_ec c = Success" by (simp add: server_inv_def)
  with False inv q show ?thesis
    by (cases c; cases "is_shutting_down s")
      (auto simp: server_inv_def due_defs on_signal_def on_timer_def server_stop_def server_defs
        Let_def filter_empty_conv)
qed

lemma server_step_inv:
  assumes "server_step f st s e s'" "server_inv k s"
  shows "server_inv (k + (if is_handled e then 1 else 0)) s'"
  using assms(1)
proof cases
  case (handled before c after)
  with run_completion_inv [OF assms(2)] show ?thesis by simp
qed (use assms(2) in \<open>auto simp: server_inv_def due_defs\<close>)

lemma server_trace_inv: "server_trace r f st vs es s \<Longrightarrow> server_inv (handled_count es) s"
  by (induction rule: server_trace.induct) (auto intro: server_inv_run dest: server_step_inv)

lemma stopped_inv:
  assumes "server_inv k s" "is_stopped s"
  shows "is_shutting_down s" "sigs_waits s = 0" "timer_waits s = 0" "length (queued s) \<le> 1"
  using assms sum_length_filter_compl [of is_signal "queued s"] by (simp_all add: server_inv_def due_defs)

section \<open>The service interface\<close>

text \<open>
  What the server and its services promise each other. \<open>fresh\<close> holds of a service that
  has been constructed, \<open>good\<close> of one that has been run; \<open>stops\<close> counts the calls of
  \<open>stop\<close> it has received.
\<close>

definition services_ok :: "('v \<Rightarrow> bool) \<Rightarrow> ('v \<Rightarrow> nat) \<Rightarrow> 'v server \<Rightarrow> bool" where
  "services_ok good stops s \<longleftrightarrow>
     (\<forall>v \<in> set (services s). good v \<and> stops v = (if is_stopped s then 1 else 0))"

locale service =
  fixes svc_run svc_stop :: "'v \<Rightarrow> 'v"
    and svc_step :: "bool \<Rightarrow> 'v \<Rightarrow> 'v \<Rightarrow> bool"
    and fresh good :: "'v \<Rightarrow> bool"
    and stops :: "'v \<Rightarrow> nat"
  assumes run_good: "fresh v \<Longrightarrow> good (svc_run v)"
    and stop_good: "good v \<Longrightarrow> good (svc_stop v)"
    and step_good: "good v \<Longrightarrow> svc_step sd v v' \<Longrightarrow> good v'"
    and fresh_stops: "fresh v \<Longrightarrow> stops (svc_run v) = 0"
    and stop_stops: "stops (svc_stop v) = Suc (stops v)"
    and step_stops: "svc_step sd v v' \<Longrightarrow> stops v' = stops v"
begin

lemma stop_ok: "services_ok good stops s \<Longrightarrow> services_ok good stops (server_stop svc_stop s)"
proof (cases "is_stopped s")
  case False
  assume "services_ok good stops s"
  with False stop_good stop_stops show ?thesis
    by (auto simp: services_ok_def server_stop_def server_defs Let_def)
qed (simp add: server_stop_def)

lemma on_signal_ok: "services_ok good stops s \<Longrightarrow> services_ok good stops (on_signal svc_stop ec sig s)"
  by (cases "is_shutting_down s")
    (simp_all add: on_signal_def stop_ok, simp add: services_ok_def server_defs Let_def)

lemma completion_ok: "services_ok good stops s \<Longrightarrow> services_ok good stops (run_completion svc_stop c s)"
  by (cases c) (simp_all add: on_timer_def stop_ok on_signal_ok)

lemma step_ok:
  assumes "server_step svc_stop svc_step s e s'" "services_ok good stops s"
  shows "services_ok good stops s'"
  using assms(1)
proof cases
  case (handled before c after)
  from assms(2) have "services_ok good stops (s\<lparr>queued := before @ after\<rparr>)" by (simp add: services_ok_def)
  with handled completion_ok show ?thesis by simp
next
  case (serviced i v)
  from assms(2) serviced(3) have "good (services s ! i)"
    "stops (services s ! i) = (if is_stopped s then 1 else 0)" by (auto simp: services_ok_def)
  with serviced step_good step_stops have
    "good v" "stops v = (if is_stopped s then 1 else 0)" by auto
  with assms(2) serviced(2) show ?thesis
    by (auto simp: services_ok_def dest!: set_update_subset_insert [THEN subsetD])
qed (use assms(2) in \<open>simp_all add: services_ok_def\<close>)

lemma trace_ok:
  "server_trace svc_run svc_stop svc_step vs es s \<Longrightarrow> \<forall>v \<in> set vs. fresh v \<Longrightarrow> services_ok good stops s"
proof (induction rule: server_trace.induct)
  case run
  then show ?case
    by (auto simp: services_ok_def server_run_def server_new_def server_defs Let_def
        run_good fresh_stops)
qed (use step_ok in blast)

end

section \<open>Properties of the server\<close>

text \<open>For the witnesses: a service that counts the calls of \<open>stop\<close>, and an execution with
  two signals.\<close>

definition small_server :: "bool \<Rightarrow> bool \<Rightarrow> nat \<Rightarrow> nat \<Rightarrow> completion list \<Rightarrow> nat list \<Rightarrow> nat server" where
  "small_server sd st sw tw q vs =
     \<lparr>sigs_waits = sw, timer_waits = tw, timer_expiry = (if sd then 30 else 0), queued = q,
      services = vs, is_shutting_down = sd, is_stopped = st\<rparr>"

abbreviation small_trace :: "server_event list \<Rightarrow> nat server \<Rightarrow> bool" where
  "small_trace \<equiv> server_trace id Suc (\<lambda>_. (=)) [0]"

lemma small_trace0: "small_trace [] (small_server False False 1 0 [] [0])"
  using server_trace.run [of id Suc "\<lambda>_. (=)" "[0]"]
  by (simp add: server_run_def server_new_def server_defs small_server_def)

lemma small_trace1:
  "small_trace [Signal 2] (small_server False False 0 0 [On_signal Success 2] [0])"
  using server_trace.step [OF small_trace0 server_step.signal [of _ 0 _ _ 2]]
  by (simp add: small_server_def)

lemma small_trace2:
  "small_trace [Signal 2, Handled (On_signal Success 2)] (small_server True False 1 1 [] [0])"
  using server_trace.step [OF small_trace1 server_step.handled [of _ "[]" "On_signal Success 2" "[]"]]
  by (simp add: small_server_def on_signal_def server_defs Let_def)

lemma small_trace3:
  "small_trace [Signal 2, Handled (On_signal Success 2), Signal 15]
     (small_server True False 0 1 [On_signal Success 15] [0])"
  using server_trace.step [OF small_trace2 server_step.signal [of _ 0 _ _ 15]]
  by (simp add: small_server_def)

lemma small_trace4:
  "small_trace [Signal 2, Handled (On_signal Success 2), Signal 15, Handled (On_signal Success 15)]
     (small_server True True 0 0 [On_timer Operation_aborted] [1])"
  using server_trace.step [OF small_trace3 server_step.handled [of _ "[]" "On_signal Success 15" "[]"]]
  by (simp add: small_server_def on_signal_def server_stop_def server_defs Let_def)

text \<open>C14: Shutdown goes in two stages, in every execution and in whatever order the signals,
  the timer and the queued handlers come. The server is shutting down exactly after the
  first of its handlers has run, and it is stopped exactly after the second. At most three
  handlers ever run.\<close>

theorem shutdown_stages:
  assumes "server_trace svc_run svc_stop svc_step vs es s"
  shows "(is_shutting_down s \<longleftrightarrow> 1 \<le> handled_count es) \<and>
    (is_stopped s \<longleftrightarrow> 2 \<le> handled_count es) \<and> handled_count es \<le> 3"
  using server_trace_inv [OF assms] by (auto simp: server_inv_def split: if_splits)

theorem shutdown_stages_witness:
  "(is_shutting_down (small_server True True 0 0 [On_timer Operation_aborted] [1]) \<longleftrightarrow>
      1 \<le> handled_count [Signal 2, Handled (On_signal Success 2), Signal 15,
        Handled (On_signal Success 15)]) \<and>
   (is_stopped (small_server True True 0 0 [On_timer Operation_aborted] [1]) \<longleftrightarrow>
      2 \<le> handled_count [Signal 2, Handled (On_signal Success 2), Signal 15,
        Handled (On_signal Success 15)]) \<and>
   handled_count [Signal 2, Handled (On_signal Success 2), Signal 15,
     Handled (On_signal Success 15)] \<le> 3"
  by (rule shutdown_stages [OF small_trace4])

text \<open>C20: Until it is stopped the server always waits for a signal, or has the handler of one
  queued, so it can be shut down and \<open>run\<close> does not return; once it is stopped it starts
  no wait again and at most one handler is left to run, so that it keeps \<open>run\<close> from
  returning no longer than its services do.\<close>

theorem server_outstanding_work:
  assumes "server_trace svc_run svc_stop svc_step vs es s"
  shows "if is_stopped s then sigs_waits s = 0 \<and> timer_waits s = 0 \<and> length (queued s) \<le> 1
    else sigs_waits s = 1 \<or> (\<exists>sig. On_signal Success sig \<in> set (queued s))"
proof -
  note inv = server_trace_inv [OF assms]
  have "sigs_waits s = 1 \<or> (\<exists>sig. On_signal Success sig \<in> set (queued s))" if "\<not> is_stopped s"
  proof (rule disjCI)
    assume no: "\<not> (\<exists>sig. On_signal Success sig \<in> set (queued s))"
    have "\<not> is_signal c" if c: "c \<in> set (queued s)" for c
    proof (cases c)
      case (On_signal ec sig)
      with inv \<open>\<not> is_stopped s\<close> c have "ec = Success" by (force simp: server_inv_def)
      with no c On_signal show ?thesis by blast
    qed simp
    then have "filter is_signal (queued s) = []" by (simp add: filter_empty_conv)
    with inv that show "sigs_waits s = 1" by (simp add: server_inv_def due_defs)
  qed
  with stopped_inv [OF inv] show ?thesis by simp
qed

theorem server_outstanding_work_witness:
  "if is_stopped (small_server True False 1 1 [] [0])
   then sigs_waits (small_server True False 1 1 [] [0]) = 0 \<and>
     timer_waits (small_server True False 1 1 [] [0]) = 0 \<and>
     length (queued (small_server True False 1 1 [] [0])) \<le> 1
   else sigs_waits (small_server True False 1 1 [] [0]) = 1 \<or>
     (\<exists>sig. On_signal Success sig \<in> set (queued (small_server True False 1 1 [] [0])))"
  by (rule server_outstanding_work [OF small_trace2])

section \<open>The shutdown as an abstract machine\<close>

text \<open>
  What a user of the server is told: it runs; a signal makes it drain (new requests are
  refused); a second signal, or the end of thirty seconds, stops it. Nothing else moves
  it, and it never goes back. \<open>stage_of\<close> is the abstraction.
\<close>

datatype stage = Running | Draining | Halted

definition stage_of :: "'v server \<Rightarrow> stage" where
  "stage_of s =
     (if is_stopped s then Halted else if is_shutting_down s then Draining else Running)"

inductive stage_step :: "stage \<Rightarrow> server_event \<Rightarrow> stage \<Rightarrow> bool" where
  drain: "stage_step Running (Handled (On_signal Success sig)) Draining"
| force: "stage_step Draining (Handled (On_signal Success sig)) Halted"
| time_out: "stage_step Draining (Handled (On_timer Success)) Halted"
| late: "stage_step Halted (Handled c) Halted"
| other: "\<not> is_handled e \<Longrightarrow> stage_step g e g"

inductive_simps stage_step_simps:
  "stage_step Running e g" "stage_step Draining e g" "stage_step Halted e g"

inductive stage_run :: "server_event list \<Rightarrow> stage \<Rightarrow> bool" where
  start: "stage_run [] Running"
| step: "stage_run es g \<Longrightarrow> stage_step g e g' \<Longrightarrow> stage_run (es @ [e]) g'"

lemma stage_of_upd [simp]:
  "stage_of (s\<lparr>sigs_waits := k\<rparr>) = stage_of s" "stage_of (s\<lparr>timer_waits := k\<rparr>) = stage_of s"
  "stage_of (s\<lparr>queued := q\<rparr>) = stage_of s" "stage_of (s\<lparr>services := vs\<rparr>) = stage_of s"
  by (simp_all add: stage_of_def)

lemma run_completion_stage:
  assumes inv: "server_inv k s" and q: "queued s = before @ c # after"
  shows "stage_step (stage_of s) (Handled c)
    (stage_of (run_completion f c (s\<lparr>queued := before @ after\<rparr>)))"
proof (cases "is_stopped s")
  case True
  with inv have "is_shutting_down s" by (simp add: server_inv_def)
  with True show ?thesis
    by (cases c) (auto simp: stage_step_simps on_signal_def on_timer_def server_stop_def stage_of_def)
next
  case False
  with inv q have ec: "completion_ec c = Success" by (simp add: server_inv_def)
  show ?thesis
  proof (cases "is_shutting_down s")
    case True
    with False ec show ?thesis
      by (cases c)
        (auto simp: stage_step_simps on_signal_def on_timer_def server_stop_def stage_of_def
          server_defs Let_def)
  next
    case running: False
    with inv q False have "is_signal c"
      by (auto simp: server_inv_def due_defs split: if_splits)
    with running False ec show ?thesis
      by (cases c) (auto simp: stage_step_simps on_signal_def stage_of_def server_defs Let_def)
  qed
qed

lemma server_step_stage:
  assumes "server_step f st s e s'" "server_inv k s"
  shows "stage_step (stage_of s) e (stage_of s')"
  using assms(1)
proof cases
  case (handled before c after)
  with run_completion_stage [OF assms(2)] show ?thesis by simp
qed (simp_all add: stage_step.other)

text \<open>C13: The server refines the abstract shutdown: every execution, with whatever signals,
  timers, cancellations and services, is a run of the abstract machine over the same
  events. In particular only a handler that was run with success moves it, and the forced
  stop comes from a second signal or from the timer, never from a cancelled wait.\<close>

theorem shutdown_refines_stages:
  assumes "server_trace svc_run svc_stop svc_step vs es s"
  shows "stage_run es (stage_of s)"
  using assms
proof (induction rule: server_trace.induct)
  case run
  then show ?case
    by (simp add: stage_run.start stage_of_def server_run_def server_new_def server_defs Let_def)
next
  case (step es s e s')
  from server_step_stage [OF step.hyps(2) server_trace_inv [OF step.hyps(1)]] step.IH
  show ?case by (rule stage_run.step [rotated])
qed

theorem shutdown_refines_stages_witness:
  "stage_run [Signal 2, Handled (On_signal Success 2), Signal 15, Handled (On_signal Success 15)]
     (stage_of (small_server True True 0 0 [On_timer Operation_aborted] [1]))"
  by (rule shutdown_refines_stages [OF small_trace4])

text \<open>C40: A \<open>stop\<close> that is called before any signal does not let \<open>run\<close> return: cancelling the
  signal wait runs \<open>on_signal\<close>, which does not look at its error code, and that starts
  the graceful shutdown, a new wait for a signal and a timer of thirty seconds, on a
  server that is stopped already.\<close>

theorem stop_before_signal_rearms:
  "\<exists>s. server_step svc_stop svc_step
      (server_stop svc_stop (server_run svc_run (server_new\<lparr>services := vs\<rparr>)))
      (Handled (On_signal Operation_aborted 0)) s \<and>
    is_stopped s \<and> sigs_waits s = 1 \<and> timer_waits s = 1 \<and> timer_expiry s = 30"
proof -
  let ?s = "server_stop svc_stop (server_run svc_run (server_new\<lparr>services := vs\<rparr>))"
  have "queued ?s = [] @ On_signal Operation_aborted 0 # []"
    by (simp add: server_stop_def server_run_def server_new_def server_defs Let_def)
  note handled = server_step.handled [OF this, of svc_stop svc_step]
  show ?thesis
    by (rule exI, rule conjI, rule handled)
      (simp add: server_stop_def server_run_def server_new_def on_signal_def server_defs Let_def)
qed

end
