(* ===== verification/Worker_Protocol.thy ===== *)
theory Worker_Protocol
  imports Worker_Laws
begin

text \<open>
  The worker as a client sees it: an abstract machine of connections, requests and answers,
  without parsers, buffers or partial writes. Every step of the worker is a step of it
  with the same visible label, so the worker answers every request at most once, with the
  answer to that request, before it takes the next one.
\<close>

section \<open>The abstract connection\<close>

datatype conn =
    Unconnected
  | Awaiting
  | Answering request response
  | Off

datatype label =
    Connected
  | Got request
  | Sent request response
  | Lost
  | Cancelled
  | Silent

text \<open>\<open>root\<close> is the document root; \<open>sd\<close> says whether the server is shutting down, which
  decides who answers.\<close>

inductive conn_step ::
  "('p, 's, 'f) worker_env \<Rightarrow> string \<Rightarrow> bool \<Rightarrow> conn \<Rightarrow> label \<Rightarrow> conn \<Rightarrow> bool"
  for E :: "('p, 's, 'f) worker_env" and root :: string and sd :: bool where
  connected: "conn_step E root sd Unconnected Connected Awaiting"
| got: "answer E root sd req [] = Inr (res, b) \<Longrightarrow> conn_step E root sd Awaiting (Got req) (Answering req res)"
| sent_keep: "res_keep_alive E res \<Longrightarrow>
    conn_step E root sd (Answering req res) (Sent req res) Awaiting"
| sent_close: "\<not> res_keep_alive E res \<Longrightarrow>
    conn_step E root sd (Answering req res) (Sent req res) Unconnected"
| lost: "c \<noteq> Off \<Longrightarrow> conn_step E root sd c Lost Unconnected"
| cancelled: "c \<noteq> Off \<Longrightarrow> conn_step E root sd c Cancelled Off"
| silent: "conn_step E root sd c Silent c"

inductive conn_run :: "('p, 's, 'f) worker_env \<Rightarrow> string \<Rightarrow> label list \<Rightarrow> conn \<Rightarrow> bool"
  for E :: "('p, 's, 'f) worker_env" and root :: string where
  start: "conn_run E root [] Unconnected"
| step: "conn_run E root ls c \<Longrightarrow> conn_step E root sd c l c' \<Longrightarrow> conn_run E root (ls @ [l]) c'"

inductive_cases conn_stepE: "conn_step E root sd c l c'"

text \<open>The request that is still to be answered after some labels; \<open>None\<close> when the labels
  break the rule that an answer follows its request and nothing else.\<close>

fun after_label :: "request option \<Rightarrow> label \<Rightarrow> request option option" where
  "after_label None (Got r) = Some (Some r)"
| "after_label (Some r) (Sent r' res) = (if r = r' then Some None else None)"
| "after_label None Connected = Some None"
| "after_label p Lost = Some None"
| "after_label p Cancelled = Some None"
| "after_label p Silent = Some p"
| "after_label p l = None"

fun open_request :: "request option \<Rightarrow> label list \<Rightarrow> request option option" where
  "open_request p [] = Some p"
| "open_request p (l # ls) =
     (case after_label p l of None \<Rightarrow> None | Some q \<Rightarrow> open_request q ls)"

lemma open_request_append:
  "open_request p (ls @ [l]) =
     (case open_request p ls of None \<Rightarrow> None | Some q \<Rightarrow> after_label q l)"
  by (induction ls arbitrary: p) (auto split: option.split)

fun asked :: "conn \<Rightarrow> request option" where
  "asked (Answering req res) = Some req"
| "asked c = None"

lemma conn_step_asked: "conn_step E root sd c l c' \<Longrightarrow> after_label (asked c) l = Some (asked c')"
  by (erule conn_stepE) auto

lemma conn_run_asked: "conn_run E root ls c \<Longrightarrow> open_request None ls = Some (asked c)"
  by (induction rule: conn_run.induct) (auto simp: open_request_append dest: conn_step_asked)

section \<open>The worker refines it\<close>

definition conn_of :: "('p, 's, 'f) worker_env \<Rightarrow> ('p, 's) worker \<Rightarrow> conn" where
  "conn_of E w =
     (case wk_phase w of
        Idle \<Rightarrow> Off
      | Accepting \<Rightarrow> Unconnected
      | Reading_header \<Rightarrow> Awaiting
      | Reading_body \<Rightarrow> Awaiting
      | Writing \<Rightarrow> Answering (pr_get E (wk_pr w)) (wk_res w))"

text \<open>What is visible of a step that ends in \<open>w'\<close>.\<close>

definition label_of ::
  "('p, 's, 'f) worker_env \<Rightarrow> ('p, 's) worker \<Rightarrow> worker_event \<Rightarrow> ('p, 's) worker \<Rightarrow> label" where
  "label_of E w e w' =
     (if e = Stopped then Silent
      else if completion_code E w e = Some Operation_aborted then Cancelled
      else if completion_code E w e \<noteq> Some Success then Lost
      else (case e of
              Accepted ec \<Rightarrow> Connected
            | Body_read ev \<Rightarrow> Got (pr_get E (wk_pr w'))
            | Written ev \<Rightarrow> Sent (pr_get E (wk_pr w)) (wk_res w)
            | _ \<Rightarrow> Silent))"

text \<open>The executions of a worker, with their labels.\<close>

inductive worker_trace ::
  "('p, 's, 'f) worker_env \<Rightarrow> label list \<Rightarrow> ('p, 's) worker \<Rightarrow> bool"
  for E :: "('p, 's, 'f) worker_env" where
  run: "worker_trace E [] (worker_run E w)"
| step: "worker_trace E ls w \<Longrightarrow> worker_step E sd w e (Inr w') \<Longrightarrow>
    worker_trace E (ls @ [label_of E w e w']) w'"

lemma conn_of_phase:
  "wk_phase w = Idle \<Longrightarrow> conn_of E w = Off" "wk_phase w = Accepting \<Longrightarrow> conn_of E w = Unconnected"
  "wk_phase w = Reading_header \<Longrightarrow> conn_of E w = Awaiting"
  "wk_phase w = Reading_body \<Longrightarrow> conn_of E w = Awaiting"
  by (simp_all add: conn_of_def)

lemma failed_step_refines:
  assumes "wk_phase w \<noteq> Idle" "ec \<noteq> Success"
    and "wk_phase w' = (if ec = Operation_aborted then Idle else Accepting)"
  shows "conn_step E root sd (conn_of E w) (if ec = Operation_aborted then Cancelled else Lost)
    (conn_of E w')"
proof -
  from assms(1) have "conn_of E w \<noteq> Off" by (cases "wk_phase w") (simp_all add: conn_of_def)
  with assms(3) show ?thesis
    by (simp add: conn_of_phase conn_step.lost conn_step.cancelled)
qed

lemma accept_refines:
  assumes "worker_step E sd w (Accepted ec) (Inr w')"
  shows "conn_step E (wk_doc_root w) sd (conn_of E w) (label_of E w (Accepted ec) w') (conn_of E w')"
proof -
  from assms have w: "wk_phase w = Accepting" "on_accept E ec w = Inr w'"
    by (auto elim: accepted_cases)
  note ph = on_accept_phase [OF w(2)]
  show ?thesis
  proof (cases "ec = Success")
    case True
    with w ph show ?thesis by (simp add: label_of_def conn_of_phase conn_step.connected)
  next
    case False
    with w(1) ph failed_step_refines [of w ec w' E "wk_doc_root w" sd] show ?thesis
      by (simp add: label_of_def split: if_splits)
  qed
qed

lemma header_refines:
  assumes "worker_step E sd w (Header_read ev) (Inr w')"
  shows "conn_step E (wk_doc_root w) sd (conn_of E w) (label_of E w (Header_read ev) w') (conn_of E w')"
proof -
  from assms obtain ec n p where w: "wk_phase w = Reading_header"
    "completion_code E w (Header_read ev) = Some ec"
    "on_read_header E ec n (w\<lparr>wk_pr := p\<rparr>) = Inr w'"
    by (auto elim: header_cases)
  note ph = on_read_header_phase [OF w(3)]
  show ?thesis
  proof (cases "ec = Success")
    case True
    with w ph show ?thesis by (simp add: label_of_def conn_of_phase conn_step.silent)
  next
    case False
    with w ph failed_step_refines [of w ec w' E "wk_doc_root w" sd] show ?thesis
      by (simp add: label_of_def del: completion_code.simps split: if_splits)
  qed
qed

lemma body_refines:
  assumes "worker_step E sd w (Body_read ev) (Inr w')"
  shows "conn_step E (wk_doc_root w) sd (conn_of E w) (label_of E w (Body_read ev) w') (conn_of E w')"
proof -
  from assms obtain ec n p where w: "wk_phase w = Reading_body"
    "completion_code E w (Body_read ev) = Some ec"
    "on_read_body E sd ec n (w\<lparr>wk_pr := p\<rparr>) = Inr w'"
    by (auto elim: body_cases)
  note ph = on_read_body_phase [OF w(3)]
  show ?thesis
  proof (cases "ec = Success")
    case True
    with ph have wr: "wk_phase w' = Writing" by simp
    from answered(2) [OF assms wr] obtain b
      where "answer E (wk_doc_root w') sd (pr_get E (wk_pr w')) [] = Inr (wk_res w', b)" by blast
    with w True wr worker_step_root [OF assms] show ?thesis
      by (simp add: label_of_def conn_of_def conn_step.got del: completion_code.simps)
  next
    case False
    with w ph failed_step_refines [of w ec w' E "wk_doc_root w" sd] show ?thesis
      by (simp add: label_of_def del: completion_code.simps split: if_splits)
  qed
qed

lemma write_refines:
  assumes "worker_step E sd w (Written ev) (Inr w')"
  shows "conn_step E (wk_doc_root w) sd (conn_of E w) (label_of E w (Written ev) w') (conn_of E w')"
proof -
  from assms obtain ec n wire where w: "wk_phase w = Writing"
    "completion_code E w (Written ev) = Some ec"
    "on_write E ec n (w\<lparr>wk_wire := wire\<rparr>) = Inr w'"
    by (auto elim: written_cases)
  note ph = on_write_phase [OF w(3)]
  show ?thesis
  proof (cases "ec = Success")
    case True
    with w ph show ?thesis
      by (auto simp: label_of_def conn_of_def conn_step.sent_keep conn_step.sent_close
          simp del: completion_code.simps split: if_splits)
  next
    case False
    with w ph failed_step_refines [of w ec w' E "wk_doc_root w" sd] show ?thesis
      by (simp add: label_of_def del: completion_code.simps split: if_splits)
  qed
qed

lemma step_refines:
  assumes "worker_step E sd w e (Inr w')"
  shows "conn_step E (wk_doc_root w) sd (conn_of E w) (label_of E w e w') (conn_of E w')"
proof (cases e)
  case Stopped
  with assms have "w' = worker_stop w" by (auto elim: stopped_cases)
  then have "conn_of E w' = conn_of E w"
    by (cases "wk_phase w") (simp_all add: conn_of_def worker_stop_def)
  with Stopped show ?thesis by (simp add: label_of_def conn_step.silent)
qed (use assms accept_refines header_refines body_refines write_refines in auto)

lemma trace_conn: "worker_trace E ls w \<Longrightarrow> conn_run E (wk_doc_root w) ls (conn_of E w)"
proof (induction rule: worker_trace.induct)
  case (run w)
  then show ?case by (simp add: conn_of_def worker_run_def do_accept_def conn_run.start)
next
  case (step ls w sd e w')
  from conn_run.step [OF step.IH step_refines [OF step.hyps(2)]] worker_step_root [OF step.hyps(2)]
  show ?case by simp
qed

text \<open>C7: A worker is a sequential HTTP server. Every execution of it is a run of the
  abstract connection with the same visible labels, so on each connection requests and
  answers alternate: an answer that is sent is the one the responder gives to the request
  read just before it, no request is answered twice, and none is read while another one is
  still to be answered.\<close>

theorem worker_refines_connection:
  assumes "worker_trace E ls w"
  shows "conn_run E (wk_doc_root w) ls (conn_of E w) \<and> open_request None ls = Some (asked (conn_of E w))"
  using trace_conn [OF assms] conn_run_asked by blast

lemma small_worker_trace:
  "worker_trace small_env
     [Connected, Silent, Got (small_request ''/'' ''h''), Sent (small_request ''/'' ''h'') small_ok]
     (small_worker Reading_header [Close] [] small_ok [] [1, 2, 3])"
proof -
  have "worker_run small_env (small_worker Idle [] [] [] [] []) =
      small_worker Accepting [Close] [] [] [] []" by code_simp
  with worker_trace.run have 0: "worker_trace small_env [] (small_worker Accepting [Close] [] [] [] [])"
    by metis
  have l: "label_of small_env (small_worker Accepting [Close] [] [] [] []) (Accepted Success)
      (small_worker Reading_header [Close] [] [] [] []) = Connected"
    "label_of small_env (small_worker Reading_header [Close] [] [] [] [])
      (Header_read [Done (Success, [10])]) (small_worker Reading_body [Close] [10] [] [] []) = Silent"
    "label_of small_env (small_worker Reading_body [Close] [10] [] [] [])
      (Body_read [Done (Success, [0])]) (small_worker Writing [Close] [10, 0] small_ok [1, 2, 3] []) =
      Got (small_request ''/'' ''h'')"
    "label_of small_env (small_worker Writing [Close] [10, 0] small_ok [1, 2, 3] [])
      (Written [Done (Success, 3)]) (small_worker Reading_header [Close] [] small_ok [] [1, 2, 3]) =
      Sent (small_request ''/'' ''h'') small_ok"
    by code_simp+
  from worker_trace.step [OF worker_trace.step [OF worker_trace.step [OF worker_trace.step
      [OF 0 small_step_accept] small_step_header] small_step_body] small_step_write] l
  show ?thesis by simp
qed

theorem worker_refines_connection_witness:
  "conn_run small_env ''/srv''
     [Connected, Silent, Got (small_request ''/'' ''h''), Sent (small_request ''/'' ''h'') small_ok]
     (conn_of small_env (small_worker Reading_header [Close] [] small_ok [] [1, 2, 3])) \<and>
   open_request None
     [Connected, Silent, Got (small_request ''/'' ''h''), Sent (small_request ''/'' ''h'') small_ok] =
     Some (asked (conn_of small_env (small_worker Reading_header [Close] [] small_ok [] [1, 2, 3])))"
  using worker_refines_connection [OF small_worker_trace] small_doc_root by metis

end
