(* ===== verification/Worker_Output.thy ===== *)
theory Worker_Output
  imports Worker_Protocol "HOL-Library.Sublist"
begin

text \<open>
  What a worker puts on the wire over its whole life: the serialized answers of the requests
  it has read, in the order of the requests, each once; only an answer whose connection is
  lost while it is being written is cut short.
\<close>

section \<open>The output that belongs to a history\<close>

text \<open>A serialized answer: the bytes of the serializer after it has been started with an answer
  of the responder to the request.\<close>

definition encodes ::
  "('p, 's, 'f) worker_env \<Rightarrow> 's serializer_view \<Rightarrow> string \<Rightarrow> request \<Rightarrow> response \<Rightarrow> byte list \<Rightarrow> bool" where
  "encodes E SV root req res bs \<longleftrightarrow>
     (\<exists>sd b s s'. answer E root sd req [] = Inr (res, b) \<and> sr_start E res b s = Inr s' \<and>
        bs = pending SV s')"

inductive output_of ::
  "('p, 's, 'f) worker_env \<Rightarrow> 's serializer_view \<Rightarrow> string \<Rightarrow> label list \<Rightarrow> byte list \<Rightarrow> bool"
  for E :: "('p, 's, 'f) worker_env" and SV :: "'s serializer_view" and root :: string where
  start: "output_of E SV root [] []"
| sent: "output_of E SV root ls out \<Longrightarrow> encodes E SV root req res bs \<Longrightarrow>
    output_of E SV root (ls @ [Sent req res]) (out @ bs)"
| cut: "output_of E SV root ls out \<Longrightarrow> l \<in> {Lost, Cancelled} \<Longrightarrow>
    open_request None ls = Some (Some req) \<Longrightarrow> encodes E SV root req res bs \<Longrightarrow> prefix d bs \<Longrightarrow>
    output_of E SV root (ls @ [l]) (out @ d)"
| none: "output_of E SV root ls out \<Longrightarrow> l \<notin> range (\<lambda>(req, res). Sent req res) \<Longrightarrow>
    output_of E SV root (ls @ [l]) out"

text \<open>Without a lost connection that is the concatenation of the answers.\<close>

fun answers_sent :: "label list \<Rightarrow> (request \<times> response) list" where
  "answers_sent [] = []"
| "answers_sent (Sent req res # ls) = (req, res) # answers_sent ls"
| "answers_sent (l # ls) = answers_sent ls"

lemma answers_sent_append: "answers_sent (ls @ ls') = answers_sent ls @ answers_sent ls'"
  by (induction ls rule: answers_sent.induct) simp_all

lemma answers_sent_other [simp]:
  "l \<notin> range (\<lambda>(req, res). Sent req res) \<Longrightarrow> answers_sent [l] = []"
  by (cases l) auto

lemma output_unbroken:
  assumes "output_of E SV root ls out" "Lost \<notin> set ls" "Cancelled \<notin> set ls"
  shows "\<exists>bss. list_all2 (\<lambda>(req, res). encodes E SV root req res) (answers_sent ls) bss \<and> out = concat bss"
  using assms
proof (induction rule: output_of.induct)
  case (sent ls out req res bs)
  then obtain bss where "list_all2 (\<lambda>(req, res). encodes E SV root req res) (answers_sent ls) bss"
    "out = concat bss" by auto
  with sent.hyps(2) show ?case
    by (intro exI [of _ "bss @ [bs]"]) (simp add: answers_sent_append list_all2_appendI)
qed (auto simp: answers_sent_append)

text \<open>The life of a worker from its construction, over events the sockets can produce.\<close>

inductive worker_history ::
  "('p, 's, 'f) worker_env \<Rightarrow> label list \<Rightarrow> ('p, 's) worker \<Rightarrow> bool"
  for E :: "('p, 's, 'f) worker_env" where
  run: "wk_sock w = [] \<Longrightarrow> wr_sent (wk_wire w) = [] \<Longrightarrow> worker_history E [] (worker_run E w)"
| step: "worker_history E ls w \<Longrightarrow> event_ok E w e \<Longrightarrow> worker_step E sd w e (Inr w') \<Longrightarrow>
    worker_history E (ls @ [label_of E w e w']) w'"

lemma history_trace: "worker_history E ls w \<Longrightarrow> worker_trace E ls w"
  by (induction rule: worker_history.induct) (auto intro: worker_trace.intros)

lemma history_reach: "worker_history E ls w \<Longrightarrow> worker_reach E w"
  by (induction rule: worker_history.induct) (auto intro: worker_reach.intros)

lemma history_conn:
  assumes "worker_history E ls w"
  shows "conn_run E (wk_doc_root w) ls (conn_of E w)"
  using trace_conn [OF history_trace [OF assms]] .

section \<open>What the handlers do to the wire\<close>

lemma on_failure_wire: "on_failure E ec w = Inr w' \<Longrightarrow> wk_wire w' = wk_wire w"
  by (auto simp: on_failure_def worker_fail_def do_accept_def Let_def split: if_splits)

lemma do_read_wire: "do_read E w = Inr w' \<Longrightarrow> wk_wire w' = wk_wire w"
  by (auto simp: do_read_def fail_simps)

lemma handler_wire:
  "on_accept E ec w = Inr w' \<Longrightarrow> wk_wire w' = wk_wire w"
  "on_read_header E ec n w = Inr w' \<Longrightarrow> wk_wire w' = wk_wire w"
  "on_read_body E sd ec n w = Inr w' \<Longrightarrow> wr_sent (wk_wire w') = wr_sent (wk_wire w)"
  "on_write E ec n w = Inr w' \<Longrightarrow> wk_wire w' = wk_wire w"
  by (auto simp: on_accept_def on_read_header_def on_read_body_def on_write_def do_accept_def
      Let_def fail_simps dest!: on_failure_wire do_read_wire split: if_splits)

text \<open>Only the write adds to what has been sent.\<close>

lemma unwritten_step:
  assumes "worker_step E sd w e (Inr w')" "\<And>ev. e \<noteq> Written ev"
  shows "wr_sent (wk_wire w') = wr_sent (wk_wire w)"
  using assms
  by (cases e) (auto elim!: worker_step_cases dest!: handler_wire [OF sym]
      simp: worker_stop_def)

lemma unwritten_label:
  "(\<And>ev. e \<noteq> Written ev) \<Longrightarrow> label_of E w e w' \<notin> range (\<lambda>(req, res). Sent req res)"
  by (cases e) (auto simp: label_of_def)

section \<open>The invariant\<close>

text \<open>While a worker writes, its serializer holds the answer to the request in its parser.\<close>

definition answering ::
  "('p, 's, 'f) worker_env \<Rightarrow> 's serializer_view \<Rightarrow> ('p, 's) worker \<Rightarrow> bool" where
  "answering E SV w \<longleftrightarrow>
     (wk_phase w = Writing \<longrightarrow>
        encodes E SV (wk_doc_root w) (pr_get E (wk_pr w)) (wk_res w) (pending SV (wr_sr (wk_wire w))))"

lemma answering_step:
  assumes "worker_step E sd w e (Inr w')" "answering E SV w"
  shows "answering E SV w'"
proof (cases e)
  case (Body_read ev)
  show ?thesis
    unfolding answering_def
  proof
    assume wr: "wk_phase w' = Writing"
    from assms(1) Body_read obtain ec n p where "on_read_body E sd ec n (w\<lparr>wk_pr := p\<rparr>) = Inr w'"
      by (auto elim: body_cases)
    from on_read_body_Writing [OF this wr] show
      "encodes E SV (wk_doc_root w') (pr_get E (wk_pr w')) (wk_res w') (pending SV (wr_sr (wk_wire w')))"
      unfolding encodes_def by fastforce
  qed
next
  case Stopped
  with assms show ?thesis by (auto elim!: stopped_cases simp: worker_stop_def answering_def)
qed (use assms in \<open>auto simp: answering_def elim!: worker_step_cases
    dest!: handler_phases [OF sym] split: if_splits\<close>)

lemma written_output:
  assumes C: "worker_contract E V SV st"
    and w: "worker_reach E w" "answering E SV w" "conn_run E (wk_doc_root w) ls (conn_of E w)"
    and out: "output_of E SV (wk_doc_root w) ls (wr_sent (wk_wire w))"
    and ev: "event_ok E w (Written ev)" "worker_step E sd w (Written ev) (Inr w')"
  shows "output_of E SV (wk_doc_root w) (ls @ [label_of E w (Written ev) w']) (wr_sent (wk_wire w'))"
proof -
  from ev(2) obtain ec n wire where f: "wk_phase w = Writing"
    "async_write (we_serializer E) (wk_wire w) ev = Finished ec n wire []"
    "on_write E ec n (w\<lparr>wk_wire := wire\<rparr>) = Inr w'"
    by (auto elim: written_cases)
  from worker_reach_inv [OF C w(1)] f(1) have r: "ready SV (wr_sr (wk_wire w))"
    "pending SV (wr_sr (wk_wire w)) \<noteq> []" by (simp_all add: worker_inv_def)
  from ev(1) have "async_write_complies (we_serializer E) (wk_wire w) ev" by simp
  from async_write_sat [OF contractD(2) [OF C(1)] r this] f(2) obtain d where
    d: "moved SV (wk_wire w) wire d" "ec = Success \<longrightarrow> d = pending SV (wr_sr (wk_wire w))"
    by (auto simp: moved_def)
  from handler_wire(4) [OF f(3)] d(1) have s: "wr_sent (wk_wire w') = wr_sent (wk_wire w) @ d"
    by (simp add: moved_def)
  from w(2) f(1) have enc:
    "encodes E SV (wk_doc_root w) (pr_get E (wk_pr w)) (wk_res w) (pending SV (wr_sr (wk_wire w)))"
    by (simp add: answering_def)
  show ?thesis
  proof (cases "ec = Success")
    case True
    with output_of.sent [OF out enc] d(2) s f(2) show ?thesis by (simp add: label_of_def)
  next
    case False
    from conn_run_asked [OF w(3)] f(1)
    have o: "open_request None ls = Some (Some (pr_get E (wk_pr w)))" by (simp add: conn_of_def)
    from d(1) have "prefix d (pending SV (wr_sr (wk_wire w)))" by (simp add: moved_def prefix_def)
    from output_of.cut [OF out _ o enc this, of "label_of E w (Written ev) w'"] False f(2) s
    show ?thesis by (simp add: label_of_def)
  qed
qed

lemma history_output:
  assumes C: "worker_contract E V SV st" and "worker_history E ls w"
  shows "output_of E SV (wk_doc_root w) ls (wr_sent (wk_wire w)) \<and> answering E SV w"
  using assms(2)
proof (induction rule: worker_history.induct)
  case (run w)
  then show ?case
    by (simp add: worker_run_def do_accept_def answering_def output_of.start)
next
  case (step ls w e sd w')
  have "output_of E SV (wk_doc_root w) (ls @ [label_of E w e w']) (wr_sent (wk_wire w'))"
  proof (cases "\<exists>ev. e = Written ev")
    case True
    with written_output [OF C history_reach [OF step.hyps(1)] _ history_conn [OF step.hyps(1)]]
      step show ?thesis by blast
  next
    case False
    then have e: "\<And>ev. e \<noteq> Written ev" by blast
    from output_of.none [OF conjunct1 [OF step.IH] unwritten_label [OF e]]
    show ?thesis by (simp add: unwritten_step [OF step.hyps(3) e])
  qed
  with answering_step [OF step.hyps(3)] worker_step_root [OF step.hyps(3)] step.IH show ?case by simp
qed

end
