(* ===== verification/System.thy ===== *)
theory System
  imports Acceptor Server Worker_Output
begin

text \<open>
  The whole example server: \<open>class server\<close> with acceptors as its services, and \<open>main\<close>,
  which builds one from the command line. The acceptor keeps the service contract, so what
  is proved of any service holds of it, and the properties here follow the shutdown from
  the signal down to the answer a worker gives.
\<close>

section \<open>The acceptor is a service\<close>

definition cancels :: "sock_call list \<Rightarrow> nat" where
  "cancels l = count_list l Cancel"

definition acceptor_fresh :: "('p, 's) acceptor \<Rightarrow> bool" where
  "acceptor_fresh a \<longleftrightarrow>
     ac_sock a = [] \<and>
     (\<forall>w \<in> set (fa_elems (ac_wv a)). wk_sock w = [] \<and> wr_sent (wk_wire w) = [])"

definition acceptor_good :: "('p, 's, 'f) worker_env \<Rightarrow> ('p, 's) acceptor \<Rightarrow> bool" where
  "acceptor_good E a \<longleftrightarrow>
     (\<forall>w \<in> set (fa_elems (ac_wv a)).
        (\<exists>ls. worker_history E ls w) \<and> cancels (wk_sock w) = cancels (ac_sock a))"

definition acceptor_stops :: "('p, 's) acceptor \<Rightarrow> nat" where
  "acceptor_stops a = cancels (ac_sock a)"

lemma cancels_simps [simp]:
  "cancels [] = 0" "cancels (l @ l') = cancels l + cancels l'"
  "cancels (c # l) = (if c = Cancel then 1 else 0) + cancels l"
  by (simp_all add: cancels_def)

text \<open>Only \<open>stop\<close> cancels.\<close>

lemma on_failure_cancels:
  "on_failure E ec w = Inr w' \<Longrightarrow> cancels (wk_sock w') = cancels (wk_sock w)"
  by (auto simp: on_failure_def worker_fail_def do_accept_def Let_def split: if_splits)

lemma do_read_cancels: "do_read E w = Inr w' \<Longrightarrow> wk_sock w' = wk_sock w"
  by (auto simp: do_read_def fail_simps)

lemma handler_cancels:
  "on_accept E ec w = Inr w' \<Longrightarrow> cancels (wk_sock w') = cancels (wk_sock w)"
  "on_read_header E ec n w = Inr w' \<Longrightarrow> cancels (wk_sock w') = cancels (wk_sock w)"
  "on_read_body E sd ec n w = Inr w' \<Longrightarrow> cancels (wk_sock w') = cancels (wk_sock w)"
  "on_write E ec n w = Inr w' \<Longrightarrow> cancels (wk_sock w') = cancels (wk_sock w)"
  by (auto simp: on_accept_def on_read_header_def on_read_body_def on_write_def do_accept_def
      Let_def fail_simps dest!: on_failure_cancels do_read_cancels split: if_splits)

lemma worker_step_cancels:
  "worker_step E sd w e (Inr w') \<Longrightarrow> e \<noteq> Stopped \<Longrightarrow>
   cancels (wk_sock w') = cancels (wk_sock w)"
  by (cases e) (auto elim!: worker_step_cases dest!: handler_cancels [OF sym])

lemma history_stop:
  "\<exists>ls. worker_history E ls w \<Longrightarrow> \<exists>ls. worker_history E ls (worker_stop w)"
  using worker_history.step [OF _ _ worker_step.stopped] by fastforce

lemma cancels_stop: "cancels (wk_sock (worker_stop w)) = Suc (cancels (wk_sock w))"
  by (simp add: worker_stop_def)

interpretation ac: service "acceptor_run E" acceptor_stop "acceptor_step E"
  acceptor_fresh "acceptor_good E" acceptor_stops
  for E :: "('p, 's, 'f) worker_env"
proof
  fix a a' :: "('p, 's) acceptor" and sd
  show "acceptor_good E (acceptor_run E a)" if "acceptor_fresh a"
    using that worker_history.run [of _ E]
    by (fastforce simp: acceptor_good_def acceptor_fresh_def acceptor_run_def fa_for_each_map
        worker_run_def do_accept_def)
  show "acceptor_good E (acceptor_stop a)" if "acceptor_good E a"
    using that by (auto simp: acceptor_good_def acceptor_stop_def fa_for_each_map history_stop
        cancels_stop)
  show "acceptor_good E a'" if good: "acceptor_good E a" and step: "acceptor_step E sd a a'"
  proof -
    from step obtain i e w where i: "i < length (fa_elems (ac_wv a))" "e \<noteq> Stopped"
      "worker_step E sd (fa_elems (ac_wv a) ! i) e (Inr w)"
      "event_ok E (fa_elems (ac_wv a) ! i) e"
      "fa_elems (ac_wv a') = (fa_elems (ac_wv a))[i := w]" "ac_sock a' = ac_sock a"
      by (rule acceptor_step_worker)
    from good i(1) have "\<exists>ls. worker_history E ls (fa_elems (ac_wv a) ! i)"
      "cancels (wk_sock (fa_elems (ac_wv a) ! i)) = cancels (ac_sock a)"
      by (simp_all add: acceptor_good_def)
    with i worker_step_cancels [OF i(3,2)] 
    have "\<exists>ls. worker_history E ls w" "cancels (wk_sock w) = cancels (ac_sock a)"
      by (auto intro: worker_history.step)
    with good i(5,6) show ?thesis
      by (auto simp: acceptor_good_def dest!: set_update_subset_insert [THEN subsetD])
  qed
  show "acceptor_stops (acceptor_run E a) = 0" if "acceptor_fresh a"
    using that by (simp add: acceptor_stops_def acceptor_fresh_def acceptor_run_def)
  show "acceptor_stops (acceptor_stop a) = Suc (acceptor_stops a)"
    by (simp add: acceptor_stops_def acceptor_stop_def)
  show "acceptor_stops a' = acceptor_stops a" if "acceptor_step E sd a a'"
    using that by (auto elim!: acceptor_step_worker simp: acceptor_stops_def)
qed

section \<open>The executions of the program\<close>

abbreviation system_trace ::
  "('p, 's, 'f) worker_env \<Rightarrow> ('p, 's) acceptor list \<Rightarrow> server_event list \<Rightarrow>
   ('p, 's) acceptor server \<Rightarrow> bool" where
  "system_trace E \<equiv> server_trace (acceptor_run E) acceptor_stop (acceptor_step E)"

lemma system_good:
  assumes "system_trace E vs es s" "\<forall>a \<in> set vs. acceptor_fresh a" "a \<in> set (services s)"
  shows "acceptor_good E a" "acceptor_stops a = (if is_stopped s then 1 else 0)"
  using ac.trace_ok [OF assms(1,2)] assms(3) by (simp_all add: services_ok_def)

section \<open>Properties of the running server\<close>

text \<open>For the witnesses: an acceptor with one worker, and an execution in which the worker
  accepts a connection and reads a request, and then a signal starts the shutdown.\<close>

definition one_worker :: "(small_parser, byte list) worker \<Rightarrow> (small_parser, byte list) acceptor" where
  "one_worker w = \<lparr>ac_sock = [], ac_id = 1, ac_wv = \<lparr>fa_t = True, fa_elems = [w]\<rparr>\<rparr>"

definition one_server :: "bool \<Rightarrow> (small_parser, byte list) worker \<Rightarrow>
    (small_parser, byte list) acceptor server" where
  "one_server sd w =
     \<lparr>sigs_waits = 1, timer_waits = (if sd then 1 else 0), timer_expiry = (if sd then 30 else 0),
      queued = [], services = [one_worker w], is_shutting_down = sd, is_stopped = False\<rparr>"

abbreviation trace_of_one where
  "trace_of_one E \<equiv> system_trace E [one_worker (small_worker Idle [] [] [] [] [])]"

abbreviation one_trace where
  "one_trace \<equiv> trace_of_one small_env"

lemma one_fresh: "\<forall>a \<in> set [one_worker (small_worker Idle [] [] [] [] [])]. acceptor_fresh a"
  by (simp add: acceptor_fresh_def one_worker_def small_worker_def small_wire_def)

lemma one_trace_run: "one_trace [] (one_server False (small_worker Accepting [Close] [] [] [] []))"
proof -
  have "server_run (acceptor_run small_env)
      (server_new\<lparr>services := [one_worker (small_worker Idle [] [] [] [] [])]\<rparr>) =
      one_server False (small_worker Accepting [Close] [] [] [] [])" by code_simp
  with server_trace.run show ?thesis by metis
qed

lemma one_serviced:
  assumes "trace_of_one E es (one_server sd w)" "event_ok E w e" "e \<noteq> Stopped"
    "worker_step E sd w e (Inr w')"
  shows "trace_of_one E (es @ [Serviced]) (one_server sd w')"
proof -
  have "acceptor_step E sd (one_worker w) (one_worker w')"
    using acceptor_step.worker [of 0 "one_worker w" E e sd w'] assms(2-4)
    by (simp add: one_worker_def fa_size_def)
  then have "server_step acceptor_stop (acceptor_step E) (one_server sd w) Serviced
      (one_server sd w')"
    using server_step.serviced [of 0 "one_server sd w" "acceptor_step E" "one_worker w'"]
    by (simp add: one_server_def)
  with assms(1) show ?thesis by (rule server_trace.step)
qed

lemma one_trace_reading:
  "one_trace [Serviced, Serviced] (one_server False (small_worker Reading_body [Close] [10] [] [] []))"
  using one_serviced [OF one_serviced [OF one_trace_run small_events(1) _ small_step_accept]
      small_events(2) _ small_step_header]
  by simp

lemma one_trace_shutdown:
  "one_trace [Serviced, Serviced, Signal 2, Handled (On_signal Success 2)]
     (one_server True (small_worker Reading_body [Close] [10] [] [] []))"
proof -
  let ?w = "small_worker Reading_body [Close] [10] [] [] []"
  let ?s = "(one_server False ?w)\<lparr>sigs_waits := 0, queued := [On_signal Success 2]\<rparr>"
  have "one_trace ([Serviced, Serviced] @ [Signal 2]) ?s"
    using server_trace.step [OF one_trace_reading server_step.signal [of _ 0 _ _ 2]]
    by (simp add: one_server_def)
  from server_trace.step [OF this server_step.handled [of _ "[]" "On_signal Success 2" "[]"]]
  show ?thesis by (simp add: one_server_def on_signal_def server_defs Let_def)
qed

text \<open>C6: In every execution of the server no handler of any worker throws, whatever the
  signals, the timer, the sockets, the requests and the other workers do, with one exception,
  which is exact: the handler of a request that has been read to its end dereferences null
  when the request is answered with an error page, or refused during shutdown, and its
  \<open>Host\<close> is not an authority.\<close>

theorem system_throws_only_on_bad_host:
  assumes "worker_contract E V SV startable"
    and "system_trace E vs es s" "\<forall>a \<in> set vs. acceptor_fresh a"
    and "a \<in> set (services s)" "w \<in> set (fa_elems (ac_wv a))"
    and "event_ok E w e" "worker_step E (is_shutting_down s) w e r"
  shows "(r = Inl f \<longleftrightarrow> f = Null_dereference \<and> host_crash E (is_shutting_down s) w e) \<and>
    (r = Inl f \<longrightarrow> (\<exists>ev n p. e = Body_read ev \<and>
       async_read (we_parser E) (wk_pr w) ev = Inr (Finished Success n p []) \<and>
       parse_authority (we_lib E) (rq_host (pr_get E p)) = None \<and>
       answer E (wk_doc_root w) (is_shutting_down s) (pr_get E p) [] = Inl f))"
proof -
  from system_good(1) [OF assms(2-4)] assms(5) have "worker_reach E w"
    by (auto simp: acceptor_good_def dest: history_reach)
  from worker_step_throws [OF assms(1) worker_reach_inv [OF assms(1) this] assms(6,7)]
  have "r = Inl f \<longleftrightarrow> f = Null_dereference \<and> host_crash E (is_shutting_down s) w e" .
  with answer_throws(2) show ?thesis unfolding host_crash_def by blast
qed

text \<open>For the witness: the same server with a request for a file that does not exist, whose
  \<open>Host\<close> is not an authority.\<close>

definition bad_env :: "(small_parser, byte list, string) worker_env" where
  "bad_env = small_env\<lparr>pr_get := (\<lambda>_. small_request ''/none'' ''bad'')\<rparr>"

lemma bad_env_contract: "worker_contract bad_env small_view small_sr_view (\<lambda>_. True)"
  using small_env_contract by (simp add: worker_contract_def bad_env_def)

lemma bad_trace:
  "trace_of_one bad_env [Serviced, Serviced]
     (one_server False (small_worker Reading_body [Close] [10] [] [] []))"
proof -
  have "server_run (acceptor_run bad_env)
      (server_new\<lparr>services := [one_worker (small_worker Idle [] [] [] [] [])]\<rparr>) =
      one_server False (small_worker Accepting [Close] [] [] [] [])" by code_simp
  with server_trace.run have 0: "trace_of_one bad_env []
      (one_server False (small_worker Accepting [Close] [] [] [] []))" by metis
  have "worker_step bad_env False (small_worker Accepting [Close] [] [] [] []) (Accepted Success)
      (Inr (small_worker Reading_header [Close] [] [] [] []))"
    "worker_step bad_env False (small_worker Reading_header [Close] [] [] [] [])
      (Header_read [Done (Success, [10])]) (Inr (small_worker Reading_body [Close] [10] [] [] []))"
    by (rule worker_stepI, code_simp)+
  moreover have "event_ok bad_env (small_worker Accepting [Close] [] [] [] []) (Accepted Success)"
    "event_ok bad_env (small_worker Reading_header [Close] [] [] [] []) (Header_read [Done (Success, [10])])"
    by code_simp+
  ultimately show ?thesis using one_serviced [OF one_serviced [OF 0]] by fastforce
qed

theorem system_throws_only_on_bad_host_witness:
  "host_crash bad_env False (small_worker Reading_body [Close] [10] [] [] [])
     (Body_read [Done (Success, [0])]) \<and>
   \<not> host_crash small_env False (small_worker Reading_body [Close] [10] [] [] [])
     (Body_read [Done (Success, [0])])"
proof -
  let ?w = "small_worker Reading_body [Close] [10] [] [] []" and ?e = "Body_read [Done (Success, [0])]"
  have bad: "worker_step bad_env (is_shutting_down (one_server False ?w)) ?w ?e (Inl Null_dereference)"
    by (rule worker_stepI) code_simp
  have "event_ok bad_env ?w ?e" by code_simp
  from system_throws_only_on_bad_host [where f = Null_dereference and a = "one_worker ?w",
      OF bad_env_contract bad_trace one_fresh _ _ this bad]
  have "host_crash bad_env False ?w ?e" by (simp add: one_server_def one_worker_def)
  moreover have "worker_step small_env (is_shutting_down (one_server False ?w)) ?w ?e
      (Inr (small_worker Writing [Close] [10, 0] small_ok [1, 2, 3] []))"
    using small_step_body by (simp add: one_server_def)
  from system_throws_only_on_bad_host [where f = Null_dereference and a = "one_worker ?w",
      OF small_env_contract one_trace_reading one_fresh _ _ small_events(3) this]
  have "\<not> host_crash small_env False ?w ?e" by (simp add: one_server_def one_worker_def)
  ultimately show ?thesis by blast
qed

lemma one_trace_answered:
  "one_trace [Serviced, Serviced, Serviced, Serviced]
     (one_server False (small_worker Reading_header [Close] [] small_ok [] [1, 2, 3]))"
  using one_serviced [OF one_serviced [OF one_trace_reading small_events(3) _ small_step_body]
      small_events(4) _ small_step_write]
  by simp

text \<open>C5: Whatever happens to the server, a worker sends nothing but answers: in every
  execution of the server every worker has a history, of connections taken, requests read and
  answers sent, in which they alternate, and the bytes the worker has written since it was
  made are the serialized answers of that history, one after the other, each the
  responder's answer to the request before it, whole and sent once. Only an answer whose write
  fails, because the connection is lost or the write is cancelled, may be cut short, and then
  what was sent of it is a prefix. Nothing is assumed of the requests.\<close>

theorem workers_send_only_answers:
  assumes "worker_contract E V SV startable"
    and "system_trace E vs es s" "\<forall>a \<in> set vs. acceptor_fresh a"
    and "a \<in> set (services s)" "w \<in> set (fa_elems (ac_wv a))"
  shows "\<exists>ls. worker_history E ls w \<and> conn_run E (wk_doc_root w) ls (conn_of E w) \<and>
    output_of E SV (wk_doc_root w) ls (wr_sent (wk_wire w))"
proof -
  from system_good(1) [OF assms(2-4)] assms(5) obtain ls where "worker_history E ls w"
    by (auto simp: acceptor_good_def)
  with history_conn history_output [OF assms(1)] show ?thesis by blast
qed

theorem workers_send_only_answers_witness:
  "\<exists>ls. worker_history small_env ls (small_worker Reading_header [Close] [] small_ok [] [1, 2, 3]) \<and>
    conn_run small_env (wk_doc_root (small_worker Reading_header [Close] [] small_ok [] [1, 2, 3])) ls
      (conn_of small_env (small_worker Reading_header [Close] [] small_ok [] [1, 2, 3])) \<and>
    output_of small_env small_sr_view
      (wk_doc_root (small_worker Reading_header [Close] [] small_ok [] [1, 2, 3])) ls
      (wr_sent (wk_wire (small_worker Reading_header [Close] [] small_ok [] [1, 2, 3])))"
  by (rule workers_send_only_answers
      [where a = "one_worker (small_worker Reading_header [Close] [] small_ok [] [1, 2, 3])",
        OF small_env_contract one_trace_answered one_fresh])
    (simp_all add: one_server_def one_worker_def)

text \<open>C18: Stopping the server reaches everything exactly once: the listening socket and the
  connection of every worker have been cancelled once when the server is stopped, and never
  before.\<close>

theorem stop_reaches_every_worker:
  assumes "system_trace E vs es s" "\<forall>a \<in> set vs. acceptor_fresh a"
    and "a \<in> set (services s)" "w \<in> set (fa_elems (ac_wv a))"
  shows "cancels (ac_sock a) = (if is_stopped s then 1 else 0) \<and>
    cancels (wk_sock w) = (if is_stopped s then 1 else 0)"
  using system_good [OF assms(1-3)] assms(4) by (simp add: acceptor_good_def acceptor_stops_def)

theorem stop_reaches_every_worker_witness:
  "cancels (ac_sock (one_worker (small_worker Reading_body [Close] [10] [] [] []))) =
     (if is_stopped (one_server True (small_worker Reading_body [Close] [10] [] [] [])) then 1 else 0) \<and>
   cancels (wk_sock (small_worker Reading_body [Close] [10] [] [] [])) =
     (if is_stopped (one_server True (small_worker Reading_body [Close] [10] [] [] [])) then 1 else 0)"
  by (rule stop_reaches_every_worker [OF one_trace_shutdown one_fresh])
    (simp_all add: one_server_def one_worker_def)



end
