(* ===== verification/Server_Main.thy ===== *)
theory Server_Main
  imports System
begin

text \<open>
  \<open>main\<close> of \<open>example/server/main.cpp\<close>: the command line, the one service that is made from
  it, and what becomes of exceptions. \<open>std::atoi\<close> is modelled as the C standard describes
  it; a value that does not fit an \<open>int\<close> is undefined behaviour.
\<close>

section \<open>The command line\<close>

definition is_space :: "char \<Rightarrow> bool" where
  "is_space c \<longleftrightarrow> c = CHR '' '' \<or> (9 \<le> (of_char c :: nat) \<and> (of_char c :: nat) \<le> 13)"

definition is_digit :: "char \<Rightarrow> bool" where
  "is_digit c \<longleftrightarrow> 48 \<le> (of_char c :: nat) \<and> (of_char c :: nat) \<le> 57"

definition digits_value :: "string \<Rightarrow> int" where
  "digits_value s = foldl (\<lambda>v c. 10 * v + (of_char c - 48)) 0 (takeWhile is_digit s)"

definition atoi :: "string \<Rightarrow> int option" where
  "atoi s =
     (let t = dropWhile is_space s;
          v = (case t of
                 c # u \<Rightarrow> if c = CHR ''-'' then - digits_value u
                          else if c = CHR ''+'' then digits_value u else digits_value t
               | [] \<Rightarrow> 0)
      in if - (2 ^ 31) \<le> v \<and> v < 2 ^ 31 then Some v else None)"

section \<open>\<open>main\<close>\<close>

text \<open>\<open>file_handler\<close>, of which \<open>main\<close> makes one and never uses it: its call operator ignores
  its arguments, so the response and the serializer stay as they are.\<close>

record file_handler =
  fh_doc_root :: string

definition file_handler_new :: "string \<Rightarrow> file_handler" where
  "file_handler_new root = \<lparr>fh_doc_root = root\<rparr>"

definition file_handler_call ::
  "file_handler \<Rightarrow> request \<Rightarrow> response \<Rightarrow> 's \<Rightarrow> response \<times> 's" where
  "file_handler_call fh req res sr = (res, sr)"

text \<open>What \<open>main\<close> calls; each of these may throw.\<close>

record ('a, 'v) main_env =
  make_address :: "string \<Rightarrow> failure + 'a"
  install_parser_service :: "failure + unit"
  add_signals :: "failure + unit"
  new_acceptor :: "'a \<Rightarrow> 16 word \<Rightarrow> size_t \<Rightarrow> string \<Rightarrow> failure + 'v"

text \<open>How the process goes on: it ends with \<open>EXIT_FAILURE\<close>, it is in \<open>srv.run()\<close> (after
  which it ends with \<open>EXIT_SUCCESS\<close>), it crashes, or its behaviour is undefined.\<close>

datatype 'v main_outcome = Exit_failure | Serving "'v server" | Crash failure | Undefined

text \<open>\<open>catch(std::exception const&)\<close>: every \<open>failure\<close> but the last two is an exception.\<close>

fun caught :: "failure \<Rightarrow> 'v main_outcome" where
  "caught Assertion_failed = Crash Assertion_failed"
| "caught Null_dereference = Crash Null_dereference"
| "caught f = Exit_failure"

definition server_main ::
  "('a, 'v) main_env \<Rightarrow> ('v \<Rightarrow> 'v) \<Rightarrow> string list \<Rightarrow> 'v main_outcome" where
  "server_main M svc_run argv =
     (if length argv \<noteq> 5 then Exit_failure
      else
        (case make_address M (argv ! 1) of
           Inl f \<Rightarrow> caught f
         | Inr addr \<Rightarrow>
             (case (atoi (argv ! 2), atoi (argv ! 4)) of
                (Some port, Some num_workers) \<Rightarrow>
                  (let doc_root = argv ! 3;
                       fh = file_handler_new doc_root;
                       r = sbind (install_parser_service M) (\<lambda>_.
                           sbind (add_signals M) (\<lambda>_.
                           make_service
                             (new_acceptor M addr (word_of_int port) (word_of_int num_workers) doc_root)
                             server_new))
                   in case r of
                        Inl f \<Rightarrow> caught f
                      | Inr srv \<Rightarrow> Serving (server_run svc_run srv))
              | _ \<Rightarrow> Undefined)))"

text \<open>The acceptor as the service that \<open>main\<close> makes; \<open>open_listen\<close> opens the socket.\<close>

definition acceptor_main ::
  "(string \<Rightarrow> failure + 'a) \<Rightarrow> failure + unit \<Rightarrow> failure + unit \<Rightarrow> (nat \<Rightarrow> bool) \<Rightarrow>
   ('p, 's) worker_parts \<Rightarrow> ('a \<Rightarrow> 16 word \<Rightarrow> failure + unit) \<Rightarrow>
   ('a, ('p, 's) acceptor) main_env" where
  "acceptor_main mk_addr inst sigs can_allocate Q open_listen =
     \<lparr>make_address = mk_addr, install_parser_service = inst, add_signals = sigs,
      new_acceptor = (\<lambda>addr port n root. acceptor_new can_allocate Q (open_listen addr port) n root)\<rparr>"

section \<open>Numbers on the command line\<close>

lemma digit_char:
  assumes "k < 10"
  shows "(of_char (char_of (48 + k) :: char) :: nat) = 48 + k"
    "(of_char (char_of (48 + k) :: char) :: int) = 48 + int k"
proof -
  show *: "(of_char (char_of (48 + k) :: char) :: nat) = 48 + k"
    using assms by (simp add: of_char_of)
  have "(of_char (char_of (48 + k) :: char) :: int) = int (of_char (char_of (48 + k) :: char))"
    by (rule of_nat_of_char [symmetric])
  then show "(of_char (char_of (48 + k) :: char) :: int) = 48 + int k" unfolding * by simp
qed

lemma to_string_digits: "list_all is_digit (to_string n)"
proof (induction n rule: to_string.induct)
  case (1 n)
  then show ?case
    by (cases "n < 10"; subst to_string.simps) (simp_all add: is_digit_def [of "char_of _"] digit_char)
qed

lemma to_string_Cons: "\<exists>c u. to_string n = c # u \<and> is_digit c"
proof -
  have "to_string n \<noteq> []" by (subst to_string.simps) simp
  with to_string_digits [of n] show ?thesis by (cases "to_string n") auto
qed

text \<open>\<open>std::atoi\<close> reads back what \<open>std::to_string\<close> prints.\<close>

lemma digits_value_to_string: "digits_value (to_string n) = int n"
proof -
  have "foldl (\<lambda>v c. 10 * v + (of_char c - 48)) 0 (to_string n) = int n"
  proof (induction n rule: to_string.induct)
    case (1 n)
    then show ?case
      by (cases "n < 10"; subst to_string.simps) (simp_all add: digit_char zdiv_int zmod_int)
  qed
  moreover have "takeWhile is_digit (to_string n) = to_string n"
    using to_string_digits [of n] by (simp add: takeWhile_eq_all_conv list_all_iff)
  ultimately show ?thesis by (simp only: digits_value_def)
qed

lemma atoi_to_string:
  assumes "n < 2 ^ 31"
  shows "atoi (to_string n) = Some (int n)"
proof -
  obtain c u where s: "to_string n = c # u" "is_digit c" using to_string_Cons by blast
  then have "\<not> is_space c" "c \<noteq> CHR ''-''" "c \<noteq> CHR ''+''"
    by (auto simp: is_digit_def is_space_def)
  with s digits_value_to_string [of n] assms show ?thesis by (simp add: atoi_def Let_def)
qed

section \<open>Properties\<close>

lemma caught_not_Serving [simp]: "caught f \<noteq> Serving s"
  by (cases f) simp_all

lemma server_main_Serving:
  assumes "server_main (acceptor_main mk_addr inst sigs can_allocate Q open_listen) svc_run argv =
    Serving s"
  obtains a n addr port where "length argv = 5" "make_address (acceptor_main mk_addr inst sigs
      can_allocate Q open_listen) (argv ! 1) = Inr addr"
    "atoi (argv ! 2) = Some port" "atoi (argv ! 4) = Some n"
    "acceptor_new can_allocate Q (open_listen addr (word_of_int port)) (word_of_int n) (argv ! 3) = Inr a"
    "s = server_run svc_run (server_new\<lparr>services := [a]\<rparr>)"
  using assms that
  by (cases "atoi (argv ! 2)"; cases "atoi (argv ! 4)")
    (auto simp: server_main_def acceptor_main_def make_service_def server_new_def Let_def fail_simps
      split: if_splits sum.splits)

lemma acceptor_new_Inr:
  assumes "acceptor_new can_allocate Q open_listen num_workers root = Inr a"
  shows "acceptor_fresh a" "fa_size (ac_wv a) = unat num_workers"
    "\<forall>w \<in> set (fa_elems (ac_wv a)). wk_doc_root w = root"
proof -
  from assms obtain log c where
    new: "fixed_array_new can_allocate (worker_new Q root) (unat num_workers) 0 = (log, Inr (ac_wv a, c))"
    and "ac_sock a = []"
    by (auto simp: acceptor_new_def fail_simps split: prod.splits sum.splits)
  with make_workers [OF fixed_array_new_Inr(1) [OF new]] fixed_array_new_Inr(3) [OF new]
  show "acceptor_fresh a" "fa_size (ac_wv a) = unat num_workers"
    "\<forall>w \<in> set (fa_elems (ac_wv a)). wk_doc_root w = root"
    by (simp_all add: acceptor_fresh_def)
qed

text \<open>C34: When \<open>main\<close> gets to serving, it had its four arguments, and what it serves is the
  start of an execution of the system with one new acceptor, with as many workers as the
  last argument says, reduced to 64 bits, all of them with the third argument as their
  document root. So what is proved of the executions holds of the
  program.\<close>

theorem main_starts_system:
  assumes "server_main (acceptor_main mk_addr inst sigs can_allocate Q open_listen)
    (acceptor_run E) argv = Serving s"
  shows "length argv = 5 \<and>
    (\<exists>a n. system_trace E [a] [] s \<and> acceptor_fresh a \<and>
      atoi (argv ! 4) = Some n \<and> int (fa_size (ac_wv a)) = n mod 2 ^ 64 \<and>
      (\<forall>w \<in> set (fa_elems (ac_wv a)). wk_doc_root w = argv ! 3))"
proof -
  from assms obtain a n addr port where m: "length argv = 5" "atoi (argv ! 4) = Some n"
    "acceptor_new can_allocate Q (open_listen addr (word_of_int port)) (word_of_int n) (argv ! 3) = Inr a"
    "s = server_run (acceptor_run E) (server_new\<lparr>services := [a]\<rparr>)"
    by (rule server_main_Serving)
  have "int (unat (word_of_int n :: size_t)) = n mod 2 ^ 64"
    by (simp add: uint_word_of_int)
  with m acceptor_new_Inr [OF m(3)] server_trace.run show ?thesis by metis
qed

definition small_main :: "(unit, (small_parser, byte list) acceptor) main_env" where
  "small_main = acceptor_main (\<lambda>_. Inr ()) (Inr ()) (Inr ()) (\<lambda>_. True) small_parts (\<lambda>_ _. Inr ())"

definition small_argv :: "string \<Rightarrow> string list" where
  "small_argv workers = [''server'', ''0.0.0.0'', ''80'', ''/srv'', workers]"

definition small_served :: "string \<Rightarrow> (small_parser, byte list) acceptor server" where
  "small_served workers =
     (case server_main small_main (acceptor_run small_env)
        (small_argv workers) of Serving s \<Rightarrow> s | _ \<Rightarrow> server_new)"

theorem main_starts_system_witness:
  "length (small_argv ''2'') = 5 \<and>
   (\<exists>a n. system_trace small_env [a] [] (small_served ''2'') \<and>
     acceptor_fresh a \<and> atoi (small_argv ''2'' ! 4) = Some n \<and>
     int (fa_size (ac_wv a)) = n mod 2 ^ 64 \<and>
     (\<forall>w \<in> set (fa_elems (ac_wv a)). wk_doc_root w = small_argv ''2'' ! 3))"
proof (rule main_starts_system)
  show "server_main (acceptor_main (\<lambda>_. Inr ()) (Inr ()) (Inr ()) (\<lambda>_. True) small_parts
      (\<lambda>_ _. Inr ())) (acceptor_run small_env)
      (small_argv ''2'') = Serving (small_served ''2'')"
    by code_simp
qed

text \<open>C35: The numbers on the command line mean what they say: called with a port and a worker
  count in decimal, when nothing it calls throws, \<open>main\<close> serves with exactly that many
  workers, each of them waiting for a connection and serving the document root it was
  given. Only the low sixteen bits of the port are used, so a port beyond 65535 is silently another one.\<close>

theorem main_arguments_roundtrip:
  assumes "argv = [prog, address, to_string port, root, to_string n]"
    and "port < 2 ^ 31" "n < 2 ^ 31"
    and "mk_addr address = Inr addr" "inst = Inr ()" "sigs = Inr ()"
    and "open_listen addr p = Inr ()" "unat p = port mod 2 ^ 16"
    and "can_allocate n" "new_pr Q = Inr pr" "new_sr Q 65536 = Inr sr"
  shows "\<exists>s a. server_main (acceptor_main mk_addr inst sigs can_allocate Q open_listen)
      (acceptor_run E) argv = Serving s \<and>
    services s = [a] \<and> fa_size (ac_wv a) = n \<and>
    list_all (\<lambda>w. wk_phase w = Accepting \<and> wk_doc_root w = root) (fa_elems (ac_wv a))"
proof -
  from assms(8) have p: "word_of_int (int port) = p"
    by (simp add: word_unat_eq_iff unat_of_nat take_bit_eq_mod)
  have n: "unat (word_of_int (int n) :: size_t) = n"
    using assms(3) by (simp add: unat_of_nat take_bit_nat_eq_self)
  have "\<exists>w c'. worker_new Q root c = Inr (w, c')" for c
    using assms(10,11) by (simp add: worker_new_def split: prod.split)
  from fixed_array_new_total [where can_allocate = can_allocate and mk = "worker_new Q root" and s = 0, OF this assms(9)] obtain log wv c
    where "fixed_array_new can_allocate (worker_new Q root) n 0 = (log, Inr (wv, c))" by blast
  with assms(7) n p obtain a where a: "acceptor_new can_allocate Q
      (open_listen addr (word_of_int (int port))) (word_of_int (int n)) root = Inr a"
    by (simp add: acceptor_new_def)
  show ?thesis
    using assms(1-6) a acceptor_new_Inr(2,3) [OF a] n
    by (simp add: server_main_def acceptor_main_def make_service_def server_new_def atoi_to_string
        server_run_def server_defs acceptor_run_def fa_for_each_map fa_size_def list_all_iff
        worker_run_def do_accept_def)
qed

theorem main_arguments_roundtrip_witness:
  "\<exists>s a. server_main small_main (acceptor_run small_env)
      [''server'', ''0.0.0.0'', to_string 65616, ''/srv'', to_string 3] = Serving s \<and>
    services s = [a] \<and> fa_size (ac_wv a) = 3 \<and>
    list_all (\<lambda>w. wk_phase w = Accepting \<and> wk_doc_root w = ''/srv'') (fa_elems (ac_wv a))"
  unfolding small_main_def
  by (rule main_arguments_roundtrip [OF refl, where p = 80 and addr = "()" and sr = "[]" and pr = small_start])
    (simp_all add: small_parts_def)

text \<open>The number of workers is not checked: when the last argument does not start with a
  number the server runs with no worker at all, in every execution, and accepts no
  connection until a signal ends it.\<close>

lemma main_may_serve_nothing:
  assumes "server_main (acceptor_main mk_addr inst sigs can_allocate Q open_listen)
    (acceptor_run E) argv = Serving s"
    and "argv ! 4 = c # rest" "\<not> is_space c" "\<not> is_digit c" "c \<noteq> CHR ''-''" "c \<noteq> CHR ''+''"
  shows "\<exists>a. services s = [a] \<and> fa_elems (ac_wv a) = []"
proof -
  from assms(1) obtain a n addr port where m: "atoi (argv ! 4) = Some n"
    "acceptor_new can_allocate Q (open_listen addr (word_of_int port)) (word_of_int n) (argv ! 3) = Inr a"
    "s = server_run (acceptor_run E) (server_new\<lparr>services := [a]\<rparr>)"
    by (rule server_main_Serving)
  from assms(2-) m(1) have "n = 0" by (simp add: atoi_def digits_value_def Let_def)
  with acceptor_new_Inr(2) [OF m(2)] m(3) show ?thesis
    by (simp add: server_run_def server_new_def server_defs acceptor_run_def fa_for_each_map
        fa_size_def Let_def)
qed

end
