(* ===== verification/Progress.thy ===== *)
theory Progress
  imports Read_Laws Write_Laws
begin

text \<open>
  The operations of the library complete whatever the stream does: against every stream that
  keeps its contract, also one that chooses each answer by what has happened so far, and with
  a bound on the number of completions of the stream.
\<close>

section \<open>Operations that complete whatever the stream does\<close>

text \<open>
  \<open>settles F ok k h\<close>: the operation \<open>F\<close> has had the events \<open>h\<close>, and for every way in
  which the stream can go on, with what \<open>ok\<close> allows, it completes after at most \<open>k\<close> further
  completions of the stream and uses up every event.
\<close>

inductive settles ::
  "('c event list \<Rightarrow> ('io, 'o, 's, 'c) outcome) \<Rightarrow> ('io \<Rightarrow> 'c \<Rightarrow> bool) \<Rightarrow> nat \<Rightarrow>
   'c event list \<Rightarrow> bool"
  for F :: "'c event list \<Rightarrow> ('io, 'o, 's, 'c) outcome" and ok :: "'io \<Rightarrow> 'c \<Rightarrow> bool" where
  finished: "F h = Finished ec n s [] \<Longrightarrow> settles F ok k h"
| posted: "F h = Waiting (Posts ec n) q s [] \<Longrightarrow> settles F ok k (h @ [Ready]) \<Longrightarrow> settles F ok k h"
| started: "F h = Waiting (Starts io) q s [] \<Longrightarrow>
    (\<And>c. ok io c \<Longrightarrow> settles F ok k (h @ [Done c])) \<Longrightarrow> settles F ok (Suc k) h"

text \<open>So every stream, also one that chooses its answers by what has happened so far, drives
  the operation to its end.\<close>

lemma settles_strategy:
  fixes strategy :: "'c event list \<Rightarrow> 'io \<Rightarrow> 'c"
  assumes "settles F ok k h" and "\<And>h io. ok io (strategy h io)"
  shows "\<exists>ev ec n s. F (h @ ev) = Finished ec n s [] \<and> length (filter (\<lambda>e. e \<noteq> Ready) ev) \<le> k"
  using assms(1)
proof (induction rule: settles.induct)
  case (finished h ec n s k)
  then show ?case by (intro exI [of _ "[]"]) simp
next
  case (posted h ec n q s k)
  then obtain ev ec n s where "F ((h @ [Ready]) @ ev) = Finished ec n s []"
    "length (filter (\<lambda>e. e \<noteq> Ready) ev) \<le> k" by blast
  then show ?case by (intro exI [of _ "Ready # ev"]) simp
next
  case (started h io q s k)
  from started.IH [OF assms(2) [of io h]] obtain ev ec n s where
    "F ((h @ [Done (strategy h io)]) @ ev) = Finished ec n s []"
    "length (filter (\<lambda>e. e \<noteq> Ready) ev) \<le> k" by blast
  then show ?case by (intro exI [of _ "Done (strategy h io) # ev"]) simp
qed

text \<open>An operation that ends on every script of \<open>k\<close> completions settles.\<close>

lemma drive_settles:
  assumes "\<And>ev. F (h @ ev) = drive R recv ev eff q s"
    and "\<And>cs. length cs = k \<Longrightarrow> complies R recv ok (map Done cs) eff q s \<Longrightarrow>
      \<exists>ec n s' rest. drive R recv (map Done cs) eff q s = Finished ec n s' rest"
  shows "settles F ok k h"
  using assms
proof (induction k arbitrary: h eff q s)
  case 0
  from 0(2) [of "[]"] have "\<exists>ec n. eff = Completes ec n"
    by (cases eff) (simp_all add: drive_not_finished)
  with 0(1) [of "[]"] show ?case by (auto intro: settles.finished)
next
  case (Suc k)
  show ?case
  proof (cases eff)
    case (Completes ec n)
    with Suc.prems(1) [of "[]"] show ?thesis by (auto intro: settles.finished)
  next
    case (Starts io)
    have "settles F ok k (h @ [Done c])" if c: "ok io c" for c
    proof -
      obtain ec n s1 where r: "recv io c s = (ec, n, s1)" by (rule prod_cases3)
      note fin = Suc.prems(2) [of "c # cs" for cs, unfolded Starts]
      show ?thesis
      proof (cases "R q s1 ec n")
        case (Inl f)
        with fin [of "replicate k c"] r c show ?thesis by simp
      next
        case (Inr x)
        obtain eff' q' s' where x: "x = (eff', q', s')" by (rule prod_cases3)
        show ?thesis
        proof (rule Suc.IH)
          show "F ((h @ [Done c]) @ ev) = drive R recv ev eff' q' s'" for ev
            using Suc.prems(1) [of "Done c # ev"] Starts r Inr x by simp
          show "\<exists>ec n s'' rest. drive R recv (map Done cs) eff' q' s' = Finished ec n s'' rest"
            if "length cs = k" "complies R recv ok (map Done cs) eff' q' s'" for cs
            using fin [of cs] r Inr x c that by simp
        qed
      qed
    qed
    moreover from Suc.prems(1) [of "[]"] Starts have "F h = Waiting (Starts io) q s []" by simp
    ultimately show ?thesis by (blast intro: settles.started)
  next
    case (Posts ec n)
    with Suc.prems(2) [of "replicate (Suc k) undefined"] show ?thesis by simp
  next
    case Ends
    with Suc.prems(2) [of "replicate (Suc k) undefined"] show ?thesis by simp
  qed
qed

lemma launch_settles:
  assumes "\<And>cs. length cs = k \<Longrightarrow> launch_complies R recv ok q s (map Done cs) \<Longrightarrow>
      \<exists>ec n s' rest. launch R recv q s (map Done cs) = Finished ec n s' rest"
  shows "settles (launch R recv q s) ok k []"
proof (cases "R q s Success 0")
  case (Inl f)
  with assms [of "replicate k undefined"] show ?thesis
    by (simp add: launch_def launch_complies_def)
next
  case (Inr x)
  obtain eff q' s' where x: "x = (eff, q', s')" by (rule prod_cases3)
  show ?thesis
  proof (rule drive_settles)
    show "launch R recv q s ([] @ ev) = drive R recv ev eff q' s'" for ev
      using Inr x by (simp add: launch_def)
    show "\<exists>ec n s'' rest. drive R recv (map Done cs) eff q' s' = Finished ec n s'' rest"
      if "length cs = k" "complies R recv ok (map Done cs) eff q' s'" for cs
      using assms [OF that(1)] that(2) Inr x by (simp add: launch_def launch_complies_def)
  qed
qed

section \<open>The operations of the library settle\<close>

lemma header_settles:
  assumes "parser_contract P V" "idle V p" "\<not> got_header P p"
  shows "settles (async_read_header P p) read_stream_ok (max 1 (limit V)) []"
proof -
  have "\<exists>ec n p' rest. async_read_header P p (map Done cs) = Finished ec n p' rest"
    if "length cs = max 1 (limit V)"
      "launch_complies (read_header_call P) (read_recv P) read_stream_ok read_header_op_new p
        (map Done cs)" for cs
    using read_header_terminates [OF assms that(2)] that(1) by fastforce
  with launch_settles [of "max 1 (limit V)" "read_header_call P"] show ?thesis
    by (auto simp: async_read_header_def [abs_def])
qed

text \<open>\<open>async_read\<close> throws before it has initiated anything; \<open>joined\<close> makes that an outcome.\<close>

fun joined :: "failure + ('io, 'o, 's, 'c) outcome \<Rightarrow> ('io, 'o, 's, 'c) outcome" where
  "joined (Inl f) = Threw f"
| "joined (Inr out) = out"

lemma body_settles:
  assumes "parser_contract P V" "got_header P p" "idle V p \<or> is_complete P p"
  shows "settles (\<lambda>ev. joined (async_read P p ev)) read_stream_ok (max 1 (limit V)) []"
proof -
  let ?F = "\<lambda>ev. joined (async_read P p ev)"
  have F: "?F = read_body P False p"
    using assms(2) by (simp add: async_read_def)
  show ?thesis
  proof (cases "is_complete P p")
    case False
    with assms(3) have i: "idle V p" by simp
    have "\<exists>ec n p' rest. read_body P False p (map Done cs) = Finished ec n p' rest"
      if "length cs = max 1 (limit V)" "body_complies P False p (map Done cs)" for cs
      using body_read_ends [OF assms(1) i False that(2)] that(1) by fastforce
    with launch_settles [of "max 1 (limit V)" "read_body_call P"] show ?thesis
      unfolding F by (auto simp: read_body_def [abs_def])
  next
    case True
    with completeD [OF assms(1)] have "loaded V p" by blast
    with parseE [OF assms(1)] obtain ec p1 where parse: "pr_parse P p = Inr (ec, p1)" by metis
    have "\<exists>q. read_body P False p [] = Waiting (Posts Success 0) q p []"
      "\<exists>ec n p'. read_body P False p [Ready] = Finished ec n p' []"
      using True parse by (simp_all add: read_body_def launch_def read_body_defs read_body_op_new_def)
    then show ?thesis
      unfolding F by (metis append_Nil settles.finished settles.posted)
  qed
qed

text \<open>One inner \<open>async_write_some\<close>: it posts the error of the serializer, or one completion of
  the stream finishes it, whatever follows.\<close>

lemma write_some_shape:
  assumes C: "serializer_contract S V" and "ready V (wr_sr w)" "pending V (wr_sr w) \<noteq> []"
  obtains e q w1 w2 where "failed e" "moved V w w2 []"
      "async_write_some S w [] = Waiting (Posts e 0) q w1 []"
      "async_write_some S w [Ready] = Finished e 0 w2 []"
  | bufs q w1 where "async_write_some S w [] = Waiting (Starts bufs) q w1 []"
      "\<And>c. write_stream_ok bufs c \<Longrightarrow> \<exists>d w2. moved V w w2 d \<and>
         (fst c = Success \<longrightarrow> d \<noteq> [] \<and> ready V (wr_sr w2)) \<and>
         (\<forall>ev. async_write_some S w (Done c # ev) = Finished (fst c) (bytes_size d) w2 ev)"
proof (cases "write_some_resume S write_some_op_new w Success 0")
  case (Inl f)
  with some_init_inv [OF assms] show ?thesis by simp
next
  case (Inr x)
  obtain eff q w1 where x: "x = (eff, q, w1)" by (rule prod_cases3)
  from some_init_inv [OF assms] Inr x have I: "some_inv V w [] eff q w1" by simp
  have l: "async_write_some S w ev = drive (write_some_resume S) write_recv ev eff q w1" for ev
    using Inr x by (simp add: async_write_some_def launch_def)
  show ?thesis
  proof (cases eff)
    case (Posts e m)
    with I have *: "ws_at q = After_post" "failed e" "m = 0" "moved V w w1 []"
      by (simp_all add: some_inv_def)
    with Posts l show ?thesis by (intro that(1)) (simp_all add: write_some_defs)
  next
    case (Starts bufs)
    show ?thesis
    proof (rule that(2))
      show "async_write_some S w [] = Waiting (Starts bufs) q w1 []" using l Starts by simp
      show "\<exists>d w2. moved V w w2 d \<and> (fst c = Success \<longrightarrow> d \<noteq> [] \<and> ready V (wr_sr w2)) \<and>
          (\<forall>ev. async_write_some S w (Done c # ev) = Finished (fst c) (bytes_size d) w2 ev)"
        if ok: "write_stream_ok bufs c" for c
      proof -
        obtain ec n w2 where r: "write_recv bufs c w1 = (ec, n, w2)" by (rule prod_cases3)
        from some_call_inv [OF C I [unfolded Starts] ok r] obtain eff' q' w3 where
          n: "write_some_resume S q w2 ec n = Inr (eff', q', w3)" "some_inv V w [Done c] eff' q' w3"
          by (cases "write_some_resume S q w2 ec n") auto
        then obtain e m where e: "eff' = Completes e m" by (cases eff') (auto simp: some_inv_def)
        from n(1) r e I Starts have [simp]: "fst c = e"
          by (auto simp: some_inv_def write_some_defs write_recv_def fail_simps)
        from e n obtain d where "moved V w w3 d" "m = bytes_size d"
          "e = Success \<longrightarrow> d \<noteq> [] \<and> ready V (wr_sr w3)" by (auto simp: some_inv_def)
        moreover have "async_write_some S w (Done c # ev) = Finished e m w3 ev" for ev
          using l Starts r n(1) e by simp
        ultimately show ?thesis by auto
      qed
    qed
  qed (use I in \<open>auto simp: some_inv_def\<close>)
qed

lemma write_run_settles:
  assumes C: "serializer_contract S V"
  shows "write_inv V w0 (Starts ()) op w \<Longrightarrow> length (pending V (wr_sr w)) \<le> k \<Longrightarrow>
    (\<And>ev. F (h @ ev) = write_run S ev (Starts ()) op w) \<Longrightarrow> settles F write_stream_ok k h"
proof (induction k arbitrary: h op w)
  case 0
  then show ?case by (auto simp: write_inv_def)
next
  case (Suc k)
  from Suc.prems(1) have r: "ready V (wr_sr w)" "pending V (wr_sr w) \<noteq> []"
    by (auto simp: write_inv_def)
  from C r show ?case
  proof (rule write_some_shape)
    fix e q w1 w2
    assume e: "failed e" "moved V w w2 []" and a: "async_write_some S w [] = Waiting (Posts e 0) q w1 []"
      "async_write_some S w [Ready] = Finished e 0 w2 []"
    from write_op_call_inv [OF C Suc.prems(1) e(2), of e] e(1) obtain n op' where
      "write_op_call S op w2 e 0 = Inr (Completes e n, op', w2)" by (auto simp: failed_def)
    with a(2) Suc.prems(3) [of "[Ready]"] have "\<exists>n. F (h @ [Ready]) = Finished e n w2 []" by simp
    moreover from a(1) Suc.prems(3) [of "[]"] have "F h = Waiting (Posts e 0) (op, q) w1 []" by simp
    ultimately show ?thesis by (metis settles.finished settles.posted)
  next
    fix bufs q w1
    assume a: "async_write_some S w [] = Waiting (Starts bufs) q w1 []"
      "\<And>c. write_stream_ok bufs c \<Longrightarrow> \<exists>d w2. moved V w w2 d \<and>
         (fst c = Success \<longrightarrow> d \<noteq> [] \<and> ready V (wr_sr w2)) \<and>
         (\<forall>ev. async_write_some S w (Done c # ev) = Finished (fst c) (bytes_size d) w2 ev)"
    from a(1) Suc.prems(3) [of "[]"] have "F h = Waiting (Starts bufs) (op, q) w1 []" by simp
    then show ?thesis
    proof (rule settles.started)
      fix c assume "write_stream_ok bufs c"
      from a(2) [OF this] obtain d w2 where d: "moved V w w2 d"
        "fst c = Success \<Longrightarrow> d \<noteq> [] \<and> ready V (wr_sr w2)"
        "\<And>ev. async_write_some S w (Done c # ev) = Finished (fst c) (bytes_size d) w2 ev" by blast
      from write_op_call_inv [OF C Suc.prems(1) d(1)] d(2) obtain eff op' where
        call: "write_op_call S op w2 (fst c) (bytes_size d) = Inr (eff, op', w2)"
        and I: "write_inv V w0 eff op' w2" "failed (fst c) \<longrightarrow> eff = Completes (fst c) (wo_n op')" by blast
      have F: "F ((h @ [Done c]) @ ev) = write_run S ev eff op' w2" for ev
        using Suc.prems(3) [of "Done c # ev"] d(3) call by simp
      show "settles F write_stream_ok k (h @ [Done c])"
      proof (cases "eff = Starts ()")
        case True
        with I(2) d(2) have "d \<noteq> []" by auto
        with d(1) Suc.prems(2) have "length (pending V (wr_sr w2)) \<le> k"
          by (cases d) (simp_all add: moved_def)
        with Suc.IH I(1) F True show ?thesis by blast
      next
        case False
        with I(1) obtain e m where "eff = Completes e m" by (cases eff) (auto simp: write_inv_def)
        with F [of "[]"] show ?thesis by (auto intro: settles.finished)
      qed
    qed
  qed
qed

lemma write_settles:
  assumes "serializer_contract S V" "ready V (wr_sr w)" "pending V (wr_sr w) \<noteq> []"
  shows "settles (async_write S w) write_stream_ok (length (pending V (wr_sr w))) []"
  using assms(2,3)
  by (intro write_run_settles [OF assms(1) write_inv_start]) (simp_all add: async_write_run)

text \<open>C24: The operations of the library always complete. Against every stream that keeps its
  contract, whatever it answers at each step and even if it answers each time with as little
  as it may, \<open>async_read_header\<close> and \<open>async_read\<close> have completed after at most as many reads
  as the parser's limit has bytes (at least one), and \<open>async_write\<close> after at most as many
  writes as the message has bytes. They use every event they are given, and throw nothing on
  the way.\<close>

theorem operations_settle:
  assumes "parser_contract P V" "serializer_contract S SV"
    and "idle V p" "\<not> got_header P p"
    and "got_header P q" "idle V q \<or> is_complete P q"
    and "ready SV (wr_sr w)" "pending SV (wr_sr w) \<noteq> []"
  shows "settles (async_read_header P p) read_stream_ok (max 1 (limit V)) [] \<and>
    settles (\<lambda>ev. joined (async_read P q ev)) read_stream_ok (max 1 (limit V)) [] \<and>
    settles (async_write S w) write_stream_ok (length (pending SV (wr_sr w))) []"
  using header_settles [OF assms(1,3,4)] body_settles [OF assms(1,5,6)]
    write_settles [OF assms(2,7,8)] by blast

theorem operations_settle_witness:
  "settles (async_read_header small_ops small_start) read_stream_ok (max 1 (limit small_view)) [] \<and>
   settles (\<lambda>ev. joined (async_read small_ops (small_start\<lparr>sp_input := [10]\<rparr>) ev)) read_stream_ok
     (max 1 (limit small_view)) [] \<and>
   settles (async_write small_sr (small_wire [1, 2, 3] [])) write_stream_ok
     (length (pending small_sr_view (wr_sr (small_wire [1, 2, 3] [])))) []"
  by (rule operations_settle [OF small_contract small_sr_contract])
    (simp_all add: small_view_def small_ops_def small_start_def small_sr_view_def small_wire_def)

end
