(* ===== verification/Worker_Progress.thy ===== *)
theory Worker_Progress
  imports Worker_Laws Progress
begin

text \<open>
  Nothing can keep a request from ending: the operation of a worker that is outstanding
  completes whatever the two ends of the connection do, and after at most three operations
  the worker has answered the request or given the connection up.
\<close>

section \<open>The worker\<close>

definition operation_settles :: "('p, 's, 'f) worker_env \<Rightarrow> nat \<Rightarrow> ('p, 's) worker \<Rightarrow> bool" where
  "operation_settles E k w \<longleftrightarrow>
     (case wk_phase w of
        Idle \<Rightarrow> True
      | Accepting \<Rightarrow> True
      | Reading_header \<Rightarrow> settles (async_read_header (we_parser E) (wk_pr w)) read_stream_ok k []
      | Reading_body \<Rightarrow> settles (\<lambda>ev. joined (async_read (we_parser E) (wk_pr w) ev)) read_stream_ok k []
      | Writing \<Rightarrow> settles (async_write (we_serializer E) (wk_wire w)) write_stream_ok k [])"

text \<open>The number of completions it takes: as many reads as the parser's limit has bytes, or as
  many writes as the answer has.\<close>

definition io_bound :: "'p parser_view \<Rightarrow> 's serializer_view \<Rightarrow> ('p, 's) worker \<Rightarrow> nat" where
  "io_bound V SV w =
     (if wk_phase w = Writing then length (pending SV (wr_sr (wk_wire w))) else max 1 (limit V))"

text \<open>\<open>concludes E V SV k w\<close>: after at most \<open>k\<close> operations, each of which completes whatever its
  stream does, the worker is ready for the next request or has given up the connection, or
  the process has crashed on the \<open>Host\<close> of the request.\<close>

inductive concludes ::
  "('p, 's, 'f) worker_env \<Rightarrow> 'p parser_view \<Rightarrow> 's serializer_view \<Rightarrow> nat \<Rightarrow> ('p, 's) worker \<Rightarrow> bool"
  for E :: "('p, 's, 'f) worker_env" and V :: "'p parser_view" and SV :: "'s serializer_view" where
  over: "wk_phase w \<in> {Idle, Accepting} \<Longrightarrow> concludes E V SV k w"
| busy: "operation_settles E (io_bound V SV w) w \<Longrightarrow>
    (\<And>sd e r. event_ok E w e \<Longrightarrow> e \<noteq> Stopped \<Longrightarrow> worker_step E sd w e r \<Longrightarrow>
       (if host_crash E sd w e then r = Inl Null_dereference
        else \<exists>w'. r = Inr w' \<and> (wk_phase w' = Reading_header \<or> concludes E V SV k w'))) \<Longrightarrow>
    concludes E V SV (Suc k) w"

text \<open>When the operation settles there is a step to take, for every stream.\<close>

lemma settled_reads_step:
  fixes strategy :: "read_done event list \<Rightarrow> size_t \<Rightarrow> read_done"
  assumes "operation_settles E k w" "wk_phase w \<in> {Reading_header, Reading_body}"
    and "\<And>h cap. read_stream_ok cap (strategy h cap)"
  shows "\<exists>ev r. worker_step E sd w (Header_read ev) r \<or> worker_step E sd w (Body_read ev) r"
proof (cases "wk_phase w = Reading_header")
  case True
  with assms(1) have "settles (async_read_header (we_parser E) (wk_pr w)) read_stream_ok k []"
    by (simp add: operation_settles_def)
  from settles_strategy [where strategy = strategy, OF this assms(3)] True show ?thesis
    by (metis append_Nil worker_step.header_read)
next
  case False
  with assms(1,2) have "settles (\<lambda>ev. joined (async_read (we_parser E) (wk_pr w) ev)) read_stream_ok k []"
    by (simp add: operation_settles_def)
  from settles_strategy [where strategy = strategy, OF this assms(3)] obtain ev ec n p where
    "joined (async_read (we_parser E) (wk_pr w) ev) = Finished ec n p []" by auto
  then have "async_read (we_parser E) (wk_pr w) ev = Inr (Finished ec n p [])"
    by (cases "async_read (we_parser E) (wk_pr w) ev") auto
  with False assms(2) show ?thesis by (auto intro: worker_step.body_read)
qed

lemma settled_write_step:
  fixes strategy :: "write_done event list \<Rightarrow> byte list list \<Rightarrow> write_done"
  assumes "operation_settles E k w" "wk_phase w = Writing"
    and "\<And>h bufs. write_stream_ok bufs (strategy h bufs)"
  shows "\<exists>ev r. worker_step E sd w (Written ev) r"
proof -
  from assms(1,2) have "settles (async_write (we_serializer E) (wk_wire w)) write_stream_ok k []"
    by (simp add: operation_settles_def)
  from settles_strategy [where strategy = strategy, OF this assms(3)] assms(2) show ?thesis
    by (metis append_Nil worker_step.written)
qed

lemma inv_settles:
  assumes "worker_contract E V SV st" "worker_inv E V SV st w"
  shows "operation_settles E (io_bound V SV w) w"
  using assms header_settles [OF contractD(1) [OF assms(1)]] body_settles [OF contractD(1) [OF assms(1)]]
    write_settles [OF contractD(2) [OF assms(1)]]
  by (cases "wk_phase w") (auto simp: worker_inv_def operation_settles_def io_bound_def)

text \<open>The operations of a request come one after the other.\<close>

fun operations_left :: "phase \<Rightarrow> nat" where
  "operations_left Reading_header = 3"
| "operations_left Reading_body = 2"
| "operations_left Writing = 1"
| "operations_left p = 0"

lemma step_operations:
  "worker_step E sd w e (Inr w') \<Longrightarrow> e \<noteq> Stopped \<Longrightarrow> wk_phase w \<notin> {Idle, Accepting} \<Longrightarrow>
   wk_phase w' = Reading_header \<or> operations_left (wk_phase w') < operations_left (wk_phase w)"
  by (cases e) (auto elim!: worker_step_cases dest!: handler_phases [OF sym] split: if_splits)

lemma inv_concludes:
  assumes C: "worker_contract E V SV st"
  shows "worker_inv E V SV st w \<Longrightarrow> operations_left (wk_phase w) \<le> k \<Longrightarrow> concludes E V SV k w"
proof (induction k arbitrary: w)
  case 0
  then show ?case by (cases "wk_phase w") (auto intro: concludes.over)
next
  case (Suc k)
  show ?case
  proof (cases "wk_phase w \<in> {Idle, Accepting}")
    case False
    show ?thesis
    proof (rule concludes.busy [OF inv_settles [OF C Suc.prems(1)]])
      fix sd e r
      assume ok: "event_ok E w e" "e \<noteq> Stopped" and step: "worker_step E sd w e r"
      note good = worker_step_good [OF C Suc.prems(1) ok(1) step]
      show "if host_crash E sd w e then r = Inl Null_dereference
        else \<exists>w'. r = Inr w' \<and> (wk_phase w' = Reading_header \<or> concludes E V SV k w')"
      proof (cases "host_crash E sd w e")
        case False
        with good step obtain w' where
          w': "r = Inr w'" "worker_inv E V SV st w'" "worker_step E sd w e (Inr w')"
          by (auto simp: good_result_def)
        with step_operations [OF w'(3) ok(2) \<open>wk_phase w \<notin> {Idle, Accepting}\<close>] Suc.prems(2)
          Suc.IH [OF w'(2)] False show ?thesis by fastforce
      qed (use good in simp)
    qed
  qed (rule concludes.over)
qed



end
