(* ===== verification/System_Halt.thy ===== *)
theory System_Halt
  imports System Worker_Progress
begin

text \<open>
  The end of the program: after \<open>stop\<close>, when the operations that were cancelled report it,
  every handler that runs is one less to come, and when none is left \<open>ioc_.run()\<close> returns.
\<close>

section \<open>The work that keeps \<open>run\<close> from returning\<close>

definition busy_workers :: "('p, 's) acceptor \<Rightarrow> nat" where
  "busy_workers a = length (filter (\<lambda>w. wk_phase w \<noteq> Idle) (fa_elems (ac_wv a)))"

definition system_work :: "('p, 's) acceptor server \<Rightarrow> nat" where
  "system_work s =
     sigs_waits s + timer_waits s + length (queued s) + sum_list (map busy_workers (services s))"

text \<open>A queued handler runs, or the handler of a worker whose operation was cancelled.\<close>

inductive winding_step ::
  "('p, 's, 'f) worker_env \<Rightarrow> ('p, 's) acceptor server \<Rightarrow> ('p, 's) acceptor server \<Rightarrow> bool"
  for E :: "('p, 's, 'f) worker_env" where
  handler: "server_step acceptor_stop (acceptor_step E) s (Handled c) s' \<Longrightarrow> winding_step E s s'"
| aborted: "i < length (services s) \<Longrightarrow> a = services s ! i \<Longrightarrow> j < fa_size (ac_wv a) \<Longrightarrow>
    w = fa_elems (ac_wv a) ! j \<Longrightarrow> event_ok E w e \<Longrightarrow>
    completion_code E w e = Some Operation_aborted \<Longrightarrow>
    worker_step E (is_shutting_down s) w e (Inr w') \<Longrightarrow>
    winding_step E s (s\<lparr>services := (services s)
      [i := a\<lparr>ac_wv := (ac_wv a)\<lparr>fa_elems := (fa_elems (ac_wv a))[j := w']\<rparr>\<rparr>]\<rparr>)"

lemma winding_server_step:
  assumes "winding_step E s s'"
  shows "\<exists>e. server_step acceptor_stop (acceptor_step E) s e s'"
  using assms
proof cases
  case (aborted i a j w e w')
  then have "e \<noteq> Stopped" by auto
  with aborted have "acceptor_step E (is_shutting_down s) (services s ! i)
      (a\<lparr>ac_wv := (ac_wv a)\<lparr>fa_elems := (fa_elems (ac_wv a))[j := w']\<rparr>\<rparr>)"
    by (auto intro: acceptor_step.worker)
  from server_step.serviced [where svc_step = "acceptor_step E" and s = s, OF aborted(2) this] aborted(1)
  show ?thesis by blast
qed blast

lemma length_filter_update:
  "i < length xs \<Longrightarrow> P (xs ! i) \<Longrightarrow> \<not> P x \<Longrightarrow>
   Suc (length (filter P (xs[i := x]))) = length (filter P xs)"
  by (induction xs arbitrary: i) (auto split: nat.split)

lemma sum_list_update_Suc:
  fixes f :: "'a \<Rightarrow> nat"
  shows "i < length xs \<Longrightarrow> Suc (f x) = f (xs ! i) \<Longrightarrow>
    Suc (sum_list (map f (xs[i := x]))) = sum_list (map f xs)"
  by (induction xs arbitrary: i) (auto split: nat.split)

text \<open>A stopped server starts nothing, and a worker that is told its operation was aborted
  ends.\<close>

lemma winding_work:
  assumes "winding_step E s s'" "is_stopped s" "is_shutting_down s"
  shows "Suc (system_work s') = system_work s \<and> is_stopped s' \<and> is_shutting_down s'"
  using assms(1)
proof cases
  case (handler c)
  from handler obtain before after where q: "queued s = before @ c # after"
    "s' = run_completion acceptor_stop c (s\<lparr>queued := before @ after\<rparr>)"
    by (auto elim: server_stepE)
  with assms(2,3) show ?thesis
    by (cases c) (auto simp: on_signal_def on_timer_def server_stop_def system_work_def)
next
  case (aborted i a j w e w')
  then have "e \<noteq> Stopped" by auto
  with step_completion [OF aborted(8)] aborted(7) have "wk_phase w' = Idle" by simp
  moreover from aborted(8) \<open>e \<noteq> Stopped\<close> have "wk_phase w \<noteq> Idle"
    by (cases e) (auto elim: worker_step_cases)
  ultimately have "Suc (busy_workers (a\<lparr>ac_wv := (ac_wv a)\<lparr>fa_elems := (fa_elems (ac_wv a))[j := w']\<rparr>\<rparr>)) =
      busy_workers (services s ! i)"
    using aborted(3-5) length_filter_update [of j "fa_elems (ac_wv a)" "\<lambda>w. wk_phase w \<noteq> Idle"]
    by (simp add: busy_workers_def fa_size_def)
  from sum_list_update_Suc [OF aborted(2) this] aborted(1) assms(2,3) show ?thesis
    by (simp add: system_work_def)
qed

lemma no_work_no_step:
  assumes "system_work s = 0"
  shows "\<not> server_step acceptor_stop (acceptor_step E) s e s'"
proof
  assume "server_step acceptor_stop (acceptor_step E) s e s'"
  then show False
  proof cases
    case (serviced i v)
    from serviced(4) obtain j ev w where w: "j < length (fa_elems (ac_wv (services s ! i)))"
      "ev \<noteq> Stopped" "worker_step E (is_shutting_down s) (fa_elems (ac_wv (services s ! i)) ! j) ev (Inr w)"
      by (rule acceptor_step_worker)
    from assms serviced(3) have "busy_workers (services s ! i) = 0"
      by (auto simp: system_work_def)
    with w(1) have "wk_phase (fa_elems (ac_wv (services s ! i)) ! j) = Idle"
      by (auto simp: busy_workers_def filter_empty_conv)
    with w(2,3) show False by (cases ev) (auto elim: worker_step_cases)
  qed (use assms in \<open>auto simp: system_work_def\<close>)
qed

section \<open>A cancelled operation ends its worker\<close>

text \<open>An operation that waits for its stream can be cancelled; one that has posted itself (a body
  that was complete already, or a serializer that failed) can not.\<close>

definition on_stream :: "('p, 's, 'f) worker_env \<Rightarrow> ('p, 's) worker \<Rightarrow> bool" where
  "on_stream E w \<longleftrightarrow>
     (case wk_phase w of
        Idle \<Rightarrow> False
      | Accepting \<Rightarrow> True
      | Reading_header \<Rightarrow> True
      | Reading_body \<Rightarrow> \<not> is_complete (we_parser E) (wk_pr w)
      | Writing \<Rightarrow> (\<exists>bufs q wire. async_write (we_serializer E) (wk_wire w) [] = Waiting (Starts bufs) q wire []))"

lemma header_aborts:
  assumes "parser_contract P V" "idle V p" "\<not> got_header P p"
  shows "\<exists>n p'. async_read_header P p [Done (Operation_aborted, [])] = Finished Operation_aborted n p' []"
proof -
  from assms(1,2) obtain cap p1 where 1: "pr_prepare P p = Inr (cap, p1)" "armed V p1 cap"
    by (rule prepareE)
  from commitE [OF assms(1) 1(2), of "[]"] obtain p2 where
    "pr_commit P (bytes_size []) (pr_fill P [] p1) = Inr p2" by auto
  with 1(1) assms(3) show ?thesis
    by (simp add: async_read_header_def launch_def read_header_defs read_header_op_new_def
        read_recv_def read_commit_def failed_def)
qed

lemma body_aborts:
  assumes "parser_contract P V" "idle V p" "\<not> is_complete P p" "got_header P p"
  shows "\<exists>n p'. async_read P p [Done (Operation_aborted, [])] = Inr (Finished Operation_aborted n p' [])"
proof -
  from assms(1,2) obtain cap p1 where 1: "pr_prepare P p = Inr (cap, p1)" "armed V p1 cap"
    by (rule prepareE)
  from commitE [OF assms(1) 1(2), of "[]"] obtain p2 where
    "pr_commit P (bytes_size []) (pr_fill P [] p1) = Inr p2" by auto
  with 1(1) assms(3,4) show ?thesis
    by (simp add: async_read_def read_body_def launch_def read_body_defs read_body_op_new_def
        read_recv_def read_commit_def failed_def)
qed

lemma write_aborts:
  assumes C: "serializer_contract S V" and r: "ready V (wr_sr w)" "pending V (wr_sr w) \<noteq> []"
    and io: "async_write S w [] = Waiting (Starts bufs) q w0 []"
  shows "\<exists>n w'. async_write S w [Done (Operation_aborted, 0)] = Finished Operation_aborted n w' []"
  using C r
proof (rule write_some_shape)
  fix e q w1 w2
  assume "async_write_some S w [] = Waiting (Posts e 0) q w1 []"
  with io show ?thesis by (simp add: async_write_run)
next
  fix bs q w1
  assume c: "\<And>c. write_stream_ok bs c \<Longrightarrow> \<exists>d w2. moved V w w2 d \<and>
      (fst c = Success \<longrightarrow> d \<noteq> [] \<and> ready V (wr_sr w2)) \<and>
      (\<forall>ev. async_write_some S w (Done c # ev) = Finished (fst c) (bytes_size d) w2 ev)"
  have "write_stream_ok bs (Operation_aborted, 0)" by (simp add: write_stream_ok_def)
  from c [OF this] obtain d w2 where d: "moved V w w2 d"
    "async_write_some S w [Done (Operation_aborted, 0)] = Finished Operation_aborted (bytes_size d) w2 []"
    by auto
  from write_op_call_inv [OF C write_inv_start [OF r] d(1), of Operation_aborted] obtain n op' where
    "write_op_call S (write_op_new\<lparr>wo_at := After_io\<rparr>) w2 Operation_aborted (bytes_size d) =
       Inr (Completes Operation_aborted n, op', w2)" by (auto simp: failed_def)
  with d(2) show ?thesis by (simp add: async_write_run)
qed

text \<open>The event with which the cancelled operation of a worker completes.\<close>

fun abort_event :: "phase \<Rightarrow> worker_event" where
  "abort_event Reading_header = Header_read [Done (Operation_aborted, [])]"
| "abort_event Reading_body = Body_read [Done (Operation_aborted, [])]"
| "abort_event Writing = Written [Done (Operation_aborted, 0)]"
| "abort_event p = Accepted Operation_aborted"

lemma abort_event_ok:
  assumes "on_stream E w"
  shows "event_ok E w (abort_event (wk_phase w))"
proof -
  have r: "read_stream_ok cap (Operation_aborted, [])" for cap by (simp add: read_stream_ok_def)
  have "async_write_complies S wire [Done (Operation_aborted, 0)]" for S and wire :: "'b wire"
    unfolding async_write_complies_def
    by (rule write_complies_one) (simp add: write_stream_ok_def)
  with r show ?thesis
    by (cases "wk_phase w") (simp_all add: launch_complies_one)
qed

lemma abort_step:
  assumes C: "worker_contract E V SV st" and I: "worker_inv E V SV st w" and io: "on_stream E w"
  shows "completion_code E w (abort_event (wk_phase w)) = Some Operation_aborted \<and>
    (\<exists>w'. worker_step E sd w (abort_event (wk_phase w)) (Inr w'))"
proof (cases "wk_phase w")
  case Idle
  with io show ?thesis by (simp add: on_stream_def)
next
  case Accepting
  then show ?thesis
    by (auto simp: worker_step_next on_accept_def on_failure_def failed_def)
next
  case Reading_header
  with I header_aborts [OF contractD(1) [OF C]] obtain n p where
    "async_read_header (we_parser E) (wk_pr w) [Done (Operation_aborted, [])] = Finished Operation_aborted n p []"
    by (fastforce simp: worker_inv_def)
  with Reading_header show ?thesis
    by (auto simp: worker_step_next on_read_header_def on_failure_def failed_def Let_def)
next
  case Reading_body
  with I io body_aborts [OF contractD(1) [OF C]] obtain n p where
    "async_read (we_parser E) (wk_pr w) [Done (Operation_aborted, [])] = Inr (Finished Operation_aborted n p [])"
    by (fastforce simp: worker_inv_def on_stream_def)
  with Reading_body show ?thesis
    by (auto simp: worker_step_next on_read_body_def on_failure_def failed_def Let_def)
next
  case Writing
  with I io write_aborts [OF contractD(2) [OF C]] obtain n wire where
    "async_write (we_serializer E) (wk_wire w) [Done (Operation_aborted, 0)] = Finished Operation_aborted n wire []"
    by (fastforce simp: worker_inv_def on_stream_def)
  with Writing show ?thesis
    by (auto simp: worker_step_next on_write_def on_failure_def failed_def Let_def)
qed

section \<open>The program ends\<close>

lemma winding_trace:
  assumes "(winding_step E ^^ n) s s'" "system_trace E vs es s" "is_stopped s" "is_shutting_down s"
  shows "n + system_work s' = system_work s \<and> (\<exists>es'. system_trace E vs es' s')"
  using assms
proof (induction n arbitrary: s es)
  case (Suc n)
  then obtain t where t: "winding_step E s t" "(winding_step E ^^ n) t s'"
    by (blast dest: relpowp_Suc_D2)
  from winding_server_step [OF t(1)] Suc.prems(2) obtain es' where "system_trace E vs es' t"
    by (blast intro: server_trace.step)
  with Suc.IH [OF t(2)] winding_work [OF t(1) Suc.prems(3,4)] show ?case by auto
qed auto

lemma winding_enabled:
  assumes C: "worker_contract E V SV st"
    and tr: "system_trace E vs es s" "\<forall>a \<in> set vs. acceptor_fresh a"
    and some: "queued s \<noteq> [] \<or> (\<exists>a \<in> set (services s). \<exists>w \<in> set (fa_elems (ac_wv a)). on_stream E w)"
  shows "\<exists>t. winding_step E s t"
proof (cases "queued s")
  case (Cons c cs)
  from winding_step.handler [OF server_step.handled [of _ "[]" c cs]] Cons show ?thesis by fastforce
next
  case Nil
  with some obtain a w where a: "a \<in> set (services s)" "w \<in> set (fa_elems (ac_wv a))" "on_stream E w"
    by blast
  then obtain i j where i: "i < length (services s)" "a = services s ! i"
    "j < fa_size (ac_wv a)" "w = fa_elems (ac_wv a) ! j"
    by (auto simp: in_set_conv_nth fa_size_def)
  from system_good(1) [OF tr a(1)] a(2) have "worker_reach E w"
    by (auto simp: acceptor_good_def dest: history_reach)
  from abort_step [OF C worker_reach_inv [OF C this] a(3), of "is_shutting_down s"] obtain w' where
    "completion_code E w (abort_event (wk_phase w)) = Some Operation_aborted"
    "worker_step E (is_shutting_down s) w (abort_event (wk_phase w)) (Inr w')" by blast
  from winding_step.aborted [OF i abort_event_ok [OF a(3)] this] show ?thesis by blast
qed

lemma busy_at_most: "busy_workers a \<le> fa_size (ac_wv a)"
  by (simp add: busy_workers_def fa_size_def)

text \<open>C19: A stopped server ends. When every operation that \<open>stop\<close> has cancelled reports its
  cancellation, each handler that runs leaves exactly one less to run, none starts anything
  new, so that after at most one handler for each worker and one of the server itself no
  step is possible and \<open>run\<close> returns. Until then there is always one that can run, the
  handler in the queue or that of a worker that waits for its stream.\<close>

theorem stopped_server_winds_down:
  assumes "worker_contract E V SV startable"
    and "system_trace E vs es s" "\<forall>a \<in> set vs. acceptor_fresh a" "is_stopped s"
    and "(winding_step E ^^ n) s s'"
  shows "n + system_work s' = system_work s \<and>
    system_work s \<le> 1 + sum_list (map (\<lambda>a. fa_size (ac_wv a)) (services s)) \<and>
    (system_work s' = 0 \<longrightarrow> (\<forall>e t. \<not> server_step acceptor_stop (acceptor_step E) s' e t)) \<and>
    (queued s' \<noteq> [] \<or> (\<exists>a \<in> set (services s'). \<exists>w \<in> set (fa_elems (ac_wv a)). on_stream E w) \<longrightarrow>
      (\<exists>t. winding_step E s' t))"
proof -
  note stopped = stopped_inv [OF server_trace_inv [OF assms(2)] assms(4)]
  from winding_trace [OF assms(5,2,4) stopped(1)] obtain es' where
    w: "n + system_work s' = system_work s" "system_trace E vs es' s'" by blast
  have "sum_list (map busy_workers (services s)) \<le> sum_list (map (\<lambda>a. fa_size (ac_wv a)) (services s))"
    by (rule sum_list_mono) (rule busy_at_most)
  with stopped have "system_work s \<le> 1 + sum_list (map (\<lambda>a. fa_size (ac_wv a)) (services s))"
    by (simp add: system_work_def)
  with w no_work_no_step winding_enabled [OF assms(1) w(2) assms(3)] show ?thesis by blast
qed

definition halted_worker :: "(small_parser, byte list) worker" where
  "halted_worker = (small_worker Idle [Close, Cancel] [10] [] [] [])\<lparr>
     wk_pr := \<lparr>sp_input = [10], sp_buffer = [], sp_eof = False\<rparr>\<rparr>"

definition halting :: "completion list \<Rightarrow> (small_parser, byte list) worker \<Rightarrow>
    (small_parser, byte list) acceptor server" where
  "halting q w =
     \<lparr>sigs_waits = 0, timer_waits = 0, timer_expiry = 30, queued = q,
      services = [(one_worker w)\<lparr>ac_sock := [Cancel]\<rparr>], is_shutting_down = True, is_stopped = True\<rparr>"

lemma halting_trace:
  "\<exists>es. one_trace es (halting [On_signal Operation_aborted 0]
     (small_worker Reading_body [Close, Cancel] [10] [] [] []))"
proof -
  let ?w = "small_worker Reading_body [Close] [10] [] [] []"
  let ?s = "(one_server True ?w)\<lparr>timer_waits := 0, queued := [On_timer Success]\<rparr>"
  have "server_step acceptor_stop (acceptor_step small_env) (one_server True ?w) Expired ?s"
    using server_step.expired [of "one_server True ?w" 0 acceptor_stop "acceptor_step small_env"]
    by (simp add: one_server_def)
  note t = server_trace.step [OF one_trace_shutdown this]
  have "run_completion acceptor_stop (On_timer Success) (?s\<lparr>queued := [] @ []\<rparr>) =
      halting [On_signal Operation_aborted 0] (small_worker Reading_body [Close, Cancel] [10] [] [] [])"
    by code_simp
  with server_trace.step [OF t server_step.handled [of _ "[]" "On_timer Success" "[]"]]
  show ?thesis by auto
qed

lemma halting_winds:
  "(winding_step small_env ^^ 2)
     (halting [On_signal Operation_aborted 0] (small_worker Reading_body [Close, Cancel] [10] [] [] []))
     (halting [] halted_worker)"
proof -
  let ?w = "small_worker Reading_body [Close, Cancel] [10] [] [] []"
  let ?s = "halting [On_signal Operation_aborted 0] ?w"
  have "run_completion acceptor_stop (On_signal Operation_aborted 0) (?s\<lparr>queued := [] @ []\<rparr>) = halting [] ?w"
    by code_simp
  with winding_step.handler [OF server_step.handled [of ?s "[]" "On_signal Operation_aborted 0" "[]"]]
  have 1: "winding_step small_env ?s (halting [] ?w)" by (simp add: halting_def)
  have "worker_step small_env True ?w (Body_read [Done (Operation_aborted, [])])
      (Inr halted_worker)"
    by (rule worker_stepI) code_simp
  note step = this
  have "event_ok small_env ?w (Body_read [Done (Operation_aborted, [])])"
    "completion_code small_env ?w (Body_read [Done (Operation_aborted, [])]) = Some Operation_aborted"
    by code_simp+
  from winding_step.aborted [of 0 "halting [] ?w" "services (halting [] ?w) ! 0" 0 ?w, OF _ refl _ _ this]
    step have "winding_step small_env (halting [] ?w)
      (halting [] halted_worker)"
    by (simp add: halting_def one_worker_def fa_size_def)
  with 1 show ?thesis by (auto simp: numeral_2_eq_2)
qed

theorem stopped_server_winds_down_witness:
  "2 + system_work (halting [] halted_worker) =
     system_work (halting [On_signal Operation_aborted 0]
       (small_worker Reading_body [Close, Cancel] [10] [] [] [])) \<and>
   (\<forall>e t. \<not> server_step acceptor_stop (acceptor_step small_env) (halting [] halted_worker) e t)"
proof -
  obtain es where "one_trace es (halting [On_signal Operation_aborted 0]
     (small_worker Reading_body [Close, Cancel] [10] [] [] []))" using halting_trace by blast
  from stopped_server_winds_down [OF small_env_contract this one_fresh _ halting_winds]
  have "2 + system_work (halting [] halted_worker) =
      system_work (halting [On_signal Operation_aborted 0]
        (small_worker Reading_body [Close, Cancel] [10] [] [] []))"
    "system_work (halting [] halted_worker) = 0 \<longrightarrow>
      (\<forall>e t. \<not> server_step acceptor_stop (acceptor_step small_env) (halting [] halted_worker) e t)"
    by (simp_all add: halting_def)
  moreover have "system_work (halting [] halted_worker) = 0"
    by code_simp
  ultimately show ?thesis by simp
qed

end
