(* ===== verification/Channel.thy ===== *)
theory Channel
  imports Read_Laws Write_Laws
begin

text \<open>
  The write operations on one end of a byte stream and the read operations on the other:
  what a parser has received is what a serializer was started with, and the counts
  reported on both ends are the numbers of bytes, without wrapping.
\<close>

section \<open>The channel\<close>

text \<open>A stream delivers what the other end has accepted, in order; \<open>later\<close> is what it has not
  delivered yet.\<close>

definition fifo :: "'s wire \<Rightarrow> 's wire \<Rightarrow> read_done event list \<Rightarrow> byte list \<Rightarrow> bool" where
  "fifo w w' used later \<longleftrightarrow> wr_sent w' = wr_sent w @ delivered used @ later"

section \<open>A message from end to end\<close>

text \<open>What the two reads of a message leave in the parser.\<close>

lemma header_then_body:
  assumes C: "parser_contract P V" and start: "idle V p" "\<not> got_header P p"
    and hok: "launch_complies (read_header_call P) (read_recv P) read_stream_ok
      read_header_op_new p (uh @ rh)"
    and h: "async_read_header P p (uh @ rh) = Finished Success m p1 rh"
    and bok: "body_complies P False p1 (ub @ rb)"
    and b: "async_read P p1 (ub @ rb) = Inr (Finished Success k p2 rb)"
  shows "input V p2 = input V p @ delivered (uh @ ub)" "m + k = bytes_size (delivered (uh @ ub))"
    "is_complete P p2"
proof -
  from header_finished [OF C disjI1 [OF start(1)] hok h] start(2)
  have 1: "input V p1 = input V p @ delivered uh" "idle V p1 \<or> is_complete P p1"
    by (metis append_same_eq)+
  from rh.launch_counts [OF h [unfolded async_read_header_def]]
  have m: "m = bytes_size (delivered uh)" by (auto simp: moved_by_delivered)
  from b have b': "read_body P False p1 (ub @ rb) = Finished Success k p2 rb"
    by (simp add: async_read_Inr)
  from body_finished [OF C 1(2) bok b'] have "input V p2 = input V p1 @ delivered ub"
    "k = bytes_size (delivered ub)" "is_complete P p2" by (metis append_same_eq)+
  with 1(1) m show "input V p2 = input V p @ delivered (uh @ ub)"
    "m + k = bytes_size (delivered (uh @ ub))" "is_complete P p2"
    by (simp_all add: bytes_size_def)
qed

text \<open>C4: A message crosses a connection unchanged: when \<open>async_write\<close> has sent a serialized
  message with success, and the other end has read a header and a body from the stream with
  success, then the parser there holds a complete message, made of exactly the first bytes
  of the one that was sent, in order; the rest is what the stream has yet to deliver, and the
  two counts reported add up to the bytes received.\<close>

theorem message_crosses_channel:
  assumes "serializer_contract S SV" "ready SV (wr_sr w)" "pending SV (wr_sr w) = msg" "msg \<noteq> []"
    and "async_write_complies S w ev" "async_write S w ev = Finished Success n w' rest"
    and "parser_contract P V" "idle V p" "\<not> got_header P p"
    and "launch_complies (read_header_call P) (read_recv P) read_stream_ok
      read_header_op_new p (uh @ rh)"
    and "async_read_header P p (uh @ rh) = Finished Success m p1 rh"
    and "body_complies P False p1 (ub @ rb)"
    and "async_read P p1 (ub @ rb) = Inr (Finished Success k p2 rb)"
    and "fifo w w' (uh @ ub) later"
  shows "\<exists>received. input V p2 = input V p @ received \<and> msg = received @ later \<and>
    is_complete P p2 \<and> m + k = bytes_size received"
proof -
  from async_write_sat [OF assms(1,2) _ assms(5)] assms(3,4,6)
  have "wr_sent w' = wr_sent w @ msg" by (auto simp: moved_def)
  with assms(14) have "msg = delivered (uh @ ub) @ later" by (simp add: fifo_def)
  with header_then_body [OF assms(7-13)] show ?thesis by blast
qed

theorem message_crosses_channel_witness:
  "\<exists>received. input small_view \<lparr>sp_input = [10, 65, 0], sp_buffer = [65, 0], sp_eof = False\<rparr> =
      input small_view small_start @ received \<and>
    [10, 65, 0] = received @ [] \<and>
    is_complete small_ops \<lparr>sp_input = [10, 65, 0], sp_buffer = [65, 0], sp_eof = False\<rparr> \<and>
    1 + 2 = bytes_size received"
proof (rule message_crosses_channel [OF small_sr_contract])
  show "ready small_sr_view (wr_sr (small_wire [10, 65, 0] []))"
    "pending small_sr_view (wr_sr (small_wire [10, 65, 0] [])) = [10, 65, 0]"
    by (simp_all add: small_sr_view_def small_wire_def)
  show "async_write_complies small_sr (small_wire [10, 65, 0] []) [Done (Success, 2), Done (Success, 1)]"
    "async_write small_sr (small_wire [10, 65, 0] []) [Done (Success, 2), Done (Success, 1)] =
      Finished Success 3 (small_wire [] [10, 65, 0]) []"
    by code_simp+
  show "launch_complies (read_header_call small_ops) (read_recv small_ops) read_stream_ok
      read_header_op_new small_start ([Done (Success, [10])] @ [])"
    "async_read_header small_ops small_start ([Done (Success, [10])] @ []) =
      Finished Success 1 \<lparr>sp_input = [10], sp_buffer = [10], sp_eof = False\<rparr> []"
    "body_complies small_ops False \<lparr>sp_input = [10], sp_buffer = [10], sp_eof = False\<rparr>
      ([Done (Success, [65, 0])] @ [])"
    "async_read small_ops \<lparr>sp_input = [10], sp_buffer = [10], sp_eof = False\<rparr>
      ([Done (Success, [65, 0])] @ []) =
      Inr (Finished Success 2 \<lparr>sp_input = [10, 65, 0], sp_buffer = [65, 0], sp_eof = False\<rparr> [])"
    "fifo (small_wire [10, 65, 0] []) (small_wire [] [10, 65, 0])
      ([Done (Success, [10])] @ [Done (Success, [65, 0])]) []"
    by code_simp+
  show "parser_contract small_ops small_view" by (rule small_contract)
qed (simp_all add: small_view_def small_ops_def small_start_def)

section \<open>The counts\<close>

text \<open>C27: The number of bytes that \<open>async_write\<close> reports is exact: for a message that a
  \<open>std::size_t\<close> can measure, the sum the operation keeps never wraps, it is the number of
  bytes the stream has accepted meanwhile, also after an error, and at most the length of
  the message; it is that length exactly when everything was written.\<close>

theorem async_write_count_exact:
  assumes "serializer_contract S SV" "ready SV (wr_sr w)" "pending SV (wr_sr w) \<noteq> []"
    and "async_write_complies S w ev" "async_write S w ev = Finished ec n w' rest"
    and fits: "length (pending SV (wr_sr w)) < 2 ^ 64"
  shows "unat n = length (wr_sent w') - length (wr_sent w) \<and>
    unat n \<le> length (pending SV (wr_sr w)) \<and>
    (unat n = length (pending SV (wr_sr w)) \<longleftrightarrow> pending SV (wr_sr w') = [])"
proof -
  from async_write_sat [OF assms(1-4)] assms(5) obtain d
    where d: "moved SV w w' d" "n = bytes_size d" by auto
  then have p: "pending SV (wr_sr w) = d @ pending SV (wr_sr w')" "wr_sent w' = wr_sent w @ d"
    by (simp_all add: moved_def)
  with fits have "length d < 2 ^ 64" by simp
  with d(2) have "unat n = length d"
    by (simp add: bytes_size_def unat_of_nat take_bit_nat_eq_self)
  with p show ?thesis by simp
qed

theorem async_write_count_exact_witness:
  "unat (2 :: size_t) = length (wr_sent (small_wire [3] [1, 2])) - length (wr_sent (small_wire [1, 2, 3] [])) \<and>
   unat (2 :: size_t) \<le> length (pending small_sr_view (wr_sr (small_wire [1, 2, 3] []))) \<and>
   (unat (2 :: size_t) = length (pending small_sr_view (wr_sr (small_wire [1, 2, 3] []))) \<longleftrightarrow>
     pending small_sr_view (wr_sr (small_wire [3] [1, 2])) = [])"
proof (rule async_write_count_exact [OF small_sr_contract])
  show "async_write_complies small_sr (small_wire [1, 2, 3] [])
      [Done (Success, 2), Done (Other_error 1, 0)]"
    "async_write small_sr (small_wire [1, 2, 3] []) [Done (Success, 2), Done (Other_error 1, 0)] =
      Finished (Other_error 1) 2 (small_wire [3] [1, 2]) []"
    by code_simp+
qed (simp_all add: small_sr_view_def small_wire_def)

end
