(* ===== verification/Client.thy ===== *)
theory Client
  imports Read_Laws Write_Laws
begin

text \<open>
  \<open>example/client/flex_await/main.cpp\<close>: an HTTP client that performs one GET, follows
  redirects and prints the body. \<open>request\<close>, \<open>connect\<close> and \<open>write_get_request\<close> are C++20
  coroutines that run one after the other, so the client is a state machine whose phase
  is the \<open>co_await\<close> it is suspended at. The code between two suspensions is one
  definition; what an \<open>co_await\<close> throws ends the machine.
\<close>

section \<open>\<open>any_stream\<close>\<close>

text \<open>
  Each operation of \<open>any_stream\<close> is a lambda with a flag: its first call starts the
  operation of the stream it holds, and the second one completes with what that
  operation has reported.
\<close>

definition any_stream_call :: "'io \<Rightarrow> (bool, 's, 'io) resume" where
  "any_stream_call buffers init s ec n =
     (if init then Inr (Completes ec n, True, s) else Inr (Starts buffers, True, s))"

text \<open>The streams of the variant, and what \<open>async_shutdown\<close> does with each: a TLS stream is
  shut down by an operation of its own, a plain socket is closed at once, and the code of
  \<open>close\<close> is what the operation completes with.\<close>

datatype any_stream = Plain | Ssl

datatype shutdown_io = Ssl_shutdown | Close_socket

definition async_shutdown_io :: "any_stream \<Rightarrow> shutdown_io" where
  "async_shutdown_io stream = (case stream of Ssl \<Rightarrow> Ssl_shutdown | Plain \<Rightarrow> Close_socket)"

definition async_shutdown_call :: "any_stream \<Rightarrow> (bool, 's, shutdown_io) resume" where
  "async_shutdown_call stream = any_stream_call (async_shutdown_io stream)"

section \<open>The request\<close>

datatype req_call =
    Set_method_get
  | Set_target string
  | Set_version_1_1
  | Set_req_keep_alive bool
  | Set_host string
  | Set_user_agent string
  | Set_accept_encoding string

definition get_request :: "bool \<Rightarrow> string \<Rightarrow> string \<Rightarrow> req_call list" where
  "get_request has_zlib host target =
     [Set_method_get, Set_target target, Set_version_1_1, Set_req_keep_alive False,
      Set_host host, Set_user_agent ''Boost.Http.Io''] @
     (if has_zlib then [Set_accept_encoding ''gzip, deflate''] else [])"

section \<open>What the client calls\<close>

record url =
  u_host :: string
  u_has_port :: bool
  u_port :: string
  u_scheme :: string
  u_encoded_target :: string

datatype resp_status =
    Moved_permanently | Found | Temporary_redirect | Permanent_redirect | Other_status nat

text \<open>The parameters: parser, serializer and URL library. \<open>pull_body\<close> gives the buffers of
  the body, \<open>resp_location\<close> is \<open>find(field::location)\<close>, and \<open>set_sni\<close> is
  \<open>SSL_set_tlsext_host_name\<close> with the error of a failure.\<close>

record ('p, 's) client_env =
  ce_parser :: "'p parser_ops"
  ce_serializer :: "'s serializer_ops"
  new_parser :: "failure + 'p"
  rp_reset :: "'p \<Rightarrow> 'p"
  rp_start :: "'p \<Rightarrow> failure + 'p"
  pull_body :: "'p \<Rightarrow> byte list list"
  consume_body :: "size_t \<Rightarrow> 'p \<Rightarrow> 'p"
  resp_status_of :: "'p \<Rightarrow> resp_status"
  resp_location :: "'p \<Rightarrow> string option"
  start_request :: "req_call list \<Rightarrow> failure + 's"
  parse_uri :: "string \<Rightarrow> url option"
  set_sni :: "string \<Rightarrow> error_code option"
  has_zlib :: bool

definition is_redirect :: "resp_status \<Rightarrow> bool" where
  "is_redirect st =
     (case st of
        Moved_permanently \<Rightarrow> True
      | Found \<Rightarrow> True
      | Temporary_redirect \<Rightarrow> True
      | Permanent_redirect \<Rightarrow> True
      | Other_status n \<Rightarrow> False)"

text \<open>The service and the target that \<open>main\<close> and \<open>request\<close> take from a URL.\<close>

definition url_service :: "url \<Rightarrow> string" where
  "url_service u = (if u_has_port u then u_port u else u_scheme u)"

definition url_target :: "url \<Rightarrow> string" where
  "url_target u = (if u_encoded_target u \<noteq> [] then u_encoded_target u else ''/'')"

section \<open>The state\<close>

text \<open>The \<open>co_await\<close> the client is suspended at, or how it has ended.\<close>

datatype client_phase =
    Resolving
  | Connecting
  | Handshaking
  | Writing_request
  | Reading_response
  | Leaving url
  | Reading_some
  | Shutting_down
  | Done_ok
  | Failed failure

text \<open>\<open>cl_host\<close>, \<open>cl_service\<close> and \<open>cl_target\<close> are those of the current request,
  \<open>cl_requests\<close> is what has been sent so far: over which stream, and which request, and
  \<open>cl_shut\<close> lists the shutdowns begun so far. The parser is constructed once, after the
  first request has been written.\<close>

record ('p, 's) client =
  cl_phase :: client_phase
  cl_host :: string
  cl_service :: string
  cl_target :: string
  cl_stream :: any_stream
  cl_wire :: "'s wire option"
  cl_pr :: "'p option"
  cl_out :: "byte list"
  cl_requests :: "(any_stream \<times> req_call list) list"
  cl_shut :: "shutdown_io list"

definition client_throws :: "failure \<Rightarrow> ('p, 's) client \<Rightarrow> ('p, 's) client" where
  "client_throws f c = c\<lparr>cl_phase := Failed f\<rparr>"

text \<open>An initiating function runs to its first suspension, and may throw before it.\<close>

definition awaiting ::
  "('io, 'o, 't, 'd) outcome \<Rightarrow> client_phase \<Rightarrow> ('p, 's) client \<Rightarrow> ('p, 's) client" where
  "awaiting out ph c =
     (case out of Threw f \<Rightarrow> client_throws f c | _ \<Rightarrow> c\<lparr>cl_phase := ph\<rparr>)"

section \<open>The code between two suspensions\<close>

text \<open>The call of \<open>connect\<close>, and of \<open>request\<close> from \<open>main\<close>.\<close>

definition begin_connect ::
  "string \<Rightarrow> string \<Rightarrow> string \<Rightarrow> ('p, 's) client \<Rightarrow> ('p, 's) client" where
  "begin_connect host service target c =
     c\<lparr>cl_host := host, cl_service := service, cl_target := target, cl_phase := Resolving\<rparr>"

definition request_new :: "string \<Rightarrow> string \<Rightarrow> string \<Rightarrow> ('p, 's) client" where
  "request_new host service target =
     begin_connect host service target
       \<lparr>cl_phase = Resolving, cl_host = [], cl_service = [], cl_target = [], cl_stream = Plain,
        cl_wire = None, cl_pr = None, cl_out = [], cl_requests = [], cl_shut = []\<rparr>"

text \<open>The call of \<open>stream.async_shutdown\<close>, at the end and before a redirect is followed.\<close>

definition begin_shutdown :: "client_phase \<Rightarrow> ('p, 's) client \<Rightarrow> ('p, 's) client" where
  "begin_shutdown ph c =
     c\<lparr>cl_shut := cl_shut c @ [async_shutdown_io (cl_stream c)], cl_phase := ph\<rparr>"

text \<open>\<open>write_get_request\<close>, once \<open>connect\<close> has returned the stream.\<close>

definition write_get_request ::
  "('p, 's) client_env \<Rightarrow> any_stream \<Rightarrow> ('p, 's) client \<Rightarrow> ('p, 's) client" where
  "write_get_request E stream c =
     (let c1 = c\<lparr>cl_stream := stream\<rparr>;
          req = get_request (has_zlib E) (cl_host c) (cl_target c)
      in case start_request E req of
           Inl f \<Rightarrow> client_throws f c1
         | Inr sr \<Rightarrow>
             let wire = \<lparr>wr_sr = sr, wr_sent = []\<rparr> in
             awaiting (async_write (ce_serializer E) wire []) Writing_request
               (c1\<lparr>cl_wire := Some wire, cl_requests := cl_requests c @ [(stream, req)]\<rparr>))"

definition after_resolve :: "error_code \<Rightarrow> ('p, 's) client \<Rightarrow> ('p, 's) client" where
  "after_resolve ec c =
     (if failed ec then client_throws (System_error ec) c else c\<lparr>cl_phase := Connecting\<rparr>)"

definition after_connect ::
  "('p, 's) client_env \<Rightarrow> error_code \<Rightarrow> ('p, 's) client \<Rightarrow> ('p, 's) client" where
  "after_connect E ec c =
     (if failed ec then client_throws (System_error ec) c
      else if cl_service c = ''https'' then
        (case set_sni E (cl_host c) of
           Some e \<Rightarrow> client_throws (System_error e) c
         | None \<Rightarrow> c\<lparr>cl_phase := Handshaking\<rparr>)
      else write_get_request E Plain c)"

definition after_handshake ::
  "('p, 's) client_env \<Rightarrow> error_code \<Rightarrow> ('p, 's) client \<Rightarrow> ('p, 's) client" where
  "after_handshake E ec c =
     (if failed ec then client_throws (System_error ec) c else write_get_request E Ssl c)"

text \<open>After the request has been written: \<open>reset\<close>, \<open>start\<close> and \<open>async_read_header\<close>. The
  first time the parser is constructed.\<close>

definition after_write_request ::
  "('p, 's) client_env \<Rightarrow> error_code \<Rightarrow> ('p, 's) client \<Rightarrow> ('p, 's) client" where
  "after_write_request E ec c =
     (if failed ec then client_throws (System_error ec) c
      else
        (case sbind (case cl_pr c of None \<Rightarrow> new_parser E | Some p \<Rightarrow> Inr p)
                (\<lambda>p. rp_start E (rp_reset E p)) of
           Inl f \<Rightarrow> client_throws f c
         | Inr p \<Rightarrow>
             awaiting (async_read_header (ce_parser E) p []) Reading_response (c\<lparr>cl_pr := Some p\<rparr>)))"

text \<open>One iteration of the loop that prints the body, up to its suspension. The buffers are
  those of the call of \<open>pull_body\<close> before the loop over them.\<close>

definition body_loop ::
  "('p, 's) client_env \<Rightarrow> 'p \<Rightarrow> ('p, 's) client \<Rightarrow> ('p, 's) client" where
  "body_loop E p c =
     (let bufs = pull_body E p;
          p1 = fold (\<lambda>cb. consume_body E (bytes_size cb)) bufs p;
          c1 = c\<lparr>cl_out := cl_out c @ concat bufs, cl_pr := Some p1\<rparr>
      in if is_complete (ce_parser E) p1 then begin_shutdown Shutting_down c1
         else
           (case async_read_some (ce_parser E) p1 [] of
              Inl f \<Rightarrow> client_throws f c1
            | Inr out \<Rightarrow> awaiting out Reading_some c1))"

text \<open>After a response header: the test and the body of the redirect loop. \<open>url->host()\<close>
  goes through \<open>result::operator->\<close> without a check.\<close>

definition after_header ::
  "('p, 's) client_env \<Rightarrow> error_code \<Rightarrow> 'p \<Rightarrow> ('p, 's) client \<Rightarrow> ('p, 's) client" where
  "after_header E ec p c =
     (if failed ec then client_throws (System_error ec) c
      else if is_redirect (resp_status_of E p) then
        (case resp_location E p of
           None \<Rightarrow> client_throws (Runtime_error ''Bad redirect response'') c
         | Some v \<Rightarrow>
             (case parse_uri E v of
                None \<Rightarrow> client_throws Null_dereference c
              | Some u \<Rightarrow> begin_shutdown (Leaving u) (c\<lparr>cl_pr := Some p\<rparr>)))
      else body_loop E p c)"

text \<open>The code of the shutdown before a redirect is ignored.\<close>

definition after_leave :: "url \<Rightarrow> error_code \<Rightarrow> ('p, 's) client \<Rightarrow> ('p, 's) client" where
  "after_leave u ec c = begin_connect (u_host u) (url_service u) (url_target u) c"

definition after_read_some ::
  "('p, 's) client_env \<Rightarrow> error_code \<Rightarrow> 'p \<Rightarrow> ('p, 's) client \<Rightarrow> ('p, 's) client" where
  "after_read_some E ec p c =
     (if failed ec \<and> ec \<noteq> Need_more_input then client_throws (System_error ec) c
      else body_loop E p c)"

definition after_shutdown :: "error_code \<Rightarrow> ('p, 's) client \<Rightarrow> ('p, 's) client" where
  "after_shutdown ec c =
     (if failed ec \<and> ec \<noteq> Stream_truncated then client_throws (System_error ec) c
      else c\<lparr>cl_phase := Done_ok\<rparr>)"

section \<open>The machine\<close>

text \<open>What the operation that is awaited does: its code, or the events of its stream.\<close>

datatype client_event =
    Completed error_code
  | Wrote "write_done event list"
  | Read "read_done event list"

fun client_next ::
  "('p, 's) client_env \<Rightarrow> ('p, 's) client \<Rightarrow> client_event \<Rightarrow> ('p, 's) client option" where
  "client_next E c (Completed ec) =
     (case cl_phase c of
        Resolving \<Rightarrow> Some (after_resolve ec c)
      | Connecting \<Rightarrow> Some (after_connect E ec c)
      | Handshaking \<Rightarrow> Some (after_handshake E ec c)
      | Leaving u \<Rightarrow> Some (after_leave u ec c)
      | Shutting_down \<Rightarrow> Some (after_shutdown ec c)
      | _ \<Rightarrow> None)"
| "client_next E c (Wrote ev) =
     (case (cl_phase c, cl_wire c) of
        (Writing_request, Some w) \<Rightarrow>
          (case async_write (ce_serializer E) w ev of
             Finished ec n w1 [] \<Rightarrow> Some (after_write_request E ec (c\<lparr>cl_wire := Some w1\<rparr>))
           | Threw f \<Rightarrow> Some (client_throws f c)
           | _ \<Rightarrow> None)
      | _ \<Rightarrow> None)"
| "client_next E c (Read ev) =
     (case (cl_phase c, cl_pr c) of
        (Reading_response, Some p) \<Rightarrow>
          (case async_read_header (ce_parser E) p ev of
             Finished ec n p1 [] \<Rightarrow> Some (after_header E ec p1 c)
           | Threw f \<Rightarrow> Some (client_throws f c)
           | _ \<Rightarrow> None)
      | (Reading_some, Some p) \<Rightarrow>
          (case async_read_some (ce_parser E) p ev of
             Inr (Finished ec n p1 []) \<Rightarrow> Some (after_read_some E ec p1 c)
           | Inr (Threw f) \<Rightarrow> Some (client_throws f c)
           | Inl f \<Rightarrow> Some (client_throws f c)
           | _ \<Rightarrow> None)
      | _ \<Rightarrow> None)"

text \<open>\<open>main\<close>: the state it runs, or \<open>None\<close> when it ends with \<open>EXIT_FAILURE\<close> before.\<close>

definition client_main ::
  "('p, 's) client_env \<Rightarrow> string list \<Rightarrow> ('p, 's) client option" where
  "client_main E argv =
     (if length argv \<noteq> 2 then None
      else
        (case parse_uri E (argv ! 1) of
           None \<Rightarrow> None
         | Some u \<Rightarrow> Some (request_new (u_host u) (url_service u) (url_target u))))"

text \<open>What \<open>main\<close> sets up before the coroutine is spawned; each of the calls may throw. Only
  the members of the configuration that the code sets are modelled.\<close>

record parser_config =
  body_limit :: size_t
  min_buffer :: size_t
  apply_gzip_decoder :: bool
  apply_deflate_decoder :: bool

definition client_config :: "bool \<Rightarrow> parser_config \<Rightarrow> parser_config" where
  "client_config zlib cfg =
     (let cfg1 = cfg\<lparr>body_limit := - 1, min_buffer := 1024 * 1024\<rparr>
      in if zlib then cfg1\<lparr>apply_gzip_decoder := True, apply_deflate_decoder := True\<rparr> else cfg1)"

record client_services =
  new_ssl_context :: "failure + unit"
  default_config :: parser_config
  install_zlib :: "failure + unit"
  install_parser :: "parser_config \<Rightarrow> failure + unit"

definition client_setup :: "bool \<Rightarrow> client_services \<Rightarrow> failure + unit" where
  "client_setup zlib S =
     sbind (new_ssl_context S) (\<lambda>_.
     sbind (if zlib then install_zlib S else Inr ()) (\<lambda>_.
     install_parser S (client_config zlib (default_config S))))"

text \<open>How the process ends. The handler of \<open>co_spawn\<close> rethrows what the coroutine has thrown,
  out of \<open>ioc.run()\<close> and into the \<open>catch(std::exception const&)\<close> of \<open>main\<close>; a failed
  assertion and a null dereference are no exceptions.\<close>

datatype client_exit = Client_success | Client_failure | Client_crash

fun client_caught :: "failure \<Rightarrow> client_exit" where
  "client_caught Assertion_failed = Client_crash"
| "client_caught Null_dereference = Client_crash"
| "client_caught f = Client_failure"

definition client_process ::
  "('p, 's) client_env \<Rightarrow> client_services \<Rightarrow> string list \<Rightarrow> client_exit + ('p, 's) client" where
  "client_process E S argv =
     (case client_main E argv of
        None \<Rightarrow> Inl Client_failure
      | Some c \<Rightarrow>
          (case client_setup (has_zlib E) S of
             Inl f \<Rightarrow> Inl (client_caught f)
           | Inr u \<Rightarrow> Inr c))"

text \<open>\<open>None\<close> while \<open>ioc.run()\<close> has work.\<close>

definition client_ends :: "('p, 's) client \<Rightarrow> client_exit option" where
  "client_ends c =
     (case cl_phase c of
        Done_ok \<Rightarrow> Some Client_success
      | Failed f \<Rightarrow> Some (client_caught f)
      | _ \<Rightarrow> None)"

text \<open>The events the network can produce, and the runs of the client.\<close>

fun client_event_ok ::
  "('p, 's) client_env \<Rightarrow> ('p, 's) client \<Rightarrow> client_event \<Rightarrow> bool" where
  "client_event_ok E c (Completed ec) \<longleftrightarrow> True"
| "client_event_ok E c (Wrote ev) \<longleftrightarrow>
     (case cl_wire c of None \<Rightarrow> True | Some w \<Rightarrow> async_write_complies (ce_serializer E) w ev)"
| "client_event_ok E c (Read ev) \<longleftrightarrow>
     (case cl_pr c of
        None \<Rightarrow> True
      | Some p \<Rightarrow>
          (if cl_phase c = Reading_response
           then launch_complies (read_header_call (ce_parser E)) (read_recv (ce_parser E))
                  read_stream_ok read_header_op_new p ev
           else body_complies (ce_parser E) True p ev))"

inductive client_reach ::
  "('p, 's) client_env \<Rightarrow> ('p, 's) client \<Rightarrow> bool" for E :: "('p, 's) client_env" where
  main: "client_main E argv = Some c \<Longrightarrow> client_reach E c"
| step: "client_reach E c \<Longrightarrow> client_event_ok E c e \<Longrightarrow> client_next E c e = Some c' \<Longrightarrow>
    client_reach E c'"

text \<open>A run over a list of events, when each of them can happen.\<close>

fun client_run ::
  "('p, 's) client_env \<Rightarrow> ('p, 's) client \<Rightarrow> client_event list \<Rightarrow> ('p, 's) client option" where
  "client_run E c [] = Some c"
| "client_run E c (e # es) =
     (if client_event_ok E c e
      then (case client_next E c e of None \<Rightarrow> None | Some c' \<Rightarrow> client_run E c' es)
      else None)"

lemma client_run_append:
  "client_run E c (es @ es') =
     (case client_run E c es of None \<Rightarrow> None | Some c' \<Rightarrow> client_run E c' es')"
  by (induction E c es rule: client_run.induct) (auto split: option.split)

lemma client_run_reach:
  "client_run E c es = Some c' \<Longrightarrow> client_reach E c \<Longrightarrow> client_reach E c'"
  by (induction E c es rule: client_run.induct)
    (auto intro: client_reach.step split: if_splits option.splits)

end
