(* ===== verification/Client_Laws.thy ===== *)
theory Client_Laws
  imports Client
begin

text \<open>
  What the client promises: it prints exactly the body of the last response, it fails
  only with network errors, a redirect that it cannot follow or a location that it cannot
  parse, and it speaks TLS exactly when the service is called \<open>https\<close>.
\<close>

section \<open>\<open>any_stream\<close>\<close>

text \<open>The wrapped operation completes with the first completion of the stream's own
  operation, unchanged.\<close>

lemma any_stream_launch:
  "launch (any_stream_call buffers) recv False s (Done c # ev) =
     (case recv buffers c s of (ec, n, s1) \<Rightarrow> Finished ec n s1 ev)"
  by (simp add: launch_def any_stream_call_def split: prod.split)

section \<open>What the client relies on\<close>

text \<open>A property of the parser that the operations of the library keep.\<close>

definition parser_keeps :: "'p parser_ops \<Rightarrow> ('p \<Rightarrow> bool) \<Rightarrow> bool" where
  "parser_keeps P K \<longleftrightarrow>
     (\<forall>p. K p \<longrightarrow>
        (\<forall>bs. K (pr_fill P bs p)) \<and>
        (\<forall>cap p1. pr_prepare P p = Inr (cap, p1) \<longrightarrow> K p1) \<and>
        (\<forall>n p1. pr_commit P n p = Inr p1 \<longrightarrow> K p1) \<and>
        (\<forall>p1. pr_commit_eof P p = Inr p1 \<longrightarrow> K p1) \<and>
        (\<forall>ec p1. pr_parse P p = Inr (ec, p1) \<longrightarrow> K p1))"

lemma keepsD:
  assumes "parser_keeps P K" "K p"
  shows "K (pr_fill P bs p)" "pr_prepare P p = Inr (cap, p1) \<Longrightarrow> K p1"
    "pr_commit P n p = Inr p1 \<Longrightarrow> K p1" "pr_commit_eof P p = Inr p1 \<Longrightarrow> K p1"
    "pr_parse P p = Inr (ec, p1) \<Longrightarrow> K p1"
  using assms unfolding parser_keeps_def by blast+

lemma read_commit_keeps:
  "parser_keeps P K \<Longrightarrow> K p \<Longrightarrow> read_commit P p ec n = Inr (ec1, p1) \<Longrightarrow> K p1"
  by (auto simp: read_commit_def boost_assert_def fail_simps dest: keepsD split: if_splits)

lemma read_recv_keeps:
  "parser_keeps P K \<Longrightarrow> K p \<Longrightarrow> read_recv P cap c p = (e, m, p1) \<Longrightarrow> K p1"
  by (auto simp: read_recv_def keepsD(1))

lemma header_keeps:
  assumes K: "parser_keeps P K" "K p" and fin: "async_read_header P p ev = Finished ec n p' rest"
  shows "K p'"
proof (rule launch_keeps [where K = K, OF _ read_recv_keeps [OF K(1)] K(2) fin [unfolded async_read_header_def]])
  fix q p e m assume p: "K p"
  show "result_sat (\<lambda>_ _. K) (\<lambda>_. True) (read_header_call P q p e m)"
  proof (cases "read_header_call P q p e m")
    case (Inr r)
    with p show ?thesis
      by (auto simp: read_header_defs Let_def boost_assert_def fail_simps
          dest: keepsD(2-5) [OF K(1), rotated] read_commit_keeps [OF K(1), rotated] split: point.splits if_splits)
        (blast dest: keepsD(2-5) [OF K(1), rotated] read_commit_keeps [OF K(1), rotated])+
  qed simp
qed

lemma body_keeps:
  assumes K: "parser_keeps P K" "K p" and fin: "read_body P some p ev = Finished ec n p' rest"
  shows "K p'"
proof (rule launch_keeps [where K = K, OF _ read_recv_keeps [OF K(1)] K(2) fin [unfolded read_body_def]])
  fix q p e m assume p: "K p"
  show "result_sat (\<lambda>_ _. K) (\<lambda>_. True) (read_body_call P q p e m)"
  proof (cases "read_body_call P q p e m")
    case (Inr r)
    with p show ?thesis
      by (auto simp: read_body_defs Let_def boost_assert_def fail_simps
          dest: keepsD(2-5) [OF K(1), rotated] read_commit_keeps [OF K(1), rotated] split: point.splits if_splits)
        (blast dest: keepsD(2-5) [OF K(1), rotated] read_commit_keeps [OF K(1), rotated])+
  qed simp
qed

text \<open>
  The body: \<open>consumed\<close> is what has been taken out of the parser with \<open>consume_body\<close> since
  it was started, from the front of what \<open>pull_body\<close> shows. The operations of the
  library do not consume.
\<close>

abbreviation body_left :: "('p, 's) client_env \<Rightarrow> 'p \<Rightarrow> byte list" where
  "body_left E p \<equiv> concat (pull_body E p)"

definition body_contract ::
  "('p, 's) client_env \<Rightarrow> 'p parser_view \<Rightarrow> ('p \<Rightarrow> byte list) \<Rightarrow> bool" where
  "body_contract E V consumed \<longleftrightarrow>
     (\<forall>bs. parser_keeps (ce_parser E) (\<lambda>p. consumed p = bs)) \<and>
     parser_keeps (ce_parser E) (got_header (ce_parser E)) \<and>
     (\<forall>p. length (body_left E p) < 2 ^ 64) \<and>
     (\<forall>p n. unat n \<le> length (body_left E p) \<longrightarrow>
        (let p1 = consume_body E n p in
           consumed p1 = consumed p @ take (unat n) (body_left E p) \<and>
           body_left E p1 = drop (unat n) (body_left E p) \<and>
           is_complete (ce_parser E) p1 = is_complete (ce_parser E) p \<and>
           got_header (ce_parser E) p1 = got_header (ce_parser E) p \<and> idle V p1 = idle V p \<and>
           input V p1 = input V p))"

definition client_contract ::
  "('p, 's) client_env \<Rightarrow> 'p parser_view \<Rightarrow> 's serializer_view \<Rightarrow> ('p \<Rightarrow> byte list) \<Rightarrow> bool" where
  "client_contract E V SV consumed \<longleftrightarrow>
     parser_contract (ce_parser E) V \<and> serializer_contract (ce_serializer E) SV \<and>
     body_contract E V consumed \<and> (\<exists>p. new_parser E = Inr p) \<and>
     (\<forall>p. \<exists>p1. rp_start E (rp_reset E p) = Inr p1 \<and> idle V p1 \<and>
        \<not> got_header (ce_parser E) p1 \<and> consumed p1 = [] \<and> input V p1 = []) \<and>
     (\<forall>req. \<exists>s. start_request E req = Inr s \<and> ready SV s \<and> pending SV s \<noteq> [])"

lemma client_contractD:
  assumes "client_contract E V SV consumed"
  shows "parser_contract (ce_parser E) V" "serializer_contract (ce_serializer E) SV"
    "body_contract E V consumed" "\<exists>p. new_parser E = Inr p"
    "\<exists>p1. rp_start E (rp_reset E p) = Inr p1 \<and> idle V p1 \<and>
       \<not> got_header (ce_parser E) p1 \<and> consumed p1 = [] \<and> input V p1 = []"
    "\<exists>s. start_request E req = Inr s \<and> ready SV s \<and> pending SV s \<noteq> []"
  using assms unfolding client_contract_def by blast+

lemma consume_all:
  assumes B: "body_contract E V consumed" and "body_left E p = concat bufs @ rest"
  shows "let p1 = fold (\<lambda>cb. consume_body E (bytes_size cb)) bufs p in
    consumed p1 = consumed p @ concat bufs \<and> body_left E p1 = rest \<and>
    is_complete (ce_parser E) p1 = is_complete (ce_parser E) p \<and>
    got_header (ce_parser E) p1 = got_header (ce_parser E) p \<and> idle V p1 = idle V p \<and>
    input V p1 = input V p"
  using assms(2)
proof (induction bufs arbitrary: p)
  case (Cons cb bufs)
  let ?p = "consume_body E (bytes_size cb) p"
  from B have "length (body_left E p) < 2 ^ 64" by (simp add: body_contract_def)
  with Cons.prems have n: "unat (bytes_size cb) = length cb"
    by (simp add: bytes_size_def unat_of_nat take_bit_nat_eq_self)
  with Cons.prems have "unat (bytes_size cb) \<le> length (body_left E p)" by simp
  with B have "consumed ?p = consumed p @ take (unat (bytes_size cb)) (body_left E p)"
    "body_left E ?p = drop (unat (bytes_size cb)) (body_left E p)"
    "is_complete (ce_parser E) ?p = is_complete (ce_parser E) p"
    "got_header (ce_parser E) ?p = got_header (ce_parser E) p" "idle V ?p = idle V p"
    "input V ?p = input V p"
    unfolding body_contract_def Let_def by blast+
  with Cons n show ?case by (simp add: Let_def)
qed simp

section \<open>The invariant\<close>

fun client_failure :: "failure \<Rightarrow> bool" where
  "client_failure (System_error ec) = True"
| "client_failure (Runtime_error s) = (s = ''Bad redirect response'')"
| "client_failure Null_dereference = True"
| "client_failure f = False"

definition client_inv ::
  "('p, 's) client_env \<Rightarrow> 'p parser_view \<Rightarrow> 's serializer_view \<Rightarrow> ('p \<Rightarrow> byte list) \<Rightarrow>
   ('p, 's) client \<Rightarrow> bool" where
  "client_inv E V SV consumed c \<longleftrightarrow>
     (case cl_phase c of
        Writing_request \<Rightarrow> cl_out c = [] \<and> (\<exists>w. cl_wire c = Some w \<and>
          ready SV (wr_sr w) \<and> pending SV (wr_sr w) \<noteq> [])
      | Reading_response \<Rightarrow> cl_out c = [] \<and> (\<exists>p. cl_pr c = Some p \<and> idle V p \<and>
          \<not> got_header (ce_parser E) p \<and> consumed p = [])
      | Reading_some \<Rightarrow> (\<exists>p. cl_pr c = Some p \<and> got_header (ce_parser E) p \<and> idle V p \<and>
          \<not> is_complete (ce_parser E) p \<and> body_left E p = [] \<and> cl_out c = consumed p)
      | Shutting_down \<Rightarrow> (\<exists>p. cl_pr c = Some p \<and> is_complete (ce_parser E) p \<and>
          body_left E p = [] \<and> cl_out c = consumed p)
      | Done_ok \<Rightarrow> (\<exists>p. cl_pr c = Some p \<and> is_complete (ce_parser E) p \<and>
          body_left E p = [] \<and> cl_out c = consumed p)
      | Failed f \<Rightarrow> client_failure f
      | _ \<Rightarrow> cl_out c = [])"

lemma client_throws_inv [simp]:
  "client_inv E V SV consumed (client_throws f c) \<longleftrightarrow> client_failure f"
  by (simp add: client_inv_def client_throws_def)

lemma client_leaves_inv [simp]:
  "client_inv E V SV consumed (begin_shutdown (Leaving u) c) \<longleftrightarrow> cl_out c = []"
  by (simp add: client_inv_def begin_shutdown_def)

lemma awaiting_not_threw:
  "(\<And>f. out \<noteq> Threw f) \<Longrightarrow> awaiting out ph c = c\<lparr>cl_phase := ph\<rparr>"
  by (cases out) (auto simp: awaiting_def)

lemma write_get_request_inv:
  assumes C: "client_contract E V SV consumed" and "cl_out c = []"
  shows "client_inv E V SV consumed (write_get_request E st c)"
proof -
  from client_contractD(6) [OF C] obtain s
    where s: "start_request E (get_request (has_zlib E) (cl_host c) (cl_target c)) = Inr s"
      "ready SV s" "pending SV s \<noteq> []" by blast
  let ?w = "\<lparr>wr_sr = s, wr_sent = []\<rparr>"
  have "async_write (ce_serializer E) ?w [] \<noteq> Threw f" for f
    using async_write_sat [OF client_contractD(2) [OF C], of ?w "[]"] s
    by (auto simp: async_write_complies_def write_complies_Nil)
  with s assms(2) show ?thesis
    by (simp add: write_get_request_def Let_def awaiting_not_threw client_inv_def)
qed

lemma body_loop_cases:
  assumes C: "client_contract E V SV consumed"
    and p: "got_header (ce_parser E) p" "idle V p \<or> is_complete (ce_parser E) p"
  obtains p1 where "consumed p1 = consumed p @ body_left E p" "body_left E p1 = []"
    "got_header (ce_parser E) p1"
    "cl_out (body_loop E p c) = cl_out c @ body_left E p" "cl_pr (body_loop E p c) = Some p1"
    "cl_phase (body_loop E p c) =
       (if is_complete (ce_parser E) p1 then Shutting_down else Reading_some)"
    "cl_wire (body_loop E p c) = cl_wire c" "cl_host (body_loop E p c) = cl_host c"
    "cl_target (body_loop E p c) = cl_target c" "input V p1 = input V p"
    "is_complete (ce_parser E) p1 = is_complete (ce_parser E) p"
    "p1 = fold (\<lambda>cb. consume_body E (bytes_size cb)) (pull_body E p) p"
    "idle V p1 \<or> is_complete (ce_parser E) p1"
proof -
  let ?p = "fold (\<lambda>cb. consume_body E (bytes_size cb)) (pull_body E p) p"
  from consume_all [OF client_contractD(3) [OF C], of p "pull_body E p" "[]"] p
  have f: "consumed ?p = consumed p @ body_left E p" "body_left E ?p = []"
    "got_header (ce_parser E) ?p" "idle V ?p \<or> is_complete (ce_parser E) ?p"
    "input V ?p = input V p" "is_complete (ce_parser E) ?p = is_complete (ce_parser E) p"
    by (auto simp: Let_def)
  have "read_body (ce_parser E) True ?p [] \<noteq> Threw g" for g
    using body_outcome [OF client_contractD(1) [OF C] f(4), of True "[]"] by auto
  with f that show ?thesis
    by (simp add: body_loop_def Let_def async_read_some_def awaiting_not_threw begin_shutdown_def)
qed

lemma body_loop_inv:
  assumes C: "client_contract E V SV consumed"
    and p: "got_header (ce_parser E) p" "idle V p \<or> is_complete (ce_parser E) p"
    and out: "cl_out c = consumed p"
  shows "client_inv E V SV consumed (body_loop E p c)"
  by (rule body_loop_cases [OF C p, of c]) (use out in \<open>auto simp: client_inv_def\<close>)

lemma body_loop_phase:
  assumes C: "client_contract E V SV consumed"
    and p: "got_header (ce_parser E) p" "idle V p \<or> is_complete (ce_parser E) p"
  shows "cl_phase (body_loop E p c) \<noteq> Failed f"
  by (rule body_loop_cases [OF C p, of c]) simp

lemma after_write_request_inv:
  assumes C: "client_contract E V SV consumed" and "cl_out c = []"
  shows "client_inv E V SV consumed (after_write_request E ec c)"
proof (cases "failed ec")
  case False
  from client_contractD(4) [OF C] obtain p0
    where p0: "(case cl_pr c of None \<Rightarrow> new_parser E | Some p \<Rightarrow> Inr p) = Inr p0"
    by (cases "cl_pr c") auto
  from client_contractD(5) [OF C] obtain p where p: "rp_start E (rp_reset E p0) = Inr p"
    "idle V p" "\<not> got_header (ce_parser E) p" "consumed p = []" by blast
  have "async_read_header (ce_parser E) p [] \<noteq> Threw f" for f
    using header_outcome [OF client_contractD(1) [OF C], of p "[]"] p(2) by auto
  with False p0 p assms(2) show ?thesis
    by (simp add: after_write_request_def awaiting_not_threw client_inv_def)
qed (simp add: after_write_request_def)

lemma after_header_inv:
  assumes C: "client_contract E V SV consumed" and "cl_out c = []" "consumed p = []"
    and "ec = Success \<Longrightarrow> got_header (ce_parser E) p \<and> (idle V p \<or> is_complete (ce_parser E) p)"
  shows "client_inv E V SV consumed (after_header E ec p c)"
  using assms body_loop_inv [OF C, of p c]
  by (simp add: after_header_def failed_def split: option.split)

lemma after_read_some_inv:
  assumes C: "client_contract E V SV consumed" and "cl_out c = consumed p"
    and "ec \<noteq> Need_more_input"
    and "ec = Success \<Longrightarrow> got_header (ce_parser E) p \<and> (idle V p \<or> is_complete (ce_parser E) p)"
  shows "client_inv E V SV consumed (after_read_some E ec p c)"
  using assms body_loop_inv [OF C, of p c] by (simp add: after_read_some_def failed_def)

lemma completed_inv:
  assumes C: "client_contract E V SV consumed" and I: "client_inv E V SV consumed c"
    and nx: "client_next E c (Completed ec) = Some c'"
  shows "client_inv E V SV consumed c'"
proof (cases "cl_phase c")
  case Resolving
  with I nx show ?thesis by (auto simp: after_resolve_def client_inv_def client_throws_def)
next
  case Connecting
  with I nx write_get_request_inv [OF C, of c Plain] show ?thesis
    by (auto simp: after_connect_def split: if_splits option.splits) (simp_all add: client_inv_def)
next
  case Handshaking
  with I nx write_get_request_inv [OF C, of c Ssl] show ?thesis
    by (auto simp: after_handshake_def split: if_splits) (simp_all add: client_inv_def)
next
  case (Leaving u)
  with I nx show ?thesis by (auto simp: after_leave_def begin_connect_def client_inv_def)
next
  case Shutting_down
  with I nx show ?thesis by (auto simp: after_shutdown_def client_inv_def client_throws_def)
qed (use nx in auto)

lemma wrote_inv:
  assumes C: "client_contract E V SV consumed" and I: "client_inv E V SV consumed c"
    and ok: "client_event_ok E c (Wrote ev)" and nx: "client_next E c (Wrote ev) = Some c'"
  shows "client_inv E V SV consumed c'"
proof -
  from nx obtain w where w: "cl_phase c = Writing_request" "cl_wire c = Some w"
    by (auto split: client_phase.splits option.splits)
  with I ok have r: "ready SV (wr_sr w)" "pending SV (wr_sr w) \<noteq> []" "cl_out c = []"
    "async_write_complies (ce_serializer E) w ev" by (auto simp: client_inv_def)
  from async_write_sat [OF client_contractD(2) [OF C] r(1,2,4)]
  have "async_write (ce_serializer E) w ev \<noteq> Threw f" for f by auto
  with nx w r(3) after_write_request_inv [OF C] show ?thesis
    by (auto split: outcome.splits list.splits)
qed

text \<open>What a completed read has done: it did not throw, and left a parser that can go on.\<close>

lemma read_cases:
  assumes C: "client_contract E V SV consumed" and I: "client_inv E V SV consumed c"
    and ok: "client_event_ok E c (Read ev)" and nx: "client_next E c (Read ev) = Some c'"
  obtains (header) p ec n p1 where "cl_phase c = Reading_response" "cl_pr c = Some p"
    "async_read_header (ce_parser E) p ev = Finished ec n p1 []" "c' = after_header E ec p1 c"
    "cl_out c = []" "consumed p1 = []" "input V p1 = input V p @ delivered ev"
    "ec = Success \<Longrightarrow> got_header (ce_parser E) p1 \<and> (idle V p1 \<or> is_complete (ce_parser E) p1)"
  | (body) p ec n p1 where "cl_phase c = Reading_some" "cl_pr c = Some p"
    "read_body (ce_parser E) True p ev = Finished ec n p1 []" "c' = after_read_some E ec p1 c"
    "cl_out c = consumed p1" "ec \<noteq> Need_more_input" "input V p1 = input V p @ delivered ev"
    "ec = Success \<Longrightarrow> got_header (ce_parser E) p1 \<and> (idle V p1 \<or> is_complete (ce_parser E) p1)"
    "ec = Success \<Longrightarrow> \<not> is_complete (ce_parser E) p1 \<Longrightarrow>
      delivered ev \<noteq> [] \<and> length (input V p1) < limit V"
proof -
  note P = client_contractD(1) [OF C]
  from client_contractD(3) [OF C] have K: "parser_keeps (ce_parser E) (\<lambda>p. consumed p = bs)"
    "parser_keeps (ce_parser E) (got_header (ce_parser E))" for bs by (simp_all add: body_contract_def)
  from nx consider p where "cl_phase c = Reading_response" "cl_pr c = Some p"
    | p where "cl_phase c = Reading_some" "cl_pr c = Some p"
    by (auto split: client_phase.splits option.splits)
  then show thesis
  proof cases
    case (1 p)
    with I ok have r: "idle V p" "consumed p = []" "cl_out c = []" "\<not> got_header (ce_parser E) p"
      and ok': "launch_complies (read_header_call (ce_parser E)) (read_recv (ce_parser E))
        read_stream_ok read_header_op_new p ev" by (auto simp: client_inv_def)
    from header_outcome [OF P disjI1 [OF r(1)] ok'] nx 1 obtain ec n p1
      where fin: "async_read_header (ce_parser E) p ev = Finished ec n p1 []"
        "c' = after_header E ec p1 c"
      by (cases "async_read_header (ce_parser E) p ev") (auto split: list.splits)
    from header_finished [OF P disjI1 [OF r(1)] ok' fin(1)]
    have "input V p1 = input V p @ delivered ev" by (metis append_Nil2)
    moreover from header_finished [OF P disjI1 [OF r(1)] ok' fin(1)] r(4)
    have "ec = Success \<Longrightarrow> got_header (ce_parser E) p1 \<and> (idle V p1 \<or> is_complete (ce_parser E) p1)"
      by metis
    ultimately show thesis using header header_keeps [OF K(1) r(2) fin(1)] 1 fin r(3) by blast
  next
    case (2 p)
    with I ok have r: "idle V p" "cl_out c = consumed p" "got_header (ce_parser E) p"
      and ok': "body_complies (ce_parser E) True p ev" by (auto simp: client_inv_def)
    from body_outcome [OF P disjI1 [OF r(1)] ok'] nx 2 r(3) obtain ec n p1
      where fin: "read_body (ce_parser E) True p ev = Finished ec n p1 []"
        "c' = after_read_some E ec p1 c"
      by (cases "read_body (ce_parser E) True p ev")
        (auto simp: async_read_some_def split: list.splits)
    from body_finished [OF P disjI1 [OF r(1)] ok' fin(1)]
    have "ec \<noteq> Need_more_input" "ec = Success \<Longrightarrow> idle V p1 \<or> is_complete (ce_parser E) p1"
      "input V p1 = input V p @ delivered ev"
      "ec = Success \<Longrightarrow> \<not> is_complete (ce_parser E) p1 \<Longrightarrow>
        delivered ev \<noteq> [] \<and> length (input V p1) < limit V"
      by (metis append_Nil2)+
    with body body_keeps [OF K(1) refl fin(1)] body_keeps [OF K(2) r(3) fin(1)] 2 fin r(2)
    show thesis by metis
  qed
qed

lemma read_inv:
  assumes C: "client_contract E V SV consumed" and I: "client_inv E V SV consumed c"
    and ok: "client_event_ok E c (Read ev)" and nx: "client_next E c (Read ev) = Some c'"
  shows "client_inv E V SV consumed c'"
  using C I ok nx
proof (cases rule: read_cases)
  case (header p ec n p1)
  with after_header_inv [OF C, of c p1 ec] show ?thesis by blast
next
  case (body p ec n p1)
  with after_read_some_inv [OF C, of c p1 ec] show ?thesis by blast
qed

lemma client_reach_inv:
  assumes C: "client_contract E V SV consumed"
  shows "client_reach E c \<Longrightarrow> client_inv E V SV consumed c"
proof (induction rule: client_reach.induct)
  case (main argv c)
  then show ?case
    by (auto simp: client_main_def request_new_def begin_connect_def client_inv_def
        split: if_splits option.splits)
next
  case (step c e c')
  then show ?case
    using completed_inv [OF C] wrote_inv [OF C] read_inv [OF C] by (cases e) blast+
qed

text \<open>Which request is sent over which stream, and which streams have been shut down.\<close>

definition shut_down :: "(any_stream \<times> req_call list) list \<Rightarrow> ('p, 's) client \<Rightarrow> bool" where
  "shut_down reqs c \<longleftrightarrow> cl_shut c = map (async_shutdown_io \<circ> fst) reqs"

definition sending :: "('p, 's) client_env \<Rightarrow> ('p, 's) client \<Rightarrow> bool" where
  "sending E c \<longleftrightarrow>
     cl_requests c \<noteq> [] \<and>
     last (cl_requests c) = (cl_stream c, get_request (has_zlib E) (cl_host c) (cl_target c)) \<and>
     (cl_stream c = Ssl \<longleftrightarrow> cl_service c = ''https'')"

definition exchanging :: "('p, 's) client_env \<Rightarrow> ('p, 's) client \<Rightarrow> bool" where
  "exchanging E c \<longleftrightarrow> sending E c \<and> shut_down (butlast (cl_requests c)) c"

definition stream_inv :: "('p, 's) client_env \<Rightarrow> ('p, 's) client \<Rightarrow> bool" where
  "stream_inv E c \<longleftrightarrow>
     (case cl_phase c of
        Resolving \<Rightarrow> shut_down (cl_requests c) c
      | Connecting \<Rightarrow> shut_down (cl_requests c) c
      | Handshaking \<Rightarrow> shut_down (cl_requests c) c \<and> cl_service c = ''https''
      | Failed f \<Rightarrow> True
      | Writing_request \<Rightarrow> exchanging E c \<and>
          (\<exists>sr. start_request E (get_request (has_zlib E) (cl_host c) (cl_target c)) = Inr sr \<and>
             cl_wire c = Some \<lparr>wr_sr = sr, wr_sent = []\<rparr>)
      | Reading_response \<Rightarrow> exchanging E c
      | Reading_some \<Rightarrow> exchanging E c
      | _ \<Rightarrow> sending E c \<and> shut_down (cl_requests c) c)"

lemma stream_throws [simp]: "stream_inv E (client_throws f c)"
  by (simp add: stream_inv_def client_throws_def)

lemma stream_cong [simp]:
  "sending E (c\<lparr>cl_phase := ph\<rparr>) = sending E c" "sending E (c\<lparr>cl_pr := q\<rparr>) = sending E c"
  "sending E (c\<lparr>cl_wire := w\<rparr>) = sending E c" "sending E (c\<lparr>cl_out := bs\<rparr>) = sending E c"
  "sending E (c\<lparr>cl_shut := ss\<rparr>) = sending E c"
  "shut_down reqs (c\<lparr>cl_phase := ph\<rparr>) = shut_down reqs c"
  "shut_down reqs (c\<lparr>cl_pr := q\<rparr>) = shut_down reqs c"
  "shut_down reqs (c\<lparr>cl_wire := w\<rparr>) = shut_down reqs c"
  "shut_down reqs (c\<lparr>cl_out := bs\<rparr>) = shut_down reqs c"
  by (simp_all add: sending_def shut_down_def)

lemma exchanging_cong [simp]:
  "exchanging E (c\<lparr>cl_phase := ph\<rparr>) = exchanging E c" "exchanging E (c\<lparr>cl_pr := q\<rparr>) = exchanging E c"
  "exchanging E (c\<lparr>cl_wire := w\<rparr>) = exchanging E c" "exchanging E (c\<lparr>cl_out := bs\<rparr>) = exchanging E c"
  by (simp_all add: exchanging_def)

lemma stream_write:
  "(st = Ssl \<longleftrightarrow> cl_service c = ''https'') \<Longrightarrow> shut_down (cl_requests c) c \<Longrightarrow>
    stream_inv E (write_get_request E st c)"
  by (auto simp: write_get_request_def Let_def awaiting_def stream_inv_def exchanging_def sending_def
      shut_down_def client_throws_def split: sum.split outcome.split)

lemma stream_awaiting:
  "exchanging E c \<Longrightarrow> ph = Reading_response \<or> ph = Reading_some \<Longrightarrow> stream_inv E (awaiting out ph c)"
  by (cases out) (auto simp: awaiting_def stream_inv_def client_throws_def)

lemma map_butlast_last: "xs \<noteq> [] \<Longrightarrow> map f xs = map f (butlast xs) @ [f (last xs)]"
  by (cases xs rule: rev_cases) simp_all

lemma stream_shutdown:
  assumes "exchanging E c" "ph = Shutting_down \<or> ph = Leaving u"
  shows "stream_inv E (begin_shutdown ph c)"
proof -
  from assms(1) have s: "sending E c" "cl_shut c = map (async_shutdown_io \<circ> fst) (butlast (cl_requests c))"
    by (simp_all add: exchanging_def shut_down_def)
  with map_butlast_last [of "cl_requests c" "async_shutdown_io \<circ> fst"]
  have "shut_down (cl_requests c) (begin_shutdown ph c)"
    by (simp add: shut_down_def begin_shutdown_def sending_def)
  with s(1) assms(2) show ?thesis by (auto simp: stream_inv_def begin_shutdown_def)
qed

lemma stream_body_loop: "exchanging E c \<Longrightarrow> stream_inv E (body_loop E p c)"
  by (auto simp: body_loop_def Let_def intro!: stream_awaiting stream_shutdown split: sum.split)

lemma stream_after_header: "exchanging E c \<Longrightarrow> stream_inv E (after_header E ec p c)"
  by (auto simp: after_header_def stream_body_loop intro!: stream_shutdown split: option.split)

lemma stream_after_write: "exchanging E c \<Longrightarrow> stream_inv E (after_write_request E ec c)"
  by (auto simp: after_write_request_def intro!: stream_awaiting split: sum.split)

lemma stream_next:
  assumes "stream_inv E c" "client_next E c e = Some c'"
  shows "stream_inv E c'"
proof (cases e)
  case (Completed ec)
  with assms show ?thesis
    by (cases "cl_phase c")
      (auto simp: after_resolve_def after_connect_def after_handshake_def after_leave_def
        begin_connect_def after_shutdown_def stream_write stream_inv_def [of E c]
        split: if_splits option.splits, auto simp: stream_inv_def shut_down_def)
next
  case (Wrote ev)
  with assms have "exchanging E c"
    by (auto simp: stream_inv_def split: client_phase.splits option.splits)
  with assms Wrote show ?thesis
    by (auto split: client_phase.splits option.splits outcome.splits list.splits
        intro!: stream_after_write)
next
  case (Read ev)
  with assms have "exchanging E c"
    by (auto simp: stream_inv_def split: client_phase.splits option.splits)
  with assms Read show ?thesis
    by (auto simp: after_read_some_def stream_body_loop
        split: client_phase.splits option.splits outcome.splits list.splits sum.splits
        intro!: stream_after_header)
qed

lemma client_reach_stream: "client_reach E c \<Longrightarrow> stream_inv E c"
proof (induction rule: client_reach.induct)
  case (main argv c)
  then show ?case
    by (auto simp: client_main_def request_new_def begin_connect_def stream_inv_def shut_down_def
        split: if_splits option.splits)
qed (use stream_next in blast)

section \<open>The URLs of a run\<close>

text \<open>The response that redirects, when the event brings one: a header that has been read with
  success, with a status that redirects. The URL it leads to is its location, if that is a
  URL. Both are read off the response alone, whatever the client does with it.\<close>

definition redirected :: "('p, 's) client_env \<Rightarrow> ('p, 's) client \<Rightarrow> client_event \<Rightarrow> 'p option" where
  "redirected E c e =
     (case (cl_phase c, cl_pr c, e) of
        (Reading_response, Some p, Read ev) \<Rightarrow>
          (case async_read_header (ce_parser E) p ev of
             Finished ec n p1 rest \<Rightarrow>
               if ec = Success \<and> is_redirect (resp_status_of E p1) then Some p1 else None
           | _ \<Rightarrow> None)
      | _ \<Rightarrow> None)"

definition leads_to :: "('p, 's) client_env \<Rightarrow> ('p, 's) client \<Rightarrow> client_event \<Rightarrow> url list" where
  "leads_to E c e =
     (case redirected E c e of
        None \<Rightarrow> []
      | Some p \<Rightarrow>
          (case resp_location E p of
             None \<Rightarrow> []
           | Some v \<Rightarrow> (case parse_uri E v of None \<Rightarrow> [] | Some u \<Rightarrow> [u])))"

text \<open>The URLs that the redirects of a run have led to, in order.\<close>

fun followed :: "('p, 's) client_env \<Rightarrow> ('p, 's) client \<Rightarrow> client_event list \<Rightarrow> url list" where
  "followed E c [] = []"
| "followed E c (e # es) = leads_to E c e @
     (case client_next E c e of None \<Rightarrow> [] | Some c' \<Rightarrow> followed E c' es)"

text \<open>What a URL asks for: the stream its service needs, and the GET for its host and target.\<close>

definition request_for :: "('p, 's) client_env \<Rightarrow> url \<Rightarrow> any_stream \<times> req_call list" where
  "request_for E u =
     (let service = if u_has_port u then u_port u else u_scheme u;
          target = if u_encoded_target u = [] then ''/'' else u_encoded_target u
      in (if service = ''https'' then Ssl else Plain,
          get_request (has_zlib E) (u_host u) target))"

lemma request_for_url:
  "request_for E u = (if url_service u = ''https'' then Ssl else Plain,
     get_request (has_zlib E) (u_host u) (url_target u))"
  by (simp add: request_for_def url_service_def url_target_def Let_def)

text \<open>The phases in which the request for the last URL has not been sent yet, those in which
  its stream is in use, and the URL a client is at.\<close>

fun still_opening :: "client_phase \<Rightarrow> bool" where
  "still_opening Resolving = True"
| "still_opening Connecting = True"
| "still_opening Handshaking = True"
| "still_opening (Leaving u) = True"
| "still_opening ph = False"

fun in_use :: "client_phase \<Rightarrow> bool" where
  "in_use Writing_request = True"
| "in_use Reading_response = True"
| "in_use Reading_some = True"
| "in_use ph = False"

definition at_url :: "url \<Rightarrow> ('p, 's) client \<Rightarrow> bool" where
  "at_url u c \<longleftrightarrow>
     (case cl_phase c of
        Leaving v \<Rightarrow> v = u
      | ph \<Rightarrow> cl_host c = u_host u \<and> cl_service c = url_service u \<and> cl_target c = url_target u)"

definition urls_inv :: "('p, 's) client_env \<Rightarrow> url list \<Rightarrow> ('p, 's) client \<Rightarrow> bool" where
  "urls_inv E us c \<longleftrightarrow> us \<noteq> [] \<and>
     (case cl_phase c of
        Failed f \<Rightarrow> cl_requests c \<in> {map (request_for E) us, map (request_for E) (butlast us)}
      | ph \<Rightarrow> at_url (last us) c \<and>
          cl_requests c = map (request_for E) (if still_opening ph then butlast us else us))"

lemma urls_throws:
  "us \<noteq> [] \<Longrightarrow> cl_requests c \<in> {map (request_for E) us, map (request_for E) (butlast us)} \<Longrightarrow>
    urls_inv E us (client_throws f c)"
  by (simp add: urls_inv_def client_throws_def)

lemma urls_write:
  assumes "us \<noteq> []" "still_opening (cl_phase c)" "\<And>v. cl_phase c \<noteq> Leaving v" "urls_inv E us c"
    and "st = Ssl \<longleftrightarrow> cl_service c = ''https''"
  shows "urls_inv E us (write_get_request E st c)"
proof -
  from assms have u: "cl_host c = u_host (last us)" "cl_service c = url_service (last us)"
    "cl_target c = url_target (last us)" "cl_requests c = map (request_for E) (butlast us)"
    by (auto simp: urls_inv_def at_url_def elim: still_opening.elims)
  have st: "st = (if cl_service c = ''https'' then Ssl else Plain)" using assms(5) by (cases st) auto
  have "map (request_for E) us = map (request_for E) (butlast us) @ [request_for E (last us)]"
    by (rule map_butlast_last [OF assms(1)])
  with u assms(1) show ?thesis
    unfolding write_get_request_def Let_def awaiting_def st
    by (auto simp: urls_inv_def at_url_def client_throws_def request_for_url
        split: sum.split outcome.split)
qed

text \<open>While a stream is in use, and no redirect is followed.\<close>

definition fetching :: "('p, 's) client_env \<Rightarrow> url list \<Rightarrow> ('p, 's) client \<Rightarrow> bool" where
  "fetching E us c \<longleftrightarrow> us \<noteq> [] \<and> cl_requests c = map (request_for E) us \<and>
     cl_host c = u_host (last us) \<and> cl_service c = url_service (last us) \<and>
     cl_target c = url_target (last us)"

lemma fetchingI: "urls_inv E us c \<Longrightarrow> in_use (cl_phase c) \<Longrightarrow> fetching E us c"
  by (auto simp: urls_inv_def at_url_def fetching_def elim!: in_use.elims)

lemma fetching_cong [simp]:
  "fetching E us (c\<lparr>cl_phase := ph\<rparr>) = fetching E us c" "fetching E us (c\<lparr>cl_pr := q\<rparr>) = fetching E us c"
  "fetching E us (c\<lparr>cl_wire := w\<rparr>) = fetching E us c" "fetching E us (c\<lparr>cl_out := bs\<rparr>) = fetching E us c"
  "fetching E us (begin_shutdown ph c) = fetching E us c" "fetching E us (client_throws f c) = fetching E us c"
  by (simp_all add: fetching_def begin_shutdown_def client_throws_def)

lemma urls_fetching: "fetching E us c \<Longrightarrow> \<not> still_opening (cl_phase c) \<Longrightarrow> urls_inv E us c"
  by (cases "cl_phase c") (simp_all add: urls_inv_def fetching_def at_url_def)

lemma urls_awaiting:
  "fetching E us c \<Longrightarrow> \<not> still_opening ph \<Longrightarrow> urls_inv E us (awaiting out ph c)"
  by (cases out) (auto simp: awaiting_def client_throws_def intro!: urls_fetching)

lemma urls_ends:
  "fetching E us c \<Longrightarrow> urls_inv E us (client_throws f c)"
  "fetching E us c \<Longrightarrow> urls_inv E us (begin_shutdown Shutting_down c)"
  by (simp_all add: fetching_def urls_inv_def at_url_def begin_shutdown_def client_throws_def)

lemma urls_leaves: "fetching E us c \<Longrightarrow> urls_inv E (us @ [u]) (begin_shutdown (Leaving u) c)"
  by (simp add: fetching_def urls_inv_def at_url_def begin_shutdown_def)

lemma urls_body_loop: "fetching E us c \<Longrightarrow> urls_inv E us (body_loop E p c)"
  by (simp add: body_loop_def Let_def urls_ends urls_awaiting split: sum.split)

lemma urls_after_write: "fetching E us c \<Longrightarrow> urls_inv E us (after_write_request E ec c)"
  by (simp add: after_write_request_def urls_ends urls_awaiting split: sum.split)

lemma urls_completed:
  assumes I: "urls_inv E us c" "stream_inv E c" and nx: "client_next E c (Completed ec) = Some c'"
  shows "urls_inv E us c'"
proof (cases "cl_phase c")
  case Resolving
  with I nx show ?thesis
    by (auto simp: after_resolve_def urls_inv_def at_url_def client_throws_def)
next
  case Connecting
  with I have "us \<noteq> []" "cl_requests c = map (request_for E) (butlast us)"
    by (simp_all add: urls_inv_def)
  with I nx Connecting urls_write [of us c E Plain] urls_throws [of us c E] show ?thesis
    by (auto simp: after_connect_def split: if_splits option.splits)
      (simp_all add: urls_inv_def at_url_def)
next
  case Handshaking
  with I have "us \<noteq> []" "cl_requests c = map (request_for E) (butlast us)"
    "cl_service c = ''https''" by (simp_all add: urls_inv_def stream_inv_def)
  with I nx Handshaking urls_write [of us c E Ssl] urls_throws [of us c E] show ?thesis
    by (auto simp: after_handshake_def split: if_splits)
next
  case (Leaving u)
  with I nx show ?thesis
    by (auto simp: after_leave_def begin_connect_def urls_inv_def at_url_def)
next
  case Shutting_down
  with I nx show ?thesis
    by (auto simp: after_shutdown_def urls_inv_def at_url_def client_throws_def)
qed (use nx in auto)

lemma redirected_other [simp]:
  "redirected E c (Completed ec) = None" "redirected E c (Wrote ev) = None"
  "cl_phase c \<noteq> Reading_response \<Longrightarrow> redirected E c e = None"
  by (simp_all add: redirected_def split: client_phase.split option.split)

lemma leads_to_other [simp]:
  "leads_to E c (Completed ec) = []" "leads_to E c (Wrote ev) = []"
  by (simp_all add: leads_to_def)

lemma urls_next:
  assumes I: "urls_inv E us c" "stream_inv E c" and nx: "client_next E c e = Some c'"
  shows "urls_inv E (us @ leads_to E c e) c'"
proof (cases e)
  case (Completed ec)
  with urls_completed [OF I] nx show ?thesis by simp
next
  case (Wrote ev)
  with nx have "in_use (cl_phase c)" by (auto split: client_phase.splits option.splits)
  with fetchingI [OF I(1)] nx Wrote show ?thesis
    by (auto simp: urls_ends urls_after_write
        split: client_phase.splits option.splits outcome.splits list.splits)
next
  case (Read ev)
  with nx have "in_use (cl_phase c)" by (auto split: client_phase.splits option.splits)
  with fetchingI [OF I(1)] nx Read show ?thesis
    by (auto simp: urls_ends urls_leaves urls_body_loop after_header_def after_read_some_def leads_to_def
        redirected_def
        split: client_phase.splits option.splits outcome.splits list.splits sum.splits if_splits)
qed

lemma urls_run:
  "client_run E c es = Some c' \<Longrightarrow> urls_inv E us c \<Longrightarrow> stream_inv E c \<Longrightarrow>
    urls_inv E (us @ followed E c es) c'"
proof (induction es arbitrary: c us)
  case (Cons e es)
  then obtain c1 where c1: "client_next E c e = Some c1" "client_run E c1 es = Some c'"
    by (auto split: if_splits option.splits)
  with Cons.IH [OF c1(2) urls_next [OF Cons.prems(2,3) c1(1)] stream_next [OF Cons.prems(3) c1(1)]]
  show ?case by simp
qed simp

lemma urls_main:
  "client_main E argv = Some c0 \<Longrightarrow> parse_uri E (argv ! 1) = Some u \<Longrightarrow> urls_inv E [u] c0"
  by (auto simp: client_main_def request_new_def begin_connect_def urls_inv_def at_url_def
      split: if_splits)

lemmas client_urls =
  urls_run [OF _ urls_main client_reach_stream [OF client_reach.main]]

section \<open>How a run ends\<close>

text \<open>The code that the awaited operation completes with.\<close>

fun reported :: "('p, 's) client_env \<Rightarrow> ('p, 's) client \<Rightarrow> client_event \<Rightarrow> error_code option" where
  "reported E c (Completed ec) = Some ec"
| "reported E c (Wrote ev) =
     (case cl_wire c of
        None \<Rightarrow> None
      | Some w \<Rightarrow>
          (case async_write (ce_serializer E) w ev of Finished ec n w1 rest \<Rightarrow> Some ec | _ \<Rightarrow> None))"
| "reported E c (Read ev) =
     (case cl_pr c of
        None \<Rightarrow> None
      | Some p \<Rightarrow>
          if cl_phase c = Reading_response then
            (case async_read_header (ce_parser E) p ev of Finished ec n p1 rest \<Rightarrow> Some ec | _ \<Rightarrow> None)
          else
            (case async_read_some (ce_parser E) p ev of
               Inr (Finished ec n p1 rest) \<Rightarrow> Some ec | _ \<Rightarrow> None))"

text \<open>The codes that end a transfer: every error, but for those of the shutdown before a redirect
  and for a TLS stream that is cut off in the shutdown at the end.\<close>

fun fatal :: "client_phase \<Rightarrow> error_code \<Rightarrow> bool" where
  "fatal (Leaving u) ec = False"
| "fatal Shutting_down ec = (ec \<notin> {Success, Stream_truncated})"
| "fatal ph ec = (ec \<noteq> Success)"

definition sni_refused :: "('p, 's) client_env \<Rightarrow> ('p, 's) client \<Rightarrow> client_event \<Rightarrow> bool" where
  "sni_refused E c e \<longleftrightarrow> cl_phase c = Connecting \<and> e = Completed Success \<and>
     cl_service c = ''https'' \<and> set_sni E (cl_host c) \<noteq> None"

definition verdict :: "('p, 's) client_env \<Rightarrow> ('p, 's) client \<Rightarrow> client_event \<Rightarrow> client_exit option" where
  "verdict E c e =
     (if (\<exists>ec. reported E c e = Some ec \<and> fatal (cl_phase c) ec) \<or> sni_refused E c e then
        Some Client_failure
      else if cl_phase c = Shutting_down then Some Client_success
      else
        (case redirected E c e of
           None \<Rightarrow> None
         | Some p \<Rightarrow>
             (case resp_location E p of
                None \<Rightarrow> Some Client_failure
              | Some v \<Rightarrow> if parse_uri E v = None then Some Client_crash else None)))"

lemma redirected_reported:
  "redirected E c e = Some p \<Longrightarrow> cl_phase c = Reading_response \<and> reported E c e = Some Success"
  by (cases e) (auto simp: redirected_def
      split: client_phase.splits option.splits outcome.splits if_splits)

lemma verdict_iff:
  "verdict E c e = Some Client_success \<longleftrightarrow> cl_phase c = Shutting_down \<and>
     (\<forall>ec. reported E c e = Some ec \<longrightarrow> ec \<in> {Success, Stream_truncated})"
  "verdict E c e = Some Client_failure \<longleftrightarrow>
     (\<exists>ec. reported E c e = Some ec \<and> fatal (cl_phase c) ec) \<or> sni_refused E c e \<or>
     (\<exists>p. redirected E c e = Some p \<and> resp_location E p = None)"
  "verdict E c e = Some Client_crash \<longleftrightarrow>
     (\<exists>p v. redirected E c e = Some p \<and> resp_location E p = Some v \<and> parse_uri E v = None)"
  by (auto simp: verdict_def sni_refused_def dest: redirected_reported split: option.splits)

lemma ends_throws [simp]: "client_ends (client_throws f c) = Some (client_caught f)"
  by (simp add: client_ends_def client_throws_def)

lemma ends_write_get_request:
  assumes "client_contract E V SV consumed"
  shows "client_ends (write_get_request E st c) = None"
proof -
  from client_contractD(6) [OF assms] obtain s
    where s: "start_request E (get_request (has_zlib E) (cl_host c) (cl_target c)) = Inr s"
      "ready SV s" "pending SV s \<noteq> []" by blast
  have "async_write (ce_serializer E) \<lparr>wr_sr = s, wr_sent = []\<rparr> [] \<noteq> Threw f" for f
    using async_write_sat [OF client_contractD(2) [OF assms], of "\<lparr>wr_sr = s, wr_sent = []\<rparr>" "[]"] s
    by (auto simp: async_write_complies_def write_complies_Nil)
  with s show ?thesis
    by (simp add: write_get_request_def Let_def awaiting_not_threw client_ends_def)
qed

lemma ends_after_write:
  assumes "client_contract E V SV consumed"
  shows "client_ends (after_write_request E ec c) = (if ec = Success then None else Some Client_failure)"
proof (cases "failed ec")
  case False
  from client_contractD(4) [OF assms] obtain p0
    where p0: "(case cl_pr c of None \<Rightarrow> new_parser E | Some p \<Rightarrow> Inr p) = Inr p0"
    by (cases "cl_pr c") auto
  from client_contractD(5) [OF assms] obtain p
    where p: "rp_start E (rp_reset E p0) = Inr p" "idle V p" by blast
  have "async_read_header (ce_parser E) p [] \<noteq> Threw f" for f
    using header_outcome [OF client_contractD(1) [OF assms], of p "[]"] p(2) by auto
  with False p0 p show ?thesis
    by (simp add: after_write_request_def awaiting_not_threw client_ends_def failed_def)
qed (simp add: after_write_request_def failed_def)

lemma ends_body_loop:
  assumes "client_contract E V SV consumed" "got_header (ce_parser E) p"
    "idle V p \<or> is_complete (ce_parser E) p"
  shows "client_ends (body_loop E p c) = None"
  by (rule body_loop_cases [OF assms, of c]) (simp add: client_ends_def)

lemma ends_next:
  assumes C: "client_contract E V SV consumed" and I: "client_inv E V SV consumed c"
    and ok: "client_event_ok E c e" and nx: "client_next E c e = Some c'"
  shows "client_ends c' = verdict E c e"
proof (cases e)
  case (Completed ec)
  with nx ends_write_get_request [OF C] show ?thesis
    by (cases "cl_phase c")
      (auto simp: verdict_def sni_refused_def after_resolve_def after_connect_def
        after_handshake_def after_leave_def after_shutdown_def begin_connect_def client_ends_def
        failed_def client_throws_def split: option.splits)
next
  case (Wrote ev)
  from nx Wrote obtain w where w: "cl_phase c = Writing_request" "cl_wire c = Some w"
    by (auto split: client_phase.splits option.splits)
  with I ok Wrote have r: "ready SV (wr_sr w)" "pending SV (wr_sr w) \<noteq> []"
    "async_write_complies (ce_serializer E) w ev" by (auto simp: client_inv_def)
  from async_write_sat [OF client_contractD(2) [OF C] r]
  have "async_write (ce_serializer E) w ev \<noteq> Threw f" for f by auto
  with nx w Wrote ends_after_write [OF C] show ?thesis
    by (auto simp: verdict_def sni_refused_def split: outcome.splits list.splits)
next
  case (Read ev)
  from C I ok [unfolded Read] nx [unfolded Read] show ?thesis
  proof (cases rule: read_cases)
    case (header p ec n p1)
    with Read ends_body_loop [OF C, of p1 c] show ?thesis
      by (auto simp: verdict_def sni_refused_def redirected_def after_header_def failed_def
          begin_shutdown_def client_ends_def [of "begin_shutdown ph d" for ph d] client_ends_def [of "d\<lparr>cl_phase := ph\<rparr>" for ph d]
          split: option.splits)
  next
    case (body p ec n p1)
    with I have "got_header (ce_parser E) p" by (auto simp: client_inv_def)
    with body Read ends_body_loop [OF C, of p1 c] show ?thesis
      by (auto simp: verdict_def sni_refused_def after_read_some_def failed_def async_read_some_def)
  qed
qed

section \<open>A small client\<close>

text \<open>For the witnesses: the small parser, with the bytes taken out of its body (what comes
  after the header, up to a byte 0). A response that starts with 3 is a redirect, to one of
  four locations that depend on the next byte.\<close>

type_synonym small_reader = "small_parser \<times> byte list"

definition small_reader_ops :: "small_reader parser_ops" where
  "small_reader_ops =
     \<lparr>got_header = (\<lambda>(p, t). 10 \<in> set (sp_input p)),
      is_complete = (\<lambda>(p, t). small_complete (sp_input p)),
      pr_prepare = (\<lambda>(p, t). Inr (16, (p, t))),
      pr_fill = (\<lambda>bs (p, t). (p\<lparr>sp_buffer := bs\<rparr>, t)),
      pr_commit = (\<lambda>n (p, t). Inr (p\<lparr>sp_input := sp_input p @ take (unat n) (sp_buffer p)\<rparr>, t)),
      pr_commit_eof = (\<lambda>(p, t). Inr (p\<lparr>sp_eof := True\<rparr>, t)),
      pr_parse = (\<lambda>(p, t). Inr (small_parse p, (p, t)))\<rparr>"

definition small_reader_view :: "small_reader parser_view" where
  "small_reader_view =
     \<lparr>idle = (\<lambda>_. True), armed = (\<lambda>_ cap. cap = 16), loaded = (\<lambda>_. True),
      eof_seen = (\<lambda>(p, t). sp_eof p), input = (\<lambda>(p, t). sp_input p), limit = 8\<rparr>"

lemma small_reader_contract: "parser_contract small_reader_ops small_reader_view"
  unfolding parser_contract_def prepare_contract_def commit_contract_def parse_contract_def
  by (auto simp: small_reader_ops_def small_reader_view_def small_parse_def bytes_size_def
      unat_of_nat take_bit_nat_eq_self small_complete_header)

definition small_body :: "small_reader \<Rightarrow> byte list" where
  "small_body = (\<lambda>(p, t). drop (length t)
     (take 8 (takeWhile (\<lambda>b. b \<noteq> 0) (drop 1 (dropWhile (\<lambda>b. b \<noteq> 10) (sp_input p))))))"

definition small_url :: "string \<Rightarrow> string \<Rightarrow> url" where
  "small_url scheme port =
     \<lparr>u_host = ''h'', u_has_port = (port \<noteq> []), u_port = port, u_scheme = scheme,
      u_encoded_target = []\<rparr>"

definition small_client_env :: "(small_reader, byte list) client_env" where
  "small_client_env =
     \<lparr>ce_parser = small_reader_ops, ce_serializer = small_sr,
      new_parser = Inr (small_start, []), rp_reset = (\<lambda>_. (small_start, [])), rp_start = Inr,
      pull_body = (\<lambda>p. [small_body p]),
      consume_body = (\<lambda>n (p, t). (p, t @ take (unat n) (small_body (p, t)))),
      resp_status_of = (\<lambda>(p, t). if take 1 (sp_input p) = [3] then Found else Other_status 200),
      resp_location = (\<lambda>(p, t).
        if take 1 (drop 1 (sp_input p)) = [1] then Some ''https://h:443''
        else if take 1 (drop 1 (sp_input p)) = [2] then Some '':''
        else if take 1 (drop 1 (sp_input p)) = [4] then Some ''http://g/index.html'' else None),
      start_request = (\<lambda>req. Inr [1, 2, 3]),
      parse_uri = (\<lambda>s.
        if s = ''https://h:443'' then Some (small_url ''https'' ''443'')
        else if s = ''https://h'' then Some (small_url ''https'' [])
        else if s = ''http://h'' then Some (small_url ''http'' [])
        else if s = ''http://g/index.html'' then
          Some ((small_url ''http'' [])\<lparr>u_host := ''g'', u_encoded_target := ''/index.html''\<rparr>)
        else None),
      set_sni = (\<lambda>_. None), has_zlib = False\<rparr>"

lemma small_body_contract: "body_contract small_client_env small_reader_view snd"
proof -
  let ?E = small_client_env
  have keeps: "parser_keeps (ce_parser ?E) (\<lambda>p. snd p = bs)" for bs
    by (auto simp: parser_keeps_def small_client_env_def small_reader_ops_def)
  have header: "parser_keeps (ce_parser ?E) (got_header (ce_parser ?E))"
    by (auto simp: parser_keeps_def small_client_env_def small_reader_ops_def)
  have left: "body_left ?E p = small_body p" for p by (simp add: small_client_env_def)
  have "length (small_body p) \<le> 8" for p
    by (auto simp: small_body_def min_def split: prod.splits)
  then have bound: "length (small_body p) < 2 ^ 64" for p
    by (rule le_less_trans) simp
  have consume: "let p1 = consume_body ?E n p in
      snd p1 = snd p @ take (unat n) (small_body p) \<and>
      small_body p1 = drop (unat n) (small_body p) \<and>
      is_complete (ce_parser ?E) p1 = is_complete (ce_parser ?E) p \<and>
      got_header (ce_parser ?E) p1 = got_header (ce_parser ?E) p \<and>
      idle small_reader_view p1 = idle small_reader_view p \<and>
      input small_reader_view p1 = input small_reader_view p"
    if "unat n \<le> length (small_body p)" for p n
    using that
    by (auto simp: small_client_env_def small_reader_ops_def small_reader_view_def small_body_def
        add.commute min_def split: prod.splits)
  show ?thesis
    unfolding body_contract_def left using keeps header bound consume by blast
qed

lemma small_client_contract:
  "client_contract small_client_env small_reader_view small_sr_view snd"
  unfolding client_contract_def using small_body_contract small_reader_contract small_sr_contract
  by (simp add: small_client_env_def small_reader_view_def small_reader_ops_def small_sr_view_def
      small_start_def)

text \<open>The states of the small client that is started with a URL, after some events.\<close>

definition small_run :: "string \<Rightarrow> client_event list \<Rightarrow> (small_reader, byte list) client" where
  "small_run uri es =
     (case client_main small_client_env [''flex_await'', uri] of
        Some c \<Rightarrow> (case client_run small_client_env c es of
          Some c' \<Rightarrow> c' | None \<Rightarrow> client_throws Assertion_failed c)
      | None \<Rightarrow> request_new [] [] [])"

lemma small_run_reach:
  assumes "client_main small_client_env [''flex_await'', uri] = Some c"
    and "client_run small_client_env c es = Some c'"
  shows "client_reach small_client_env (small_run uri es)"
  using client_run_reach [OF assms(2) client_reach.main [OF assms(1)]] assms
  by (simp add: small_run_def)

text \<open>The events up to the response, and the rest of a transfer.\<close>

definition small_sent :: "client_event list" where
  "small_sent = [Completed Success, Completed Success]"

definition small_printed :: "client_event list" where
  "small_printed = small_sent @ [Wrote [Done (Success, 3)], Read [Done (Success, [2, 10])],
     Read [Done (Success, [65, 66, 0])]]"

definition small_transfer :: "client_event list" where
  "small_transfer = small_printed @ [Completed Success]"

lemma small_main:
  "client_main small_client_env [''flex_await'', ''http://h''] = Some (request_new ''h'' ''http'' ''/'')"
  "client_main small_client_env [''flex_await'', ''https://h:443''] = Some (request_new ''h'' ''443'' ''/'')"
  by code_simp+

lemma small_transfer_reach: "client_reach small_client_env (small_run ''http://h'' small_transfer)"
  by (rule small_run_reach [OF small_main(1)]) code_simp

lemma small_sent_reach: "client_reach small_client_env (small_run ''http://h'' small_sent)"
  by (rule small_run_reach [OF small_main(1)]) code_simp

definition small_services :: client_services where
  "small_services = \<lparr>new_ssl_context = Inr (),
     default_config = \<lparr>body_limit = 64, min_buffer = 8, apply_gzip_decoder = False,
       apply_deflate_decoder = False\<rparr>,
     install_zlib = Inr (), install_parser = (\<lambda>cfg. Inr ())\<rparr>"

section \<open>Properties of the client\<close>

text \<open>The states that the process gets to are reachable.\<close>

lemma client_process_Inr:
  "client_process E S argv = Inr c0 \<Longrightarrow> client_main E argv = Some c0"
  by (auto simp: client_process_def split: option.splits sum.splits)

lemma client_process_reach:
  "client_process E S argv = Inr c0 \<Longrightarrow> client_run E c0 es = Some c \<Longrightarrow> client_reach E c"
  using client_run_reach client_reach.main client_process_Inr by metis

text \<open>C10: A client that ends well has printed exactly the body of the last response: every
  byte that was taken out of the parser, in order, once the message was complete and
  nothing of the body was left. Nothing of a response that redirects is printed.\<close>

theorem client_prints_body:
  assumes "client_contract E V SV consumed" "client_reach E c" "cl_phase c = Done_ok"
  shows "\<exists>p. cl_pr c = Some p \<and> is_complete (ce_parser E) p \<and> body_left E p = [] \<and>
    cl_out c = consumed p"
  using client_reach_inv [OF assms(1,2)] assms(3) by (simp add: client_inv_def)

theorem client_prints_body_witness:
  "\<exists>p. cl_pr (small_run ''http://h'' small_transfer) = Some p \<and>
    is_complete (ce_parser small_client_env) p \<and> body_left small_client_env p = [] \<and>
    cl_out (small_run ''http://h'' small_transfer) = snd p"
  by (rule client_prints_body [OF small_client_contract small_transfer_reach]) code_simp

text \<open>C22: How the process ends says what became of the transfer. It ends before anything is
  sent exactly when the arguments are not one URL or the setup throws. From then on each
  completion decides: with \<open>EXIT_SUCCESS\<close> exactly when the shutdown at the end completes
  without an error or with a truncated stream, and then the message was complete and all of
  its body has been printed; with \<open>EXIT_FAILURE\<close> exactly when the operation that was awaited
  reports any other error (that of the shutdown before a redirect apart), when the name of
  the host is refused for TLS, or when a redirect has no location; and with a crash exactly
  when a redirect has a location that is not a URL. After any other completion the process
  goes on.\<close>

theorem client_exit_codes:
  assumes "client_contract E V SV consumed"
    and "client_process E S argv = Inr c0" "client_run E c0 es = Some c"
    and "client_event_ok E c e" "client_next E c e = Some c'"
  shows "(client_ends c' = Some Client_success \<longleftrightarrow>
       cl_phase c = Shutting_down \<and> e \<in> {Completed Success, Completed Stream_truncated}) \<and>
    (client_ends c' = Some Client_success \<longrightarrow>
       (\<exists>p. cl_pr c' = Some p \<and> is_complete (ce_parser E) p \<and> body_left E p = [] \<and>
          cl_out c' = consumed p)) \<and>
    (client_ends c' = Some Client_failure \<longleftrightarrow>
       (\<exists>ec. reported E c e = Some ec \<and> fatal (cl_phase c) ec) \<or> sni_refused E c e \<or>
       (\<exists>p. redirected E c e = Some p \<and> resp_location E p = None)) \<and>
    (client_ends c' = Some Client_crash \<longleftrightarrow>
       (\<exists>p v. redirected E c e = Some p \<and> resp_location E p = Some v \<and> parse_uri E v = None)) \<and>
    (\<forall>argv x. client_process E S argv = Inl x \<longleftrightarrow>
       (if length argv \<noteq> 2 \<or> parse_uri E (argv ! 1) = None then x = Client_failure
        else \<exists>f. client_setup (has_zlib E) S = Inl f \<and> x = client_caught f))"
proof -
  have I: "client_inv E V SV consumed c"
    by (rule client_reach_inv [OF assms(1) client_process_reach [OF assms(2,3)]])
  note ends = ends_next [OF assms(1) I assms(4,5)]
  from assms(5) have "cl_phase c = Shutting_down \<Longrightarrow> \<exists>ec. e = Completed ec" by (cases e) auto
  then have "client_ends c' = Some Client_success \<longleftrightarrow>
      cl_phase c = Shutting_down \<and> e \<in> {Completed Success, Completed Stream_truncated}"
    unfolding ends verdict_iff by auto
  moreover from this assms(5) I have "client_ends c' = Some Client_success \<Longrightarrow>
      \<exists>p. cl_pr c' = Some p \<and> is_complete (ce_parser E) p \<and> body_left E p = [] \<and> cl_out c' = consumed p"
    by (auto simp: after_shutdown_def client_inv_def failed_def)
  moreover have "client_process E S argv = Inl x \<longleftrightarrow>
       (if length argv \<noteq> 2 \<or> parse_uri E (argv ! 1) = None then x = Client_failure
        else \<exists>f. client_setup (has_zlib E) S = Inl f \<and> x = client_caught f)" for argv x
    by (auto simp: client_process_def client_main_def split: option.split sum.split)
  ultimately show ?thesis unfolding ends verdict_iff by blast
qed

theorem client_exit_codes_witness:
  "client_ends (small_run ''http://h'' (small_printed @ [Completed Stream_truncated])) =
     Some Client_success \<and>
   client_ends (small_run ''http://h'' (small_printed @ [Completed Eof])) = Some Client_failure"
proof
  let ?c = "small_run ''http://h'' small_printed"
  have p: "client_process small_client_env small_services [''flex_await'', ''http://h''] =
     Inr (request_new ''h'' ''http'' ''/'')" by code_simp
  have r: "client_run small_client_env (request_new ''h'' ''http'' ''/'') small_printed = Some ?c"
    "cl_phase ?c = Shutting_down" by code_simp+
  have n: "client_next small_client_env ?c (Completed Stream_truncated) =
      Some (small_run ''http://h'' (small_printed @ [Completed Stream_truncated]))"
    "client_next small_client_env ?c (Completed Eof) =
      Some (small_run ''http://h'' (small_printed @ [Completed Eof]))" by code_simp+
  note exits = client_exit_codes [OF small_client_contract p r(1)]
  from exits [OF _ n(1)] r(2)
  show "client_ends (small_run ''http://h'' (small_printed @ [Completed Stream_truncated])) =
     Some Client_success" by simp
  from exits [OF _ n(2)] r(2)
  show "client_ends (small_run ''http://h'' (small_printed @ [Completed Eof])) =
     Some Client_failure" by simp
qed


definition small_moved :: "client_event list" where
  "small_moved = small_sent @ [Wrote [Done (Success, 3)], Read [Done (Success, [3, 4, 10])],
     Completed Eof, Completed Success, Completed Success]"


text \<open>When the write of the request succeeds, the stream has accepted exactly the
  serialized GET.\<close>

lemma client_request_on_wire:
  assumes "client_contract E V SV consumed" "client_reach E c" "cl_phase c = Writing_request"
    and "cl_wire c = Some w" "async_write_complies (ce_serializer E) w ev"
    and "async_write (ce_serializer E) w ev = Finished Success n w1 rest"
  shows "\<exists>sr. start_request E (get_request (has_zlib E) (cl_host c) (cl_target c)) = Inr sr \<and>
    wr_sent w1 = pending SV sr"
proof -
  from client_reach_stream [OF assms(2)] assms(3,4) obtain sr where
    "start_request E (get_request (has_zlib E) (cl_host c) (cl_target c)) = Inr sr"
    "w = \<lparr>wr_sr = sr, wr_sent = []\<rparr>" by (auto simp: stream_inv_def)
  moreover from client_reach_inv [OF assms(1,2)] assms(3,4)
  have "ready SV (wr_sr w)" "pending SV (wr_sr w) \<noteq> []" by (auto simp: client_inv_def)
  ultimately show ?thesis
    using async_write_sat [OF client_contractD(2) [OF assms(1)] _ _ assms(5)] assms(6)
    by (auto simp: moved_def)
qed

text \<open>C32: A URL whose port is given is requested over a plain connection, also when its scheme
  is \<open>https\<close>: \<open>connect\<close> is told the port as the service, and looks for the name \<open>https\<close>. It
  holds for the URL on the command line, in every run up to the first response.\<close>

theorem https_with_port_is_plain:
  assumes "client_main E argv = Some c0" "parse_uri E (argv ! 1) = Some u"
    and "u_scheme u = ''https''" "u_has_port u" "u_port u \<noteq> ''https''"
    and "client_run E c0 [Completed ec1, Completed ec2] = Some c"
  shows "cl_phase c \<noteq> Handshaking \<and>
    (\<forall>st req. (st, req) \<in> set (cl_requests c) \<longrightarrow> st = Plain)"
proof -
  from assms(1,2,4) have c0: "cl_phase c0 = Resolving" "cl_service c0 = u_port u" "cl_requests c0 = []"
    by (auto simp: client_main_def url_service_def request_new_def begin_connect_def
        split: if_splits)
  from assms(6) c0(1) obtain c1 where c1: "c1 = after_resolve ec1 c0"
    "client_next E c1 (Completed ec2) = Some c"
    by (auto split: if_splits option.splits)
  from c1 c0 have f: "cl_service c1 = u_port u" "cl_requests c1 = []" "cl_phase c1 = Connecting"
    by (auto simp: after_resolve_def client_throws_def split: if_splits)
  with c1(2) have "c = after_connect E ec2 c1" by simp
  with f assms(5) show ?thesis
    by (auto simp: after_connect_def client_throws_def write_get_request_def Let_def awaiting_def
        split: sum.splits outcome.splits)
qed

theorem https_with_port_is_plain_witness:
  "cl_phase (small_run ''https://h:443'' small_sent) \<noteq> Handshaking \<and>
   cl_requests (small_run ''https://h:443'' small_sent) = [(Plain, get_request False ''h'' ''/'')]"
proof -
  have "cl_phase (small_run ''https://h:443'' small_sent) \<noteq> Handshaking \<and>
    (\<forall>st req. (st, req) \<in> set (cl_requests (small_run ''https://h:443'' small_sent)) \<longrightarrow> st = Plain)"
  proof (rule https_with_port_is_plain [OF small_main(2)])
    show "parse_uri small_client_env ([''flex_await'', ''https://h:443''] ! 1) =
        Some (small_url ''https'' ''443'')" by code_simp
    show "client_run small_client_env (request_new ''h'' ''443'' ''/'')
        [Completed Success, Completed Success] = Some (small_run ''https://h:443'' small_sent)"
      by code_simp
  qed (simp_all add: small_url_def)
  moreover have "cl_requests (small_run ''https://h:443'' small_sent) =
      [(Plain, get_request False ''h'' ''/'')]" by code_simp
  ultimately show ?thesis by blast
qed

text \<open>C33: A server can crash the client: the \<open>Location\<close> of a redirect is dereferenced without a
  check. It happens exactly when a redirect has been read whose location does not parse
  as a URL.\<close>

theorem redirect_null_dereference:
  assumes "client_contract E V SV consumed" "client_reach E c"
    and "client_event_ok E c (Read ev)" "client_next E c (Read ev) = Some c'"
  shows "cl_phase c' = Failed Null_dereference \<longleftrightarrow>
    (\<exists>p n p1 v. cl_phase c = Reading_response \<and> cl_pr c = Some p \<and>
       async_read_header (ce_parser E) p ev = Finished Success n p1 [] \<and>
       is_redirect (resp_status_of E p1) \<and> resp_location E p1 = Some v \<and> parse_uri E v = None)"
    (is "_ \<longleftrightarrow> ?crash")
proof
  assume ?crash
  with assms(4) show "cl_phase c' = Failed Null_dereference"
    by (auto simp: after_header_def client_throws_def)
next
  assume null: "cl_phase c' = Failed Null_dereference"
  from assms(1) client_reach_inv [OF assms(1,2)] assms(3,4) show ?crash
  proof (cases rule: read_cases)
    case (header p ec n p1)
    with null body_loop_phase [OF assms(1), of p1 c] show ?thesis
      by (auto simp: after_header_def begin_shutdown_def client_throws_def failed_def split: if_splits option.splits)
  next
    case (body p ec n p1)
    with null body_loop_phase [OF assms(1), of p1 c] show ?thesis
      by (auto simp: after_read_some_def client_throws_def failed_def split: if_splits)
  qed
qed

theorem redirect_null_dereference_witness:
  "cl_phase (small_run ''http://h''
      (small_sent @ [Wrote [Done (Success, 3)], Read [Done (Success, [3, 2, 10])]])) =
      Failed Null_dereference \<longleftrightarrow>
    (\<exists>p n p1 v. cl_phase (small_run ''http://h'' (small_sent @ [Wrote [Done (Success, 3)]])) =
         Reading_response \<and>
       cl_pr (small_run ''http://h'' (small_sent @ [Wrote [Done (Success, 3)]])) = Some p \<and>
       async_read_header (ce_parser small_client_env) p [Done (Success, [3, 2, 10])] =
         Finished Success n p1 [] \<and>
       is_redirect (resp_status_of small_client_env p1) \<and>
       resp_location small_client_env p1 = Some v \<and> parse_uri small_client_env v = None)"
proof (rule redirect_null_dereference [OF small_client_contract])
  let ?c = "small_run ''http://h'' (small_sent @ [Wrote [Done (Success, 3)]])"
  show "client_reach small_client_env ?c"
    by (rule small_run_reach [OF small_main(1)]) code_simp
  show "client_event_ok small_client_env ?c (Read [Done (Success, [3, 2, 10])])"
    "client_next small_client_env ?c (Read [Done (Success, [3, 2, 10])]) =
      Some (small_run ''http://h''
        (small_sent @ [Wrote [Done (Success, 3)], Read [Done (Success, [3, 2, 10])]]))"
    by code_simp+
qed

end
