(* ===== verification/Client_Transfer.thy ===== *)
theory Client_Transfer
  imports Client_Laws
begin

text \<open>
  A transfer of the client as a whole: the loop that prints the body ends, and at any time
  the parser holds exactly the bytes that the stream has delivered since the request was
  written.
\<close>

section \<open>The loop over the body ends\<close>

text \<open>A completed read of the stream is all that \<open>async_read_some\<close> waits for.\<close>

lemma read_progress:
  assumes C: "client_contract E V SV consumed" and I: "client_inv E V SV consumed c"
    and ph: "cl_phase c = Reading_some" and ok: "client_event_ok E c (Read [Done d])"
  obtains c' where "client_next E c (Read [Done d]) = Some c'"
proof -
  from I ph obtain p where p: "cl_pr c = Some p" "got_header (ce_parser E) p" "idle V p"
    "\<not> is_complete (ce_parser E) p" by (auto simp: client_inv_def)
  note P = client_contractD(1) [OF C]
  from ok p(1) ph have ok': "body_complies (ce_parser E) True p [Done d]" by simp
  have "\<exists>ec n p1. read_body (ce_parser E) True p [Done d] = Finished ec n p1 []"
  proof (cases "read_body (ce_parser E) True p [Done d]")
    case (Finished ec n p1 rest)
    obtain used where "[Done d] = used @ rest" "length used = 1"
      by (rule body_finished [OF P disjI1 [OF p(3)] ok' Finished]) blast
    then have "rest = []" by (auto simp: length_Suc_conv)
    with Finished show ?thesis by blast
  next
    case (Waiting eff q s rest)
    from body_outcome [OF P disjI1 [OF p(3)] ok'] Waiting obtain used
      where u: "[Done d] = used @ rest" and B: "body_inv (ce_parser E) V True p used eff q s" by auto
    from launch_Waiting [OF Waiting [unfolded read_body_def]] B p(4) obtain cap
      where eff: "eff = Starts cap" by (cases eff) (auto simp: body_inv_def)
    from Waiting eff have "launch (read_body_call (ce_parser E)) (read_recv (ce_parser E))
        (read_body_op_new True) p (map Done [d]) = Waiting (Starts cap) q s rest"
      by (simp add: read_body_def)
    from launch_uses_all [OF this, of used] u have "used \<noteq> []" by auto
    with B eff show ?thesis by (simp add: body_inv_def)
  next
    case (Threw f)
    with body_read_no_throw [OF P disjI1 [OF p(3)] ok'] show ?thesis by blast
  qed
  with p ph that show thesis by (auto simp: async_read_some_def)
qed

text \<open>What a read leaves: the loop has ended, or the parser has got more, and can still take
  some.\<close>

definition growing :: "'p parser_view \<Rightarrow> ('p, 's) client \<Rightarrow> ('p, 's) client \<Rightarrow> bool" where
  "growing V c c' \<longleftrightarrow>
     (\<exists>p p'. cl_pr c = Some p \<and> cl_pr c' = Some p' \<and>
        length (input V p) < length (input V p') \<and> length (input V p') < limit V)"

definition body_over :: "('p, 's) client \<Rightarrow> bool" where
  "body_over c \<longleftrightarrow> cl_phase c = Shutting_down \<or> (\<exists>ec. cl_phase c = Failed (System_error ec))"

lemma read_left:
  assumes C: "client_contract E V SV consumed" and I: "client_inv E V SV consumed c"
    and ph: "cl_phase c = Reading_some" and ok: "client_event_ok E c (Read ev)"
    and nx: "client_next E c (Read ev) = Some c'"
  shows "body_over c' \<or> cl_phase c' = Reading_some \<and> growing V c c'"
  using C I ok nx
proof (cases rule: read_cases)
  case (body p ec n p1)
  show ?thesis
  proof (cases "failed ec")
    case True
    with body show ?thesis by (simp add: after_read_some_def client_throws_def body_over_def)
  next
    case False
    with body have s: "got_header (ce_parser E) p1" "idle V p1 \<or> is_complete (ce_parser E) p1"
      "c' = body_loop E p1 c" by (auto simp: after_read_some_def)
    show ?thesis
    proof (rule body_loop_cases [OF C s(1,2), of c])
      fix p2
      assume "cl_pr (body_loop E p1 c) = Some p2" "input V p2 = input V p1"
        "cl_phase (body_loop E p1 c) =
          (if is_complete (ce_parser E) p2 then Shutting_down else Reading_some)"
        "is_complete (ce_parser E) p2 = is_complete (ce_parser E) p1"
      with body s(3) False show ?thesis by (auto simp: body_over_def growing_def)
    qed
  qed
qed (use ph in simp)

text \<open>Any stream of completions \<open>d\<close>.\<close>

definition reads :: "(nat \<Rightarrow> read_done) \<Rightarrow> nat \<Rightarrow> client_event list" where
  "reads d k = map (\<lambda>i. Read [Done (d i)]) [0..<k]"

lemma reads_simps [simp]: "reads d 0 = []" "reads d (Suc k) = reads d k @ [Read [Done (d k)]]"
  by (simp_all add: reads_def)

lemma reads_run:
  assumes C: "client_contract E V SV consumed" and reach: "client_reach E c"
    and ph: "cl_phase c = Reading_some"
    and ok: "\<And>k ck. client_run E c (reads d k) = Some ck \<Longrightarrow> cl_phase ck = Reading_some \<Longrightarrow>
      client_event_ok E ck (Read [Done (d k)])"
  shows "(\<exists>j\<le>k. \<exists>c'. client_run E c (reads d j) = Some c' \<and> body_over c') \<or>
    (\<exists>c' p. client_run E c (reads d k) = Some c' \<and> cl_phase c' = Reading_some \<and>
       cl_pr c' = Some p \<and> k \<le> length (input V p) \<and> (k \<noteq> 0 \<longrightarrow> length (input V p) < limit V))"
proof (induction k)
  case 0
  from client_reach_inv [OF C reach] ph show ?case by (auto simp: client_inv_def)
next
  case (Suc k)
  then consider (over) j c' where "j \<le> k" "client_run E c (reads d j) = Some c'" "body_over c'"
    | (more) c' p where "client_run E c (reads d k) = Some c'" "cl_phase c' = Reading_some"
      "cl_pr c' = Some p" "k \<le> length (input V p)" by blast
  then show ?case
  proof cases
    case over
    then show ?thesis using le_SucI by blast
  next
    case more
    from client_reach_inv [OF C client_run_reach [OF more(1) reach]]
    have I: "client_inv E V SV consumed c'" .
    note ok' = ok [OF more(1,2)]
    from read_progress [OF C I more(2) ok'] obtain c2
      where c2: "client_next E c' (Read [Done (d k)]) = Some c2" .
    with more(1) ok' have run: "client_run E c (reads d (Suc k)) = Some c2"
      by (simp add: client_run_append)
    from read_left [OF C I more(2) ok' c2] show ?thesis
    proof
      assume "body_over c2"
      with run show ?thesis by blast
    next
      assume "cl_phase c2 = Reading_some \<and> growing V c' c2"
      with run more(3,4) show ?thesis by (auto simp: growing_def)
    qed
  qed
qed

text \<open>C25: The client prints a body and stops: from the state after the header, whatever the
  stream delivers, the loop over \<open>async_read_some\<close> is left after at most as many reads as
  the parser takes bytes (its configured limit, and at least one), with the whole body
  printed and the stream being shut down, or with the error of a read.\<close>

theorem client_body_terminates:
  assumes "client_contract E V SV consumed" "client_reach E c" "cl_phase c = Reading_some"
    and "\<And>k ck. client_run E c (reads d k) = Some ck \<Longrightarrow> cl_phase ck = Reading_some \<Longrightarrow>
      client_event_ok E ck (Read [Done (d k)])"
  shows "\<exists>k \<le> max 1 (limit V). \<exists>c'. client_run E c (reads d k) = Some c' \<and>
    (cl_phase c' = Shutting_down \<or> (\<exists>ec. cl_phase c' = Failed (System_error ec)))"
proof -
  let ?m = "max 1 (limit V)"
  have "(\<exists>j\<le>?m. \<exists>c'. client_run E c (reads d j) = Some c' \<and> body_over c') \<or>
    (\<exists>c' p. client_run E c (reads d ?m) = Some c' \<and> cl_phase c' = Reading_some \<and>
       cl_pr c' = Some p \<and> ?m \<le> length (input V p) \<and> (?m \<noteq> 0 \<longrightarrow> length (input V p) < limit V))"
    by (rule reads_run [OF assms(1-3)]) (rule assms(4))
  moreover have "\<not> (?m \<le> m \<and> (?m \<noteq> 0 \<longrightarrow> m < limit V))" for m by linarith
  ultimately show ?thesis unfolding body_over_def by blast
qed

definition small_reading :: "(small_reader, byte list) client" where
  "small_reading = small_run ''http://h''
     (small_sent @ [Wrote [Done (Success, 3)], Read [Done (Success, [2, 10])]])"

lemma small_reading:
  "client_reach small_client_env small_reading" "cl_phase small_reading = Reading_some"
proof -
  show "client_reach small_client_env small_reading"
    unfolding small_reading_def by (rule small_run_reach [OF small_main(1)]) code_simp
  show "cl_phase small_reading = Reading_some" by code_simp
qed

theorem client_body_terminates_witness:
  "\<exists>k \<le> max 1 (limit small_reader_view). \<exists>c'.
     client_run small_client_env small_reading (reads (\<lambda>_. (Success, [65])) k) = Some c' \<and>
     (cl_phase c' = Shutting_down \<or> (\<exists>ec. cl_phase c' = Failed (System_error ec)))"
proof (rule client_body_terminates [OF small_client_contract small_reading])
  fix k and ck :: "(small_reader, byte list) client"
  assume "cl_phase ck = Reading_some"
  then show "client_event_ok small_client_env ck (Read [Done (Success, [65])])"
    by (auto simp: small_client_env_def small_reader_ops_def read_body_call_def read_body_read_def
        read_body_op_new_def read_stream_ok_def intro!: launch_complies_one
        split: option.split if_splits)
qed

section \<open>What the parser and the stream hold\<close>

text \<open>The bytes delivered since the last request was written.\<close>

fun receive :: "byte list \<Rightarrow> client_event \<Rightarrow> byte list" where
  "receive bs (Completed ec) = bs"
| "receive bs (Wrote ev) = []"
| "receive bs (Read ev) = bs @ delivered ev"

definition response_bytes :: "client_event list \<Rightarrow> byte list" where
  "response_bytes es = foldl receive [] es"

lemma response_bytes_snoc [simp]: "response_bytes (es @ [e]) = receive (response_bytes es) e"
  by (simp add: response_bytes_def)

text \<open>The states of a parser that has been started and then used as the library and the client
  use it.\<close>

inductive since_start :: "('p, 's) client_env \<Rightarrow> 'p \<Rightarrow> bool" for E :: "('p, 's) client_env" where
  start: "rp_start E (rp_reset E q) = Inr p \<Longrightarrow> since_start E p"
| fill: "since_start E p \<Longrightarrow> since_start E (pr_fill (ce_parser E) bs p)"
| prepare: "since_start E p \<Longrightarrow> pr_prepare (ce_parser E) p = Inr (cap, p1) \<Longrightarrow> since_start E p1"
| commit: "since_start E p \<Longrightarrow> pr_commit (ce_parser E) n p = Inr p1 \<Longrightarrow> since_start E p1"
| commit_eof: "since_start E p \<Longrightarrow> pr_commit_eof (ce_parser E) p = Inr p1 \<Longrightarrow> since_start E p1"
| parse: "since_start E p \<Longrightarrow> pr_parse (ce_parser E) p = Inr (ec, p1) \<Longrightarrow> since_start E p1"
| consume: "since_start E p \<Longrightarrow> unat n \<le> length (body_left E p) \<Longrightarrow>
    since_start E (consume_body E n p)"

lemma since_start_keeps: "parser_keeps (ce_parser E) (since_start E)"
  unfolding parser_keeps_def by (blast intro: since_start.intros)

lemma since_start_consume:
  assumes B: "body_contract E V consumed" and "body_left E p = concat bufs @ rest" "since_start E p"
  shows "since_start E (fold (\<lambda>cb. consume_body E (bytes_size cb)) bufs p)"
  using assms(2,3)
proof (induction bufs arbitrary: p)
  case (Cons cb bufs)
  let ?p = "consume_body E (bytes_size cb) p"
  from consume_all [OF B, of p "[cb]" "concat bufs @ rest"] Cons.prems(1)
  have "body_left E ?p = concat bufs @ rest" by (simp add: Let_def)
  moreover have "unat (bytes_size cb) \<le> length (body_left E p)"
    using Cons.prems(1) B
    by (simp add: body_contract_def bytes_size_def unat_of_nat take_bit_eq_mod le_trans [OF mod_less_eq_dividend])
  with Cons.prems(2) have "since_start E ?p" by (rule since_start.consume)
  ultimately show ?case using Cons.IH by simp
qed simp

text \<open>Once a request has been written: the stream has accepted exactly the serialized GET,
  and the parser has exactly the bytes delivered since.\<close>

definition transfer ::
  "('p, 's) client_env \<Rightarrow> 'p parser_view \<Rightarrow> 's serializer_view \<Rightarrow> byte list \<Rightarrow> ('p, 's) client \<Rightarrow> bool" where
  "transfer E V SV bs c \<longleftrightarrow>
     (\<exists>p. cl_pr c = Some p \<and> input V p = bs \<and> since_start E p) \<and>
     (\<exists>sr w. cl_wire c = Some w \<and> wr_sent w = pending SV sr \<and>
        start_request E (get_request (has_zlib E) (cl_host c) (cl_target c)) = Inr sr)"

definition transfer_inv ::
  "('p, 's) client_env \<Rightarrow> 'p parser_view \<Rightarrow> 's serializer_view \<Rightarrow> byte list \<Rightarrow> ('p, 's) client \<Rightarrow> bool" where
  "transfer_inv E V SV bs c \<longleftrightarrow>
     (case cl_phase c of
        Resolving \<Rightarrow> True
      | Connecting \<Rightarrow> True
      | Handshaking \<Rightarrow> True
      | Writing_request \<Rightarrow> True
      | Failed f \<Rightarrow> True
      | _ \<Rightarrow> transfer E V SV bs c)"

lemma transfer_throws [simp]: "transfer_inv E V SV bs (client_throws f c)"
  by (simp add: transfer_inv_def client_throws_def)

lemma transfer_invI: "transfer E V SV bs c \<Longrightarrow> transfer_inv E V SV bs c"
  by (simp add: transfer_inv_def split: client_phase.split)

lemma transfer_cong [simp]:
  "transfer E V SV bs (c\<lparr>cl_phase := ph\<rparr>) = transfer E V SV bs c"
  "transfer E V SV bs (c\<lparr>cl_out := out\<rparr>) = transfer E V SV bs c"
  "transfer E V SV bs (c\<lparr>cl_shut := ss\<rparr>) = transfer E V SV bs c"
  by (simp_all add: transfer_def)

lemma transfer_write: "transfer_inv E V SV bs (write_get_request E st c)"
  by (auto simp: write_get_request_def Let_def awaiting_def transfer_inv_def client_throws_def
      split: sum.split outcome.split)

lemma transfer_awaiting: "transfer E V SV bs c \<Longrightarrow> transfer_inv E V SV bs (awaiting out ph c)"
  by (cases out) (auto simp: awaiting_def intro!: transfer_invI)

lemma transfer_body_loop:
  assumes C: "client_contract E V SV consumed" and t: "transfer E V SV bs (c\<lparr>cl_pr := Some p\<rparr>)"
    and p: "got_header (ce_parser E) p" "idle V p \<or> is_complete (ce_parser E) p"
  shows "transfer_inv E V SV bs (body_loop E p c)"
proof (rule body_loop_cases [OF C p, of c])
  fix p1
  assume b: "cl_pr (body_loop E p c) = Some p1" "input V p1 = input V p"
    "cl_wire (body_loop E p c) = cl_wire c" "cl_host (body_loop E p c) = cl_host c"
    "cl_target (body_loop E p c) = cl_target c"
    "p1 = fold (\<lambda>cb. consume_body E (bytes_size cb)) (pull_body E p) p"
  with since_start_consume [OF client_contractD(3) [OF C], of p "pull_body E p" "[]"] t
  have "since_start E p1" by (auto simp: transfer_def)
  with b t show ?thesis by (auto simp: transfer_def intro!: transfer_invI)
qed

lemma transfer_after_header:
  assumes "client_contract E V SV consumed" "transfer E V SV bs (c\<lparr>cl_pr := Some p\<rparr>)"
    and "ec = Success \<Longrightarrow> got_header (ce_parser E) p \<and> (idle V p \<or> is_complete (ce_parser E) p)"
  shows "transfer_inv E V SV bs (after_header E ec p c)"
  using assms transfer_body_loop [OF assms(1,2)]
  by (auto simp: after_header_def begin_shutdown_def split: option.split intro!: transfer_invI)

lemma transfer_after_read_some:
  assumes "client_contract E V SV consumed" "transfer E V SV bs (c\<lparr>cl_pr := Some p\<rparr>)"
    and "ec \<noteq> Need_more_input"
    and "ec = Success \<Longrightarrow> got_header (ce_parser E) p \<and> (idle V p \<or> is_complete (ce_parser E) p)"
  shows "transfer_inv E V SV bs (after_read_some E ec p c)"
  using assms transfer_body_loop [OF assms(1,2)] by (auto simp: after_read_some_def)

lemma transfer_completed:
  assumes "transfer_inv E V SV bs c" "client_next E c (Completed ec) = Some c'"
  shows "transfer_inv E V SV bs c'"
  using assms
  by (cases "cl_phase c")
    (auto simp: after_resolve_def after_connect_def after_handshake_def after_leave_def
      begin_connect_def after_shutdown_def transfer_write transfer_inv_def [of E V SV bs c]
      split: if_splits option.splits, auto simp: transfer_inv_def)

lemma transfer_wrote:
  assumes C: "client_contract E V SV consumed" and reach: "client_reach E c"
    and ok: "client_event_ok E c (Wrote ev)" and nx: "client_next E c (Wrote ev) = Some c'"
  shows "transfer_inv E V SV [] c'"
proof -
  from nx obtain w where w: "cl_phase c = Writing_request" "cl_wire c = Some w"
    by (auto split: client_phase.splits option.splits)
  from ok w have ok': "async_write_complies (ce_serializer E) w ev" by simp
  from nx w consider f where "c' = client_throws f c"
    | ec n w1 where "async_write (ce_serializer E) w ev = Finished ec n w1 []"
      "c' = after_write_request E ec (c\<lparr>cl_wire := Some w1\<rparr>)"
    by (auto split: outcome.splits list.splits)
  then show ?thesis
  proof cases
    case (2 ec n w1)
    show ?thesis
    proof (cases "failed ec")
      case False
      with 2 have fin: "async_write (ce_serializer E) w ev = Finished Success n w1 []" by simp
      from client_request_on_wire [OF C reach w ok' fin] obtain sr where
        sr: "start_request E (get_request (has_zlib E) (cl_host c) (cl_target c)) = Inr sr"
        "wr_sent w1 = pending SV sr" by blast
      from client_contractD(4) [OF C] obtain p0
        where p0: "(case cl_pr c of None \<Rightarrow> new_parser E | Some p \<Rightarrow> Inr p) = Inr p0"
        by (cases "cl_pr c") auto
      from client_contractD(5) [OF C] obtain p where "rp_start E (rp_reset E p0) = Inr p"
        "input V p = []" "since_start E p" by (blast intro: since_start.start)
      with 2 False p0 sr show ?thesis
        by (auto simp: after_write_request_def transfer_def intro!: transfer_awaiting)
    qed (use 2 in \<open>simp add: after_write_request_def\<close>)
  qed simp
qed

lemma transfer_read:
  assumes C: "client_contract E V SV consumed" and reach: "client_reach E c"
    and I: "transfer_inv E V SV bs c"
    and ok: "client_event_ok E c (Read ev)" and nx: "client_next E c (Read ev) = Some c'"
  shows "transfer_inv E V SV (bs @ delivered ev) c'"
  using C client_reach_inv [OF C reach] ok nx
proof (cases rule: read_cases)
  case (header p ec n p1)
  with I header_keeps [OF since_start_keeps _ header(3)]
  have "transfer E V SV (bs @ delivered ev) (c\<lparr>cl_pr := Some p1\<rparr>)"
    by (auto simp: transfer_inv_def transfer_def)
  with header show ?thesis by (auto intro!: transfer_after_header [OF C])
next
  case (body p ec n p1)
  with I body_keeps [OF since_start_keeps _ body(3)]
  have "transfer E V SV (bs @ delivered ev) (c\<lparr>cl_pr := Some p1\<rparr>)"
    by (auto simp: transfer_inv_def transfer_def)
  with body show ?thesis by (auto intro!: transfer_after_read_some [OF C])
qed

lemma transfer_run:
  assumes C: "client_contract E V SV consumed" and main: "client_main E argv = Some c0"
  shows "client_run E c0 es = Some c \<Longrightarrow> transfer_inv E V SV (response_bytes es) c"
proof (induction es arbitrary: c rule: rev_induct)
  case Nil
  with main show ?case
    by (auto simp: client_main_def request_new_def begin_connect_def transfer_inv_def
        split: if_splits option.splits)
next
  case (snoc e es)
  then obtain c1 where c1: "client_run E c0 es = Some c1" "client_event_ok E c1 e"
    "client_next E c1 e = Some c"
    by (auto simp: client_run_append split: option.splits if_splits)
  note I = snoc.IH [OF c1(1)]
    and reach = client_run_reach [OF c1(1) client_reach.main [OF main]]
  show ?case
  proof (cases e)
    case (Completed ec)
    with transfer_completed [OF I] c1(3) show ?thesis by simp
  next
    case (Wrote ev)
    with transfer_wrote [OF C reach] c1(2,3) show ?thesis by simp
  next
    case (Read ev)
    with transfer_read [OF C reach I] c1(2,3) show ?thesis by simp
  qed
qed

end
