(* ===== verification/Exchange.thy ===== *)
theory Exchange
  imports Client_Transfer Worker_Laws "HOL-Library.Sublist"
begin

text \<open>
  The two example programs talking to each other: the client of \<open>flex_await\<close> on one end of
  a connection and a worker of the server on the other. The library moves the bytes, so
  what is printed at one end is what the responder at the other has answered.
\<close>

section \<open>What a request says\<close>

text \<open>The request that the calls of \<open>write_get_request\<close> build, as far as the server looks at it.\<close>

fun apply_call :: "req_call \<Rightarrow> request \<Rightarrow> request" where
  "apply_call (Set_target t) r = r\<lparr>rq_target_text := t\<rparr>"
| "apply_call Set_version_1_1 r = r\<lparr>rq_version := Http_1_1\<rparr>"
| "apply_call (Set_req_keep_alive b) r = r\<lparr>rq_keep_alive := b\<rparr>"
| "apply_call (Set_host h) r = r\<lparr>rq_host := h\<rparr>"
| "apply_call _ r = r"

definition requested :: "req_call list \<Rightarrow> request" where
  "requested calls = fold apply_call calls
     \<lparr>rq_target_text = ''/'', rq_version = Http_1_1, rq_keep_alive = True, rq_host = []\<rparr>"

lemma requested_get:
  "requested (get_request zlib host target) =
     \<lparr>rq_target_text = target, rq_version = Http_1_1, rq_keep_alive = False, rq_host = host\<rparr>"
  by (simp add: requested_def get_request_def)

section \<open>What both ends rely on\<close>

text \<open>
  The serializer of one end and the parser of the other speak the same language: a parser
  that reports a complete message, when all it has received are bytes of a serialized
  message, gives that message. The contents of a response are those of the body it was
  started with.
\<close>

definition request_codec ::
  "('p, 's) client_env \<Rightarrow> 's serializer_view \<Rightarrow> ('q, 't, 'f) worker_env \<Rightarrow> 'q parser_view \<Rightarrow> bool" where
  "request_codec E SV F WV \<longleftrightarrow>
     (\<forall>calls s p. start_request E calls = Inr s \<longrightarrow> is_complete (we_parser F) p \<longrightarrow>
        prefix (input WV p) (pending SV s) \<longrightarrow> pr_get F p = requested calls)"

definition response_codec ::
  "('q, 't, 'f) worker_env \<Rightarrow> 't serializer_view \<Rightarrow> ('p, 's) client_env \<Rightarrow> 'p parser_view \<Rightarrow>
   ('p \<Rightarrow> byte list) \<Rightarrow> ('f body \<Rightarrow> byte list) \<Rightarrow> bool" where
  "response_codec F WSV E V consumed contents \<longleftrightarrow>
     (\<forall>res b s s' p. sr_start F res b s = Inr s' \<longrightarrow>
        since_start E p \<longrightarrow> is_complete (ce_parser E) p \<longrightarrow> prefix (input V p) (pending WSV s') \<longrightarrow>
        consumed p @ body_left E p = contents b)"

text \<open>A parser that is started after a reset has received nothing yet.\<close>

definition fresh_start :: "('q, 't, 'f) worker_env \<Rightarrow> 'q parser_view \<Rightarrow> bool" where
  "fresh_start F WV \<longleftrightarrow> (\<forall>q p. pr_start F (pr_reset F q) = Inr p \<longrightarrow> input WV p = [])"

section \<open>The worker's side\<close>

text \<open>The first exchange of a worker on a connection: it accepts, reads the header and the
  body of a request, and its write of the answer completes, with success or not; \<open>sd\<close> is
  the flag at the time the body has been read.\<close>

definition served ::
  "('q, 't, 'f) worker_env \<Rightarrow> bool \<Rightarrow> read_done event list \<Rightarrow> read_done event list \<Rightarrow>
   write_done event list \<Rightarrow> ('q, 't) worker \<Rightarrow> 't wire \<Rightarrow> bool" where
  "served F sd ev1 ev2 ev3 w3 wire \<longleftrightarrow>
     (\<exists>w w1 w2 sd0 sd1 ec n rest.
        worker_reach F w \<and> worker_step F sd0 w (Accepted Success) (Inr w1) \<and>
        event_ok F w1 (Header_read ev1) \<and> worker_step F sd1 w1 (Header_read ev1) (Inr w2) \<and>
        event_ok F w2 (Body_read ev2) \<and> worker_step F sd w2 (Body_read ev2) (Inr w3) \<and>
        wk_phase w3 = Writing \<and> event_ok F w3 (Written ev3) \<and>
        async_write (we_serializer F) (wk_wire w3) ev3 = Finished ec n wire rest)"

text \<open>While a worker waits for a connection its parser has just been reset.\<close>

lemma on_failure_reset:
  "on_failure F ec w = Inr w' \<Longrightarrow> wk_phase w' = Accepting \<Longrightarrow> \<exists>q. wk_pr w' = pr_reset F q"
  by (auto simp: on_failure_def do_accept_def Let_def split: if_splits)

lemma handlers_reset:
  "on_accept F ec w = Inr w' \<Longrightarrow> wk_phase w' = Accepting \<Longrightarrow> \<exists>q. wk_pr w' = pr_reset F q"
  "on_read_header F ec n w = Inr w' \<Longrightarrow> wk_phase w' = Accepting \<Longrightarrow> \<exists>q. wk_pr w' = pr_reset F q"
  "on_read_body F sd ec n w = Inr w' \<Longrightarrow> wk_phase w' = Accepting \<Longrightarrow> \<exists>q. wk_pr w' = pr_reset F q"
  "on_write F ec n w = Inr w' \<Longrightarrow> wk_phase w' = Accepting \<Longrightarrow> \<exists>q. wk_pr w' = pr_reset F q"
  by (auto simp: on_accept_def on_read_header_def on_read_body_def on_write_def do_accept_def
      Let_def fail_simps dest: on_failure_reset do_read_phase split: if_splits)

lemma accepting_reset:
  "worker_reach F w \<Longrightarrow> wk_phase w = Accepting \<Longrightarrow> \<exists>q. wk_pr w = pr_reset F q"
proof (induction rule: worker_reach.induct)
  case (run w)
  then show ?case by (auto simp: worker_run_def do_accept_def)
next
  case (step w e sd w')
  from step.hyps(3) show ?case
  proof cases
    case stopped
    with step.IH step.prems show ?thesis by (auto simp: worker_stop_def)
  qed (use step.prems handlers_reset in metis)+
qed

lemma accept_starts:
  assumes "worker_reach F w" "worker_step F sd w (Accepted Success) (Inr w1)" "fresh_start F WV"
  shows "input WV (wk_pr w1) = []" "wk_phase w1 = Reading_header"
proof -
  from assms(2) have w: "wk_phase w = Accepting" "do_read F w = Inr w1"
    by (auto elim!: accepted_cases simp: on_accept_def)
  from accepting_reset [OF assms(1) w(1)] obtain q where "wk_pr w = pr_reset F q" by blast
  with w(2) assms(3) show "input WV (wk_pr w1) = []" "wk_phase w1 = Reading_header"
    by (auto simp: do_read_def fresh_start_def fail_simps)
qed

lemma header_leaves:
  assumes C: "worker_contract F WV WSV st" and I: "worker_inv F WV WSV st w"
    and ok: "event_ok F w (Header_read ev)" and step: "worker_step F sd w (Header_read ev) (Inr w1)"
    and ph: "wk_phase w1 = Reading_body"
  shows "input WV (wk_pr w1) = input WV (wk_pr w) @ delivered ev"
proof -
  from step obtain ec n p where s: "wk_phase w = Reading_header"
    "async_read_header (we_parser F) (wk_pr w) ev = Finished ec n p []"
    "on_read_header F ec n (w\<lparr>wk_pr := p\<rparr>) = Inr w1"
    by (auto elim: header_cases)
  from I s(1) have "idle WV (wk_pr w)" by (simp add: worker_inv_def)
  from header_finished [OF contractD(1) [OF C] disjI1 [OF this] _ s(2)] ok
  have "input WV p = input WV (wk_pr w) @ delivered ev" by auto
  moreover from s(3) ph have "wk_pr w1 = p"
    by (auto simp: on_read_header_def fail_simps dest: on_failure_phase split: if_splits)
  ultimately show ?thesis by simp
qed

lemma body_leaves:
  assumes C: "worker_contract F WV WSV st" and I: "worker_inv F WV WSV st w"
    and ok: "event_ok F w (Body_read ev)" and step: "worker_step F sd w (Body_read ev) (Inr w1)"
    and ph: "wk_phase w1 = Writing"
  obtains b where "wk_phase w = Reading_body" "wk_doc_root w1 = wk_doc_root w"
    "input WV (wk_pr w1) = input WV (wk_pr w) @ delivered ev"
    "answer F (wk_doc_root w1) sd (pr_get F (wk_pr w1)) [] = Inr (wk_res w1, b)"
    "sr_start F (wk_res w1) b (wr_sr (wk_wire w)) = Inr (wr_sr (wk_wire w1))"
proof -
  from step obtain ec n p where s: "wk_phase w = Reading_body"
    "async_read (we_parser F) (wk_pr w) ev = Inr (Finished ec n p [])"
    "on_read_body F sd ec n (w\<lparr>wk_pr := p\<rparr>) = Inr w1"
    by (auto elim: body_cases)
  from I s(1) have "idle WV (wk_pr w) \<or> is_complete (we_parser F) (wk_pr w)"
    by (simp add: worker_inv_def)
  from body_finished [OF contractD(1) [OF C] this] ok s(2)
  have "input WV p = input WV (wk_pr w) @ delivered ev"
    unfolding async_read_Inr by fastforce
  with on_read_body_Writing [OF s(3) ph] s(1) that show thesis by fastforce
qed

lemma served_answer:
  assumes C: "worker_contract F WV WSV st" "fresh_start F WV"
    and "served F sd ev1 ev2 ev3 w3 wire"
  obtains b s s' d where "is_complete (we_parser F) (wk_pr w3)"
    "input WV (wk_pr w3) = delivered (ev1 @ ev2)"
    "answer F (wk_doc_root w3) sd (pr_get F (wk_pr w3)) [] = Inr (wk_res w3, b)"
    "sr_start F (wk_res w3) b s = Inr s'"
    "wr_sent wire = wr_sent (wk_wire w3) @ d" "prefix d (pending WSV s')"
proof -
  from assms(3) obtain w w1 w2 sd0 sd1 ec n rest where
    1: "worker_reach F w" "worker_step F sd0 w (Accepted Success) (Inr w1)" and
    2: "event_ok F w1 (Header_read ev1)" "worker_step F sd1 w1 (Header_read ev1) (Inr w2)" and
    3: "event_ok F w2 (Body_read ev2)" "worker_step F sd w2 (Body_read ev2) (Inr w3)"
      "wk_phase w3 = Writing" and
    4: "event_ok F w3 (Written ev3)"
      "async_write (we_serializer F) (wk_wire w3) ev3 = Finished ec n wire rest"
    unfolding served_def by blast
  have r1: "worker_reach F w1" by (rule worker_reach.step [OF 1(1) _ 1(2)]) simp
  have r2: "worker_reach F w2" by (rule worker_reach.step [OF r1 2])
  have r3: "worker_reach F w3" by (rule worker_reach.step [OF r2 3(1,2)])
  note inv = worker_reach_inv [OF C(1)]
  from body_leaves [OF C(1) inv [OF r2] 3] obtain b where b: "wk_phase w2 = Reading_body"
    "input WV (wk_pr w3) = input WV (wk_pr w2) @ delivered ev2"
    "answer F (wk_doc_root w3) sd (pr_get F (wk_pr w3)) [] = Inr (wk_res w3, b)"
    "sr_start F (wk_res w3) b (wr_sr (wk_wire w2)) = Inr (wr_sr (wk_wire w3))" .
  from header_leaves [OF C(1) inv [OF r1] 2 b(1)] accept_starts(1) [OF 1 C(2)] b(2)
  have "input WV (wk_pr w3) = delivered (ev1 @ ev2)" by simp
  moreover from inv [OF r3] 3(3) have w3: "is_complete (we_parser F) (wk_pr w3)"
    "ready WSV (wr_sr (wk_wire w3))" "pending WSV (wr_sr (wk_wire w3)) \<noteq> []"
    by (simp_all add: worker_inv_def)
  moreover from 4(1) have "async_write_complies (we_serializer F) (wk_wire w3) ev3" by simp
  from async_write_sat [OF contractD(2) [OF C(1)] w3(2,3) this] 4(2) obtain d
    where "moved WSV (wk_wire w3) wire d" by auto
  ultimately show thesis
    using that b(3,4) unfolding moved_def by (metis prefixI)
qed

section \<open>The exchange\<close>

text \<open>The connection delivers on each side what the other side has sent, in order, perhaps
  not all of it yet: the worker has read of what the client's last request wrote, and the
  client of what the worker's answer wrote.\<close>

definition linked ::
  "client_event list \<Rightarrow> ('p, 's) client \<Rightarrow> read_done event list \<Rightarrow> ('q, 't) worker \<Rightarrow> 't wire \<Rightarrow> bool" where
  "linked es c ev w wire \<longleftrightarrow>
     (\<forall>cw. cl_wire c = Some cw \<longrightarrow> prefix (delivered ev) (wr_sent cw)) \<and>
     (\<exists>later. wr_sent wire = wr_sent (wk_wire w) @ response_bytes es @ later)"

text \<open>For the witness: the small client and the small server, with a codec between them. The
  request for \<open>/index.html\<close> at the host \<open>g\<close> is the bytes 10, 0; a file is sent as \<open>AB\<close>, a page as \<open>C\<close>.\<close>

definition ex_request :: request where
  "ex_request =
     \<lparr>rq_target_text = ''/index.html'', rq_version = Http_1_1, rq_keep_alive = False, rq_host = ''g''\<rparr>"

fun ex_contents :: "string body \<Rightarrow> byte list" where
  "ex_contents (File_body f n) = [65, 66]"
| "ex_contents (String_body s) = [67]"

definition ex_client :: "(small_reader, byte list) client_env" where
  "ex_client = small_client_env\<lparr>start_request :=
     (\<lambda>calls. Inr (if requested calls = ex_request then [10, 0] else [1]))\<rparr>"

definition ex_server :: "(small_parser, byte list, string) worker_env" where
  "ex_server = small_env\<lparr>pr_get := (\<lambda>_. ex_request),
     sr_start := (\<lambda>res b s. Inr ([2, 10] @ ex_contents b @ [0]))\<rparr>"

lemma ex_contracts:
  "client_contract ex_client small_reader_view small_sr_view snd"
  "worker_contract ex_server small_view small_sr_view (\<lambda>_. True)"
  "fresh_start ex_server small_view"
proof -
  have "body_contract ex_client small_reader_view snd"
    using small_body_contract by (simp add: body_contract_def ex_client_def)
  with small_client_contract show "client_contract ex_client small_reader_view small_sr_view snd"
    by (simp add: client_contract_def ex_client_def small_sr_view_def)
  show "worker_contract ex_server small_view small_sr_view (\<lambda>_. True)"
    using small_env_contract by (simp add: worker_contract_def ex_server_def small_sr_view_def)
  show "fresh_start ex_server small_view"
    by (simp add: fresh_start_def ex_server_def small_env_def small_view_def small_start_def)
qed

lemma ex_request_codec: "request_codec ex_client small_sr_view ex_server small_view"
  by (auto simp: request_codec_def ex_client_def ex_server_def small_env_def small_view_def
      small_sr_view_def small_ops_def small_complete_def prefix_Cons split: if_splits)

text \<open>What the small client has taken out of its parser is the front of the body.\<close>

definition small_full :: "byte list \<Rightarrow> byte list" where
  "small_full bs = take 8 (takeWhile (\<lambda>b. b \<noteq> 0) (drop 1 (dropWhile (\<lambda>b. b \<noteq> 10) bs)))"

lemma small_body_full: "small_body (q, t) = drop (length t) (small_full (sp_input q))"
  by (simp add: small_body_def small_full_def)

lemma takeWhile_prefix: "prefix (takeWhile P xs) (takeWhile P (xs @ ys))"
  by (induction xs) auto

lemma small_full_mono: "prefix (small_full bs) (small_full (bs @ zs))"
proof -
  let ?tail = "\<lambda>bs. drop 1 (dropWhile (\<lambda>b. b \<noteq> 10) bs)"
  have "prefix (?tail bs) (?tail (bs @ zs))"
  proof (cases "10 \<in> set bs")
    case False
    then have nil: "dropWhile (\<lambda>b. b \<noteq> 10) bs = []" by (auto simp: dropWhile_eq_Nil_conv)
    show ?thesis unfolding nil by simp
  qed (auto simp: dropWhile_append prefix_def)
  then obtain ys where "?tail (bs @ zs) = ?tail bs @ ys" by (auto simp: prefix_def)
  then have "prefix (takeWhile (\<lambda>b. b \<noteq> 0) (?tail bs)) (takeWhile (\<lambda>b. b \<noteq> 0) (?tail (bs @ zs)))"
    using takeWhile_prefix by metis
  then show ?thesis unfolding small_full_def by (auto simp: prefix_def)
qed

lemma small_since_start:
  "since_start ex_client p \<Longrightarrow> prefix (snd p) (small_full (sp_input (fst p)))"
proof (induction rule: since_start.induct)
  case (commit p n p1)
  then show ?case
    using small_full_mono [of "sp_input (fst p)"]
    by (auto simp: ex_client_def small_client_env_def small_reader_ops_def
        intro: prefix_order.trans split: prod.splits)
next
  case (consume p n)
  then obtain q t ys where p: "p = (q, t)" "small_full (sp_input q) = t @ ys"
    by (cases p) (auto simp: prefix_def)
  then have "small_body p = ys" by (simp add: small_body_full)
  with p show ?case
    by (simp add: ex_client_def small_client_env_def take_is_prefix)
qed (auto simp: ex_client_def small_client_env_def small_reader_ops_def split: prod.splits)

lemma ex_response_codec:
  "response_codec ex_server small_sr_view ex_client small_reader_view snd ex_contents"
proof -
  have "snd p @ body_left ex_client p = ex_contents b"
    if "since_start ex_client p" "is_complete (ce_parser ex_client) p"
      and "prefix (input small_reader_view p) ([2, 10] @ ex_contents b @ [0])" for p b
  proof -
    obtain q t where p: "p = (q, t)" by (cases p)
    from that p have "small_complete (sp_input q)" "prefix (sp_input q) ([2, 10] @ ex_contents b @ [0])"
      by (simp_all add: ex_client_def small_client_env_def small_reader_ops_def small_reader_view_def)
    then have "small_full (sp_input q) = ex_contents b"
      by (cases b) (auto simp: prefix_Cons small_complete_def small_full_def)
    with small_since_start [OF that(1)] p show ?thesis
      by (auto simp: ex_client_def small_client_env_def small_body_full prefix_def)
  qed
  then show ?thesis by (simp add: response_codec_def ex_server_def small_sr_view_def)
qed

definition ex_events :: "client_event list" where
  "ex_events = small_sent @ [Wrote [Done (Success, 1)], Read [Done (Success, [3, 4, 10])],
     Completed Success, Completed Success, Completed Success, Wrote [Done (Success, 2)],
     Read [Done (Success, [2, 10])], Read [Done (Success, [65, 66, 0])], Completed Success]"

definition ex_end :: "(small_reader, byte list) client" where
  "ex_end = the (client_run ex_client (request_new ''h'' ''http'' ''/'') ex_events)"

definition ex_answer :: response where
  "ex_answer =
     [Set_start_line Status_ok Http_1_1, Set_field Server ''Boost'', Set_keep_alive False,
      Set_payload_size 42, Append Content_type ''text/html'']"

lemma ex_served:
  "served ex_server False [Done (Success, [10])] [Done (Success, [0])]
     [Done (Success, 4), Done (Success, 1)]
     (small_worker Writing [Close] [10, 0] ex_answer [2, 10, 65, 66, 0] [])
     (small_wire [] [2, 10, 65, 66, 0])"
proof -
  let ?w = "\<lambda>ph inp. small_worker ph [Close] inp [] [] []"
  let ?w3 = "small_worker Writing [Close] [10, 0] ex_answer [2, 10, 65, 66, 0] []"
  have "worker_run ex_server (small_worker Idle [] [] [] [] []) = ?w Accepting []" by code_simp
  with worker_reach.run [of "small_worker Idle [] [] [] [] []" ex_server]
  have "worker_reach ex_server (?w Accepting [])" by (simp add: small_worker_def)
  moreover have "worker_step ex_server False (?w Accepting []) (Accepted Success) (Inr (?w Reading_header []))"
    "worker_step ex_server False (?w Reading_header []) (Header_read [Done (Success, [10])])
      (Inr (?w Reading_body [10]))"
    "worker_step ex_server False (?w Reading_body [10]) (Body_read [Done (Success, [0])]) (Inr ?w3)"
    by (rule worker_stepI, code_simp)+
  moreover have "event_ok ex_server (?w Reading_header []) (Header_read [Done (Success, [10])])"
    "event_ok ex_server (?w Reading_body [10]) (Body_read [Done (Success, [0])])"
    "wk_phase ?w3 = Writing"
    "event_ok ex_server ?w3 (Written [Done (Success, 4), Done (Success, 1)])"
    "async_write (we_serializer ex_server) (wk_wire ?w3) [Done (Success, 4), Done (Success, 1)] =
      Finished Success 5 (small_wire [] [2, 10, 65, 66, 0]) []"
    by code_simp+
  ultimately show ?thesis unfolding served_def by blast
qed

text \<open>C3: What the client prints is what the server answers. A client that ends well, over a
  connection to a worker of the server that serves one request on it, has printed exactly
  the contents of the body that the responder gives to the request for the target and the
  host of the URL that the redirects have led to in the end, or of the one on the command
  line if there were none: nothing is lost, repeated, reordered or taken from another message,
  however the streams have split the bytes on the way, and whether or not the write of the
  answer has been reported as complete.\<close>

theorem http_exchange:
  assumes client: "client_contract E V SV consumed" "client_main E argv = Some c0"
      "client_run E c0 es = Some c" "cl_phase c = Done_ok"
    and url: "parse_uri E (argv ! 1) = Some u"
    and server: "worker_contract F WV WSV startable" "fresh_start F WV"
      "served F sd ev1 ev2 ev3 w wire"
    and connection: "linked es c (ev1 @ ev2) w wire"
    and codec: "request_codec E SV F WV" "response_codec F WSV E V consumed contents"
  shows "let v = last (u # followed E c0 es) in
    \<exists>res b. answer F (wk_doc_root w) sd
        \<lparr>rq_target_text = url_target v, rq_version = Http_1_1, rq_keep_alive = False,
         rq_host = u_host v\<rparr> [] = Inr (res, b) \<and>
      cl_out c = contents b"
proof -
  let ?v = "last (u # followed E c0 es)"
  from client_urls [OF client(3,2) url client(2)] client(4)
  have v: "cl_host c = u_host ?v" "cl_target c = url_target ?v"
    by (simp_all add: urls_inv_def at_url_def)
  from transfer_run [OF client(1-3)] client(4) obtain p cw sr where
    p: "cl_pr c = Some p" "input V p = response_bytes es" "since_start E p" and
    cw: "cl_wire c = Some cw" "wr_sent cw = pending SV sr"
      "start_request E (get_request (has_zlib E) (cl_host c) (cl_target c)) = Inr sr"
    by (auto simp: transfer_inv_def transfer_def)
  from client_reach_inv [OF client(1) client_run_reach [OF client(3) client_reach.main [OF client(2)]]]
    client(4) p(1) have fin: "is_complete (ce_parser E) p" "body_left E p = []" "cl_out c = consumed p"
    by (auto simp: client_inv_def)
  from server obtain b s s' d where w: "is_complete (we_parser F) (wk_pr w)"
    "input WV (wk_pr w) = delivered (ev1 @ ev2)"
    "answer F (wk_doc_root w) sd (pr_get F (wk_pr w)) [] = Inr (wk_res w, b)"
    "sr_start F (wk_res w) b s = Inr s'"
    "wr_sent wire = wr_sent (wk_wire w) @ d" "prefix d (pending WSV s')"
    by (rule served_answer)
  from connection cw(1,2) w(2) have "prefix (input WV (wk_pr w)) (pending SV sr)"
    by (simp add: linked_def)
  with codec(1) cw(3) w(1) have "pr_get F (wk_pr w) =
      requested (get_request (has_zlib E) (cl_host c) (cl_target c))"
    unfolding request_codec_def by blast
  moreover from connection w(5) p(2) have "prefix (input V p) d"
    by (auto simp: linked_def)
  with w(6) have "prefix (input V p) (pending WSV s')"
    using prefix_order.trans by blast
  with codec(2) fin p(3) w(4) have "cl_out c = contents b"
    unfolding response_codec_def by (metis append_Nil2)
  ultimately show ?thesis using w(3) v by (auto simp: requested_get Let_def)
qed

theorem http_exchange_witness:
  "(\<exists>res b. answer ex_server ''/srv'' False
      \<lparr>rq_target_text = ''/index.html'', rq_version = Http_1_1, rq_keep_alive = False, rq_host = ''g''\<rparr> [] =
      Inr (res, b) \<and> cl_out ex_end = ex_contents b) \<and>
   cl_out ex_end = [65, 66]"
proof
  let ?u = "small_url ''http'' []"
    and ?v = "(small_url ''http'' [])\<lparr>u_host := ''g'', u_encoded_target := ''/index.html''\<rparr>"
    and ?c0 = "request_new ''h'' ''http'' ''/''"
    and ?w = "small_worker Writing [Close] [10, 0] ex_answer [2, 10, 65, 66, 0] []"
  have "let v = last (?u # followed ex_client ?c0 ex_events) in
    \<exists>res b. answer ex_server (wk_doc_root ?w) False
        \<lparr>rq_target_text = url_target v, rq_version = Http_1_1, rq_keep_alive = False,
         rq_host = u_host v\<rparr> [] = Inr (res, b) \<and>
      cl_out ex_end = ex_contents b"
  proof (rule http_exchange [OF ex_contracts(1) _ _ _ _ ex_contracts(2,3) ex_served _
        ex_request_codec ex_response_codec])
    show "client_main ex_client [''flex_await'', ''http://h''] = Some ?c0"
      "parse_uri ex_client ([''flex_await'', ''http://h''] ! 1) = Some ?u"
      "client_run ex_client ?c0 ex_events = Some ex_end"
      "cl_phase ex_end = Done_ok"
      by code_simp+
    have "cl_wire ex_end = Some (small_wire [] [10, 0])"
      "response_bytes ex_events = [2, 10, 65, 66, 0]" by code_simp+
    then show "linked ex_events ex_end ([Done (Success, [10])] @ [Done (Success, [0])]) ?w
        (small_wire [] [2, 10, 65, 66, 0])"
      by (simp add: linked_def small_wire_def small_worker_def)
  qed
  moreover have "followed ex_client ?c0 ex_events = [?v]" by code_simp
  moreover have "url_target ?v = ''/index.html''" "u_host ?v = ''g''" by code_simp+
  ultimately show "\<exists>res b. answer ex_server ''/srv'' False
      \<lparr>rq_target_text = ''/index.html'', rq_version = Http_1_1, rq_keep_alive = False, rq_host = ''g''\<rparr> [] =
      Inr (res, b) \<and> cl_out ex_end = ex_contents b"
    by (simp add: Let_def small_doc_root)
  show "cl_out ex_end = [65, 66]" by code_simp
qed

end
