(* ===== verification/Spec2Isabelle.thy ===== *)
theory Spec2Isabelle
  imports Server_Main System_Halt Channel Exchange
begin

text \<open>
  A model of Boost.Http.IO (\<open>include/boost/http_io\<close>, \<open>src\<close>), of its example server
  (\<open>example/server\<close>) and of its example client (\<open>example/client/flex_await\<close>), with the
  theorems that make them correct.

  \<^bold>\<open>The program.\<close> The library has four composed asynchronous operations, which move the
  bytes of HTTP messages between a stream and a parser or serializer of
  Boost.HttpProto: \<open>async_read_header\<close>, \<open>async_read\<close>/\<open>async_read_some\<close>,
  \<open>async_write_some\<close> and \<open>async_write\<close>. Each is a stackless coroutine, a class whose call
  operator is entered by the initiating function and again by every completion. The
  example server is built on them: \<open>server\<close> runs services and shuts them down on signals,
  \<open>acceptor\<close> is the one kind of service and owns an array (\<open>fixed_array\<close>) of \<open>worker\<close>s,
  and each worker accepts a connection, reads requests, answers them with the functions
  of \<open>main.cpp\<close> and writes the answers. The example client performs one GET over a plain
  or TLS stream (\<open>any_stream\<close>), follows redirects and prints the body; it is written with
  C++20 coroutines.

  \<^bold>\<open>What is not in the repository\<close> is a parameter: the parser and serializer
  (\<open>parser_ops\<close>, \<open>serializer_ops\<close>), Boost.URL and the containers of Boost.HttpProto
  (\<open>server_lib\<close>, \<open>client_env\<close>), OpenSSL, and the streams, sockets, timers and signal sets of Boost.Asio, whose
  completions are the events of the steps. What the code relies on is a named predicate
  over the parameters (\<open>parser_contract\<close>, \<open>read_stream_ok\<close>, \<open>serializer_contract\<close>,
  \<open>write_stream_ok\<close>, \<open>worker_contract\<close>, \<open>client_contract\<close>), and a concrete parser, serializer and library
  that satisfy them stand in the witnesses. The contracts say when the parser may be started
  and used, and that a serializer can be started with any answer, also after a write that
  failed (the worker never resets it); they say nothing of what a peer sends. In particular a request may name any \<open>Host\<close>: where the
  server then dereferences null, the step of the model throws, and the theorems on the
  server say so (\<open>host_crash\<close>). The sockets may report any code for any operation.

  \<^bold>\<open>The theories.\<close>

  \<^item> \<^theory_text>\<open>Http_Prelude\<close>: machine integers, error codes, failures (exceptions, failed
    assertions, null dereferences), the error monad \<open>sbind\<close> and the lemma collections.
  \<^item> \<^theory_text>\<open>Composed_Op\<close>: how a coroutine is run. An operation is a function \<open>resume\<close> from its
    resume point, the state and the arguments of the completion to an \<open>effect\<close> (it posts
    itself, starts I/O, completes, or ends). \<open>launch\<close> runs it over a script of events, and
    gives \<open>Finished\<close>, \<open>Waiting\<close> or \<open>Threw\<close>. The locales \<open>composed_op\<close> and \<open>counting_op\<close>
    hold what every operation promises (it does not complete inline, it is over once it has
    completed, it reports the sum of the bytes moved), and are interpreted on all four.
  \<^item> \<^theory_text>\<open>Read_Ops\<close>, \<^theory_text>\<open>Read_Laws\<close>: \<open>impl/read.hpp\<close> and \<open>detail/except.cpp\<close>. The resume
    points are those of the coroutine; \<open>read_commit\<close> is the code shared by both after a
    read. The laws give the bytes received, the codes reported, that nothing throws, that
    the operations end after at most \<open>limit\<close> reads (the parser's own bound on a message,
    and every read that succeeds delivers a byte), and that \<open>async_read\<close> is the loop over
    \<open>async_read_some\<close>.
  \<^item> \<^theory_text>\<open>Write_Ops\<close>, \<^theory_text>\<open>Write_Laws\<close>: \<open>impl/write.hpp\<close>. \<open>async_write\<close> runs on top of
    \<open>async_write_some\<close>. The laws say that the stream has always accepted a prefix of the
    message and the serializer holds the rest, and that the operation ends.
  \<^item> \<^theory_text>\<open>Channel\<close>: both ends of a connection. What \<open>async_write\<close> sends is what the parser of
    the reader holds, and the count of bytes is exact below the width of \<open>std::size_t\<close>.
  \<^item> \<^theory_text>\<open>Request_Text\<close>, \<^theory_text>\<open>Responses\<close>: \<open>get_extension\<close>, \<open>mime_type\<close>, \<open>path_cat\<close>,
    \<open>make_error_response\<close>, \<open>handle_request\<close> and \<open>service_unavailable\<close> of \<open>main.cpp\<close>; a
    response is the list of the calls made on it. The locale \<open>responder\<close> is their common
    contract.
  \<^item> \<^theory_text>\<open>Fixed_Array\<close>: \<open>fixed_array.hpp\<close>, with the memory actions it performs.
  \<^item> \<^theory_text>\<open>Worker\<close>, \<^theory_text>\<open>Worker_Laws\<close>: \<open>class worker\<close>. Its phase is the operation that is
    outstanding; a step completes it, over the events of its stream, and runs the handler.
    \<open>worker_inv\<close> is the invariant of the workers that have been run (\<open>worker_reach\<close>), and
    \<open>worker_step_throws\<close> says exactly which of their steps throw.
  \<^item> \<^theory_text>\<open>Worker_Protocol\<close>: the abstract connection (\<open>conn_step\<close>), a sequential HTTP server that
    waits for a connection, for a request, or for its answer to be sent, and the
    refinement: every execution of a worker is a run of it with the same labels.
  \<^item> \<^theory_text>\<open>Progress\<close>, \<^theory_text>\<open>Worker_Progress\<close>: liveness against a stream that answers step by step as it
    likes (\<open>settles\<close>): the operations of the library complete within a bound on the stream's
    completions, and every request of a worker is over after at most three operations.
  \<^item> \<^theory_text>\<open>Worker_Output\<close>: what a worker has written over its life (\<open>worker_history\<close>) is the
    serialized answers of the requests it has read, in order (\<open>output_of\<close>); \<open>System\<close> carries
    the history of every worker through the executions of the server.
  \<^item> \<^theory_text>\<open>Acceptor\<close>: \<open>acceptor.hpp\<close> and the constructor of \<open>worker\<close>.
  \<^item> \<^theory_text>\<open>Server\<close>: \<open>server.hpp\<close> and \<open>server.cpp\<close>, over any kind of service. \<open>server_trace\<close>
    has the executions; queued handlers run in any order. The locale \<open>service\<close> is the
    contract of the virtual functions. The abstract shutdown (\<open>stage_step\<close>: running,
    draining, halted) is refined by every execution.
  \<^item> \<^theory_text>\<open>System\<close>, \<^theory_text>\<open>Server_Main\<close>: the acceptor as a service, the executions of the whole
    server, and \<open>main\<close>, with \<open>std::atoi\<close> as the C standard has it.
  \<^item> \<^theory_text>\<open>System_Halt\<close>: the end of the program. After \<open>stop\<close> the handlers of the cancelled
    operations (\<open>winding_step\<close>) use up the outstanding work one by one.
  \<^item> \<^theory_text>\<open>Client\<close>, \<^theory_text>\<open>Client_Laws\<close>: \<open>flex_await/main.cpp\<close>. The coroutines \<open>request\<close>, \<open>connect\<close>
    and \<open>write_get_request\<close> run one after the other, so the client is one state machine;
    its phase is the \<open>co_await\<close> it is suspended at, and the code between two suspensions is
    one definition. \<open>client_reach\<close> has the runs, \<open>client_inv\<close> the invariant of the parser
    and the output, \<open>stream_inv\<close> that of the requests and the streams. \<open>followed\<close> reads the
    URLs that redirects lead to off the responses of a run, and \<open>urls_inv\<close> relates them to
    the requests. \<open>client_process\<close> and \<open>client_ends\<close> are \<open>main\<close> around it, with the exit
    codes, and \<open>verdict\<close> says which completion ends the process and how.
  \<^item> \<^theory_text>\<open>Client_Transfer\<close>: the loop over the body ends within \<open>limit\<close> reads, and at any time the
    parser holds exactly the bytes delivered since the request was written (\<open>transfer_inv\<close>).
  \<^item> \<^theory_text>\<open>Exchange\<close>: the client and a worker of the server at the two ends of a connection. The
    hypotheses are the contracts of both programs, that the connection delivers in order
    what was sent (\<open>linked\<close>), and that the parser of each end reads what the serializer of
    the other writes (\<open>request_codec\<close>, \<open>response_codec\<close>).

  \<^bold>\<open>Bounds.\<close> Sizes are 64-bit words, and counts are proved modulo that width. No definition
  needs fuel: a run consumes its script, and each loop has a measure. The client follows
  redirects without a bound, in the code and in the model, so no theorem claims that it
  ends; what is proved to end is the transfer of one body (\<open>client_body_terminates\<close>).

  \<^bold>\<open>What the development leaves out.\<close> Calls of \<open>server::stop\<close> from outside (nothing in the
  repository makes one; the handlers of the signals and of the timer do); associated executors, allocators and cancellation slots
  of the operations; the unfinished \<open>relay_some_op\<close> and \<open>async_relay_some\<close>, which are
  compiled out (\<open>#if 0\<close>) and name members that the serializer does not have; logging and
  the texts on the error stream; accessors that only return a reference (\<open>socket\<close>,
  \<open>context\<close>, \<open>get_executor\<close>, \<open>make_executor\<close>); the configuration headers, which hold
  includes and macros; build files and tests.
\<close>

section \<open>Properties of all the operations\<close>

text \<open>C23: With parsers, serializers and streams that keep their contracts no operation of the
  library throws and none of their assertions fails, whatever the stream delivers and
  however it fails. The one exception is the documented one: the body reads throw
  \<open>std::logic_error\<close>, before anything is initiated, exactly when the header has not been
  read.\<close>

theorem library_never_throws:
  assumes "parser_contract P V" "serializer_contract S SV"
    and "idle V p \<or> got_header P p"
    and "launch_complies (read_header_call P) (read_recv P) read_stream_ok
      read_header_op_new p ev1"
    and "idle V q \<or> is_complete P q" "body_complies P some q ev2"
    and "ready SV (wr_sr w)" "pending SV (wr_sr w) \<noteq> []" "async_write_complies S w ev3"
  shows "async_read_header P p ev1 \<noteq> Threw f \<and> read_body P some q ev2 \<noteq> Threw f \<and>
    async_write S w ev3 \<noteq> Threw f \<and>
    (async_read P q ev2 = Inl (Logic_error ''logic error'') \<longleftrightarrow> \<not> got_header P q) \<and>
    (async_read_some P q ev2 = Inl (Logic_error ''logic error'') \<longleftrightarrow> \<not> got_header P q)"
  using read_header_no_throw [OF assms(1,3,4)] body_read_no_throw [OF assms(1,5,6)]
    async_write_no_throw [OF assms(2,7-9)]
  by (simp add: async_read_def async_read_some_def throw_logic_error_def)

theorem library_never_throws_witness:
  "async_read_header small_ops small_start [Done (Success, [71]), Done (Eof, [])]
     \<noteq> Threw Assertion_failed \<and>
   read_body small_ops False (small_start\<lparr>sp_input := [10]\<rparr>)
     [Done (Success, [65]), Done (Eof, [])] \<noteq> Threw Assertion_failed \<and>
   async_write small_sr (small_wire [1, 2, 3] []) [Done (Success, 1), Done (Operation_aborted, 1)]
     \<noteq> Threw Assertion_failed \<and>
   (async_read small_ops (small_start\<lparr>sp_input := [10]\<rparr>)
      [Done (Success, [65]), Done (Eof, [])] = Inl (Logic_error ''logic error'') \<longleftrightarrow>
    \<not> got_header small_ops (small_start\<lparr>sp_input := [10]\<rparr>)) \<and>
   (async_read_some small_ops (small_start\<lparr>sp_input := [10]\<rparr>)
      [Done (Success, [65]), Done (Eof, [])] = Inl (Logic_error ''logic error'') \<longleftrightarrow>
    \<not> got_header small_ops (small_start\<lparr>sp_input := [10]\<rparr>))"
proof (rule library_never_throws [OF small_contract small_sr_contract])
  show "launch_complies (read_header_call small_ops) (read_recv small_ops) read_stream_ok
      read_header_op_new small_start [Done (Success, [71]), Done (Eof, [])]"
    "body_complies small_ops False (small_start\<lparr>sp_input := [10]\<rparr>)
      [Done (Success, [65]), Done (Eof, [])]"
    "async_write_complies small_sr (small_wire [1, 2, 3] [])
      [Done (Success, 1), Done (Operation_aborted, 1)]"
    by code_simp+
  show "idle small_view small_start \<or> got_header small_ops small_start"
    "idle small_view (small_start\<lparr>sp_input := [10]\<rparr>) \<or>
      is_complete small_ops (small_start\<lparr>sp_input := [10]\<rparr>)"
    by (simp_all add: small_view_def)
qed (simp_all add: small_sr_view_def small_wire_def)

text \<open>C38: No operation of the library, and no operation of the client's \<open>any_stream\<close>, ever
  calls its completion handler from within its initiating function: before the first event
  (the return to the event loop, or a completion) none of them has completed, whatever the parser and serializer do, also
  when there is nothing to read or preparing the buffers fails.\<close>

theorem never_completes_inline:
  "async_read_header P p [] \<noteq> Finished ec n p' rest \<and>
   read_body P some p [] \<noteq> Finished ec n p' rest \<and>
   async_write_some S w [] \<noteq> Finished ec n w' rest' \<and>
   async_write S w [] \<noteq> Finished ec n w' rest' \<and>
   launch (any_stream_call buffers) recv False s [] \<noteq> Finished ec n s' rest''"
proof -
  have "async_write S w [] \<noteq> Finished ec n w' rest'"
    by (auto simp: async_write_run async_write_some_def write_run.simps ws.launch_Nil
        split: outcome.split)
  then show ?thesis
    by (simp add: async_read_header_def read_body_def async_write_some_def rh.launch_Nil
        rb.launch_Nil ws.launch_Nil) (simp add: launch_def any_stream_call_def)
qed

end
